(* ===== verification/Susrv_Prelude.thy ===== *)
theory Susrv_Prelude
  imports Main "HOL-Library.Word"
begin

text \<open>
  Vocabulary shared by every component of the development: what a C function can do
  besides returning (\<open>fault\<close>), the error codes of the public header, the conversion of a
  mathematical integer to the \<open>int\<close> and \<open>size_t\<close> of the C code, the short-circuit
  disjunction the C code chains its initialisers with, and the list facts the other
  theories share.
\<close>

section \<open>Undefined behaviour as a value\<close>

text \<open>
  A C function whose behaviour is undefined at an input has no result to model. Such a
  branch returns \<open>Inl\<close> of the reason, every other branch returns \<open>Inr\<close>.
\<close>

datatype fault =
    NullDeref          \<comment> \<open>a null pointer is read or written through\<close>
  | OutOfBounds        \<comment> \<open>an array is read or written outside its bounds\<close>
  | BufferOverflow     \<comment> \<open>a string copy does not fit its destination\<close>
  | UninitRead         \<comment> \<open>a buffer is read before it was written\<close>
  | UseAfterFree       \<comment> \<open>an object is used after its block was freed\<close>
  | SignedOverflow     \<comment> \<open>an \<open>int\<close> addition leaves the range of \<open>int\<close>\<close>

type_synonym 'a c_result = "fault + 'a"

section \<open>Error codes\<close>

definition SU_SRV_SYSTEM_ERR :: int where "SU_SRV_SYSTEM_ERR = - 9999"
definition SU_SRV_SESSION_EXISTS_ERR :: int where "SU_SRV_SESSION_EXISTS_ERR = - 9998"
definition SU_SRV_NO_SESSION_ERR :: int where "SU_SRV_NO_SESSION_ERR = - 9997"
definition SU_SRV_INVALID_RESULT_ERR :: int where "SU_SRV_INVALID_RESULT_ERR = - 9996"

named_theorems err_defs "the error codes of the public header"

lemmas error_codes [err_defs] =
  SU_SRV_SYSTEM_ERR_def SU_SRV_SESSION_EXISTS_ERR_def
  SU_SRV_NO_SESSION_ERR_def SU_SRV_INVALID_RESULT_ERR_def

section \<open>Integer conversions\<close>

text \<open>
  \<open>c_int i\<close> is the value an \<open>int\<close> holds after \<open>i\<close> was assigned to it (32 bits, two's
  complement, the conversion every supported compiler implements); \<open>c_size b i\<close> is the
  value of \<open>i\<close> converted to a \<open>size_t\<close> of \<open>b\<close> bytes.
\<close>

definition c_int :: "int \<Rightarrow> int" where
  "c_int i = sint (word_of_int i :: 32 word)"

definition c_size :: "nat \<Rightarrow> int \<Rightarrow> int" where
  "c_size b i = i mod 2 ^ (8 * b)"

definition INT_MAX :: int where "INT_MAX = 2 ^ 31 - 1"

lemma c_int_id [simp]:
  assumes "- (2 ^ 31) \<le> i" and "i < 2 ^ 31"
  shows "c_int i = i"
  using assms by (simp add: c_int_def sint_sbintrunc' signed_take_bit_int_eq_self)

lemma c_int_code [code]: "c_int i = (i + 2 ^ 31) mod 2 ^ 32 - 2 ^ 31"
proof -
  have "c_int i = signed_take_bit 31 i"
    by (simp add: c_int_def sint_sbintrunc')
  then show ?thesis by (simp add: signed_take_bit_eq_take_bit_shift take_bit_eq_mod)
qed

lemma c_int_mod: "c_int i mod 2 ^ 32 = i mod 2 ^ 32"
proof -
  have "uint (word_of_int (c_int i) :: 32 word) = uint (word_of_int i :: 32 word)"
    by (simp add: c_int_def)
  then show ?thesis by (simp add: uint_word_of_int)
qed

lemma c_int_range: "- (2 ^ 31) \<le> c_int i \<and> c_int i < 2 ^ 31"
  using sint_ge [of "word_of_int i :: 32 word"] sint_lt [of "word_of_int i :: 32 word"]
  by (simp add: c_int_def)

lemma c_size_id [simp]: "0 \<le> i \<Longrightarrow> i < 2 ^ (8 * b) \<Longrightarrow> c_size b i = i"
  by (simp add: c_size_def)

section \<open>Short-circuit disjunction of effectful calls\<close>

text \<open>
  \<open>c_or\<close> is the value of \<open>f || g || ...\<close> over calls that return an \<open>int\<close>: the calls run
  from the left until one returns non-zero, and the value of the expression is 1 or 0.
\<close>

fun c_or :: "('s \<Rightarrow> int \<times> 's) list \<Rightarrow> 's \<Rightarrow> int \<times> 's" where
  "c_or [] s = (0, s)"
| "c_or (f # fs) s = (case f s of (e, s') \<Rightarrow> if e \<noteq> 0 then (1, s') else c_or fs s')"

text \<open>
  The contract a chain of initialisers relies on: a step that reports success establishes
  its postcondition, and no step of the chain destroys the postcondition of another.
\<close>

locale init_chain =
  fixes ini :: "'d \<Rightarrow> 's \<Rightarrow> int \<times> 's"
    and post :: "'d \<Rightarrow> 's \<Rightarrow> bool"
  assumes establishes: "ini d s = (0, s') \<Longrightarrow> post d s'"
    and preserves: "post d s \<Longrightarrow> ini d' s = (0, s') \<Longrightarrow> post d s'"
begin

lemma chain_keeps:
  assumes "c_or (map ini ds) s = (0, s')" and "post d s"
  shows "post d s'"
  using assms
  by (induction ds arbitrary: s) (auto split: prod.splits if_splits intro: preserves)

lemma chain_establishes:
  assumes "c_or (map ini ds) s = (0, s')" and "d \<in> set ds"
  shows "post d s'"
  using assms
proof (induction ds arbitrary: s)
  case Nil
  then show ?case by simp
next
  case (Cons a ds)
  from Cons.prems(1) obtain s1 where s1: "ini a s = (0, s1)" and
    rest: "c_or (map ini ds) s1 = (0, s')"
    by (auto split: prod.splits if_splits)
  show ?case
  proof (cases "d \<in> set ds")
    case True
    with Cons.IH [OF rest] show ?thesis by simp
  next
    case False
    with Cons.prems(2) have "d = a" by simp
    with chain_keeps [OF rest establishes [OF s1]] show ?thesis by simp
  qed
qed

end

lemma c_or_range: "fst (c_or fs s) \<in> {0, 1}"
  by (induction fs arbitrary: s) (auto split: prod.splits)

lemma c_or_invariant:
  assumes "\<And>f s. f \<in> set fs \<Longrightarrow> P (snd (f s)) = P s"
  shows "P (snd (c_or fs s)) = P s"
  using assms
proof (induction fs arbitrary: s)
  case Nil
  then show ?case by simp
next
  case (Cons f fs)
  from Cons.prems [of f s] have "P (snd (f s)) = P s" by simp
  moreover from Cons have "P (snd (c_or fs (snd (f s)))) = P (snd (f s))" by simp
  ultimately show ?case by (cases "f s") auto
qed

lemma c_or_preserves:
  assumes "P s" and "\<And>f s. f \<in> set fs \<Longrightarrow> P s \<Longrightarrow> P (snd (f s))"
  shows "P (snd (c_or fs s))"
  using assms
proof (induction fs arbitrary: s)
  case Nil
  then show ?case by simp
next
  case (Cons f fs)
  from Cons.prems have "P (snd (f s))" by simp
  moreover from this Cons have "P (snd (c_or fs (snd (f s))))" by simp
  ultimately show ?case by (cases "f s") auto
qed

section \<open>Lists\<close>

lemma takeWhile_id [simp]: "c \<notin> set s \<Longrightarrow> takeWhile (\<lambda>x. x \<noteq> c) s = s"
  by (auto simp: takeWhile_eq_all_conv)

lemma takeWhile_neq_append [simp]:
  "c \<notin> set a \<Longrightarrow> takeWhile (\<lambda>x. x \<noteq> c) (a @ b) = a @ takeWhile (\<lambda>x. x \<noteq> c) b"
  by (induction a) auto

end
