(* ===== verification/CLib.thy ===== *)
theory CLib
  imports Susrv_Prelude
begin

text \<open>
  The functions of the C library the sources call, as far as they use them: C strings in a
  buffer, decimal conversion, \<open>snprintf\<close> with the conversions \<open>%s\<close>, \<open>%d\<close>, \<open>%05d\<close> and
  \<open>%ld\<close>, \<open>strcpy\<close> into an array of known size, \<open>strstr\<close>, \<open>sscanf\<close> with one \<open>%d\<close>, \<open>strtol\<close> in
  base 10 and \<open>fgets\<close>. A \<open>char\<close> buffer is a \<open>string\<close>; the C string it holds ends before
  its first NUL.
\<close>

section \<open>C strings\<close>

abbreviation NUL :: char where "NUL \<equiv> CHR 0x00"
abbreviation LF :: char where "LF \<equiv> CHR 0x0A"
abbreviation SLASH :: char where "SLASH \<equiv> CHR ''/''"

definition cstr :: "string \<Rightarrow> string" where
  "cstr s = takeWhile (\<lambda>c. c \<noteq> NUL) s"

definition c_strlen :: "string \<Rightarrow> nat" where
  "c_strlen s = length (cstr s)"

lemma cstr_id [simp]: "NUL \<notin> set s \<Longrightarrow> cstr s = s"
  by (simp add: cstr_def)

lemma cstr_no_NUL [simp]: "NUL \<notin> set (cstr s)"
  unfolding cstr_def by (auto dest: set_takeWhileD)

lemma cstr_cstr [simp]: "cstr (cstr s) = cstr s"
  by simp

lemma c_strlen_append [simp]: "NUL \<notin> set a \<Longrightarrow> c_strlen (a @ b) = length a + c_strlen b"
  by (simp add: c_strlen_def cstr_def)

lemma c_strlen_id [simp]: "NUL \<notin> set s \<Longrightarrow> c_strlen s = length s"
  by (simp add: c_strlen_def)

text \<open>
  \<open>strcpy\<close> into an array of \<open>cap\<close> bytes: the string and its NUL must fit. The source is
  \<open>None\<close> while the buffer it points to was never written.
\<close>

definition c_strcpy :: "nat \<Rightarrow> string option \<Rightarrow> string c_result" where
  "c_strcpy cap src =
     (case src of
        None \<Rightarrow> Inl UninitRead
      | Some s \<Rightarrow> if c_strlen s + 1 \<le> cap then Inr (cstr s) else Inl BufferOverflow)"

fun c_strstr :: "string \<Rightarrow> string \<Rightarrow> bool" where
  "c_strstr hay needle =
     (take (length needle) hay = needle
      \<or> (case hay of [] \<Rightarrow> False | _ # hay' \<Rightarrow> c_strstr hay' needle))"

declare c_strstr.simps [simp del]

lemma c_strstr_iff: "c_strstr hay needle \<longleftrightarrow> (\<exists>a b. hay = a @ needle @ b)"
proof (induction hay needle rule: c_strstr.induct)
  case (1 hay needle)
  have pre: "take (length needle) hay = needle \<longleftrightarrow> (\<exists>b. hay = needle @ b)"
    by (metis append_eq_conv_conj append_take_drop_id)
  show ?case
  proof (cases hay)
    case Nil
    then show ?thesis by (auto simp: c_strstr.simps [of "[]"])
  next
    case (Cons x xs)
    have "(\<exists>a b. x # xs = a @ needle @ b) \<longleftrightarrow>
        (\<exists>b. x # xs = needle @ b) \<or> (\<exists>a b. xs = a @ needle @ b)"
      by (metis (no_types, lifting) Cons_eq_append_conv append_Cons append_Nil)
    with Cons 1 pre show ?thesis by (simp add: c_strstr.simps [of "x # xs"])
  qed
qed

section \<open>Decimal numbers\<close>

definition digit :: "nat \<Rightarrow> char" where
  "digit d = char_of (48 + d)"

definition is_digit :: "char \<Rightarrow> bool" where
  "is_digit c \<longleftrightarrow> 48 \<le> (of_char c :: nat) \<and> (of_char c :: nat) \<le> 57"

definition digit_val :: "char \<Rightarrow> nat" where
  "digit_val c = of_char c - 48"

fun dec :: "nat \<Rightarrow> string" where
  "dec n = (if n < 10 then [digit n] else dec (n div 10) @ [digit (n mod 10)])"

declare dec.simps [simp del]

definition undec :: "string \<Rightarrow> nat" where
  "undec s = foldl (\<lambda>a c. 10 * a + digit_val c) 0 s"

definition show_int :: "int \<Rightarrow> string" where
  "show_int i = (if i < 0 then CHR ''-'' # dec (nat (- i)) else dec (nat i))"

text \<open>\<open>%0wd\<close>: at least \<open>w\<close> characters, padded with zeros after the sign.\<close>

definition zpad :: "nat \<Rightarrow> int \<Rightarrow> string" where
  "zpad w i =
     (let s = dec (nat \<bar>i\<bar>); sign = (if i < 0 then ''-'' else '''')
      in sign @ replicate (w - (length sign + length s)) (CHR ''0'') @ s)"

lemma of_char_digit [simp]: "d < 10 \<Longrightarrow> (of_char (digit d) :: nat) = 48 + d"
  by (simp add: digit_def of_char_of)

lemma digit_val_digit [simp]: "d < 10 \<Longrightarrow> digit_val (digit d) = d"
  by (simp add: digit_val_def)

lemma is_digit_digit [simp]: "d < 10 \<Longrightarrow> is_digit (digit d)"
  by (simp add: is_digit_def)

lemma dec_digits: "\<forall>c \<in> set (dec n). is_digit c"
proof (induction n rule: dec.induct)
  case (1 n)
  then show ?case by (cases "n < 10") (auto simp: dec.simps [of n])
qed

lemma dec_ne [simp]: "dec n \<noteq> []"
  by (subst dec.simps) simp

lemma undec_dec [simp]: "undec (dec n) = n"
proof (induction n rule: dec.induct)
  case (1 n)
  show ?case
  proof (cases "n < 10")
    case True
    then show ?thesis by (simp add: undec_def dec.simps [of n])
  next
    case False
    then have "undec (dec n) = 10 * undec (dec (n div 10)) + n mod 10"
      by (simp add: undec_def dec.simps [of n])
    with 1 False show ?thesis by simp
  qed
qed

lemma dec_inj [simp]: "dec m = dec n \<longleftrightarrow> m = n"
  by (metis undec_dec)

lemma length_dec_le: "n < 10 ^ k \<Longrightarrow> 0 < k \<Longrightarrow> length (dec n) \<le> k"
proof (induction n arbitrary: k rule: dec.induct)
  case (1 n)
  show ?case
  proof (cases "n < 10")
    case True
    with 1 show ?thesis by (simp add: dec.simps [of n] Suc_le_eq)
  next
    case False
    with "1.prems" obtain j where k: "k = Suc j" by (cases k) auto
    have "n div 10 < 10 ^ j" using "1.prems" k by (simp add: less_mult_imp_div_less mult.commute)
    moreover have "0 < j" using False "1.prems" k by (cases j) auto
    ultimately have "length (dec (n div 10)) \<le> j" using "1.IH" False by blast
    with False k show ?thesis by (simp add: dec.simps [of n])
  qed
qed

lemma is_digit_not_special [simp]:
  "\<not> is_digit NUL" "\<not> is_digit LF" "\<not> is_digit SLASH" "\<not> is_digit (CHR ''-'')"
  "\<not> is_digit (CHR ''+'')" "\<not> is_digit (CHR '' '')" "is_digit (CHR ''0'')"
  by (simp_all add: is_digit_def)

lemma not_in_dec [simp]: "\<not> is_digit c \<Longrightarrow> c \<notin> set (dec n)"
  using dec_digits by blast

lemma not_in_show_int [simp]:
  "NUL \<notin> set (show_int i)" "LF \<notin> set (show_int i)" "SLASH \<notin> set (show_int i)"
  by (simp_all add: show_int_def)

lemma not_in_zpad [simp]:
  "NUL \<notin> set (zpad w i)" "LF \<notin> set (zpad w i)" "SLASH \<notin> set (zpad w i)"
  by (simp_all add: zpad_def Let_def)

lemma zpad_nonneg: "0 \<le> i \<Longrightarrow> zpad w i = replicate (w - length (dec (nat i))) (CHR ''0'') @ dec (nat i)"
  by (simp add: zpad_def Let_def)

lemma undec_zeros [simp]: "undec (replicate k (CHR ''0'') @ s) = undec s"
  by (induction k) (simp_all add: undec_def digit_val_def)

lemma undec_zpad [simp]: "0 \<le> i \<Longrightarrow> undec (zpad w i) = nat i"
  by (simp add: zpad_nonneg)

lemma length_zpad: "0 \<le> i \<Longrightarrow> nat i < 10 ^ w \<Longrightarrow> 0 < w \<Longrightarrow> length (zpad w i) = w"
  by (simp add: zpad_nonneg length_dec_le)

lemma zpad_inj: "0 \<le> i \<Longrightarrow> 0 \<le> j \<Longrightarrow> zpad w i = zpad w j \<longleftrightarrow> i = j"
  by (metis undec_zpad nat_eq_iff2 eq_nat_nat_iff)

section \<open>Formatted output\<close>

text \<open>
  The arguments of a variadic call, the four conversions the sources use, and the
  interpreter of a format string. A conversion character that is none of the four, and a
  conversion without an argument, do not occur in the sources; they print as they stand.
\<close>

datatype farg = FStr string | FInt int

datatype conv = ConvS | ConvD | Conv05D | ConvLD

definition conv_prefix :: "string \<Rightarrow> conv \<Rightarrow> string \<Rightarrow> (conv \<times> string) option" where
  "conv_prefix p k f = (if take (length p) f = p then Some (k, drop (length p) f) else None)"

definition parse_conv :: "string \<Rightarrow> (conv \<times> string) option" where
  "parse_conv f =
     (case conv_prefix ''s'' ConvS f of Some r \<Rightarrow> Some r
      | None \<Rightarrow> (case conv_prefix ''d'' ConvD f of Some r \<Rightarrow> Some r
      | None \<Rightarrow> (case conv_prefix ''05d'' Conv05D f of Some r \<Rightarrow> Some r
      | None \<Rightarrow> conv_prefix ''ld'' ConvLD f)))"

fun show_arg :: "conv \<Rightarrow> farg \<Rightarrow> string" where
  "show_arg ConvS (FStr s) = cstr s"
| "show_arg ConvD (FInt i) = show_int i"
| "show_arg Conv05D (FInt i) = zpad 5 i"
| "show_arg ConvLD (FInt i) = show_int i"
| "show_arg _ _ = []"

lemma parse_conv_shorter: "parse_conv f = Some (k, r) \<Longrightarrow> length r \<le> length f"
  by (auto simp: parse_conv_def conv_prefix_def split: option.splits if_splits)

function c_format :: "string \<Rightarrow> farg list \<Rightarrow> string" where
  "c_format [] args = []"
| "c_format (c # f) args =
     (if c \<noteq> CHR ''%'' then c # c_format f args
      else case args of
        [] \<Rightarrow> c # c_format f []
      | a # as \<Rightarrow>
          (case parse_conv f of
             None \<Rightarrow> c # c_format f args
           | Some (k, f') \<Rightarrow> show_arg k a @ c_format f' as))"
  by pat_completeness auto
termination
  by (relation "measure (\<lambda>(f, args). length f)") (auto dest: parse_conv_shorter)

lemma show_arg_no_NUL [simp]: "NUL \<notin> set (show_arg k a)"
  by (cases "(k, a)" rule: show_arg.cases) simp_all

lemma c_format_no_NUL [simp]: "NUL \<notin> set f \<Longrightarrow> NUL \<notin> set (c_format f args)"
proof (induction f args rule: c_format.induct)
  case (1 args)
  then show ?case by simp
next
  case (2 c f args)
  have sub: "NUL \<notin> set r" if "parse_conv f = Some (k, r)" for k r
    using that "2.prems"
    by (auto simp: parse_conv_def conv_prefix_def split: option.splits if_splits dest: in_set_dropD)
  show ?case
  proof (cases "c = CHR ''%'' \<and> args \<noteq> [] \<and> parse_conv f \<noteq> None")
    case True
    then obtain a as k r where args: "args = a # as" and r: "parse_conv f = Some (k, r)"
      by (cases args) auto
    with True 2(4) [of a as "(k, r)" k r] sub show ?thesis by auto
  next
    case False
    with 2 show ?thesis by (auto split: list.splits option.splits)
  qed
qed

text \<open>
  \<open>snprintf(buf, n, ...)\<close> stores at most \<open>n - 1\<close> characters and a NUL; with \<open>n = 0\<close> it
  stores nothing and leaves the buffer as it was, which for the fresh buffers of the
  sources is unwritten (\<open>None\<close>).
\<close>

definition c_snprintf :: "int \<Rightarrow> string \<Rightarrow> farg list \<Rightarrow> string option" where
  "c_snprintf n f args = (if n = 0 then None else Some (take (nat (n - 1)) (c_format f args)))"

section \<open>Scanning\<close>

definition c_isspace :: "char \<Rightarrow> bool" where
  "c_isspace c \<longleftrightarrow> c = CHR '' '' \<or> (9 \<le> (of_char c :: nat) \<and> (of_char c :: nat) \<le> 13)"

text \<open>
  The number at the head of a string, as \<open>strtol\<close> in base 10 reads it: white space, an
  optional sign, digits; with the rest after the last digit, \<open>None\<close> without a digit.
\<close>

definition read_int :: "string \<Rightarrow> (int \<times> string) option" where
  "read_int s =
     (let t = dropWhile c_isspace s;
          neg = (t \<noteq> [] \<and> hd t = CHR ''-'');
          u = (if t \<noteq> [] \<and> (hd t = CHR ''-'' \<or> hd t = CHR ''+'') then tl t else t);
          ds = takeWhile is_digit u
      in if ds = [] then None
         else Some (if neg then - int (undec ds) else int (undec ds), dropWhile is_digit u))"

definition saturate :: "nat \<Rightarrow> int \<Rightarrow> int" where
  "saturate bits i = max (- (2 ^ (bits - 1))) (min (2 ^ (bits - 1) - 1) i)"

text \<open>
  \<open>strtol(s, &endptr, 10)\<close> with a \<open>long\<close> of the given width: the value and the string at
  \<open>endptr\<close>, which is the whole argument when there is no number.
\<close>

definition c_strtol :: "nat \<Rightarrow> string \<Rightarrow> int \<times> string" where
  "c_strtol bits s =
     (case read_int (cstr s) of
        None \<Rightarrow> (0, cstr s)
      | Some (i, rest) \<Rightarrow> (saturate bits i, rest))"

text \<open>
  \<open>sscanf\<close> of one \<open>%d\<close>: \<open>EOF\<close> when the input ends before the conversion, 0 when the input
  does not match, 1 with the converted \<open>int\<close>. What follows the conversion in the format
  no longer changes the result. The conversion reads the number as \<open>strtoimax\<close> does (it
  saturates at 64 bits) and stores its low 32 bits.
\<close>

datatype scan_result = ScanEOF | ScanNone | ScanInt int

fun c_sscanf :: "string \<Rightarrow> string \<Rightarrow> scan_result" where
  "c_sscanf [] s = ScanNone"
| "c_sscanf (f # fs) s =
     (if f = CHR ''%'' \<and> take 1 fs = ''d'' then
        (if dropWhile c_isspace s = [] then ScanEOF
         else case read_int s of
           None \<Rightarrow> ScanNone
         | Some (i, _) \<Rightarrow> ScanInt (c_int (saturate 64 i)))
      else if c_isspace f then c_sscanf fs (dropWhile c_isspace s)
      else case s of
        [] \<Rightarrow> ScanEOF
      | c # s' \<Rightarrow> if c = f then c_sscanf fs s' else ScanNone)"

text \<open>
  \<open>fgets(buf, n, f)\<close> at the start of a file: at most \<open>n - 1\<close> bytes, up to and including
  the first line feed; a null pointer (\<open>None\<close>) at the end of the file.
\<close>

definition c_fgets :: "nat \<Rightarrow> string \<Rightarrow> string option" where
  "c_fgets n s =
     (if s = [] then None
      else let t = take (n - 1) s in
        Some (if LF \<in> set t then takeWhile (\<lambda>c. c \<noteq> LF) t @ [LF] else t))"

lemma saturate_id [simp]:
  "- (2 ^ (bits - 1)) \<le> i \<Longrightarrow> i < 2 ^ (bits - 1) \<Longrightarrow> saturate bits i = i"
  by (simp add: saturate_def)

lemma is_digit_not_space: "is_digit c \<Longrightarrow> \<not> c_isspace c"
  by (auto simp: is_digit_def c_isspace_def)

lemma dropWhile_dec [simp]:
  "dropWhile c_isspace (dec n @ s) = dec n @ s"
  by (cases "dec n") (use dec_digits [of n] is_digit_not_space in auto)

lemma takeWhile_dec [simp]:
  "takeWhile is_digit (dec n @ s) = dec n @ takeWhile is_digit s"
  "dropWhile is_digit (dec n @ s) = dropWhile is_digit s"
  using dec_digits [of n] by (simp_all add: takeWhile_append2 dropWhile_append2)

lemma read_int_dec:
  assumes "s = [] \<or> \<not> is_digit (hd s)"
  shows "read_int (dec n @ s) = Some (int n, s)"
proof -
  have hd: "is_digit (hd (dec n @ s))"
    using dec_digits [of n] by (cases "dec n") auto
  have "takeWhile is_digit s = []" "dropWhile is_digit s = s"
    using assms by (cases s; simp)+
  moreover have "hd (dec n @ s) \<noteq> CHR ''-''" "hd (dec n @ s) \<noteq> CHR ''+''"
    using hd by (metis is_digit_not_special)+
  ultimately show ?thesis by (simp add: read_int_def Let_def)
qed

lemma c_strtol_dec:
  assumes "int n < 2 ^ (bits - 1)"
  shows "c_strtol bits (dec n) = (int n, [])"
  using read_int_dec [of "[]" n] assms
  by (simp add: c_strtol_def order_trans [of _ 0])

section \<open>Text of a buffer\<close>

text \<open>The characters \<open>snprintf\<close> left in a buffer; none if it was not written.\<close>

definition c_buf :: "string option \<Rightarrow> string" where
  "c_buf b = (case b of None \<Rightarrow> [] | Some s \<Rightarrow> s)"

lemma c_buf_simps [simp]: "c_buf None = []" "c_buf (Some s) = s"
  by (simp_all add: c_buf_def)

lemma c_snprintf_fits:
  "int (length (c_format f args)) < n \<Longrightarrow> c_snprintf n f args = Some (c_format f args)"
  by (simp add: c_snprintf_def)

lemma c_snprintf_length: "c_snprintf n f args = Some s \<Longrightarrow> 0 \<le> n \<Longrightarrow> int (length s) < n"
  by (auto simp: c_snprintf_def split: if_splits)

lemma c_snprintf_no_NUL: "NUL \<notin> set f \<Longrightarrow> c_snprintf n f args = Some s \<Longrightarrow> NUL \<notin> set s"
  by (auto simp: c_snprintf_def split: if_splits dest: in_set_takeD)

lemma length_cstr: "length (cstr s) = c_strlen s"
  by (simp add: c_strlen_def)

lemma parse_conv_simps [simp]:
  "parse_conv (CHR ''s'' # f) = Some (ConvS, f)"
  "parse_conv (CHR ''d'' # f) = Some (ConvD, f)"
  "parse_conv (CHR ''0'' # CHR ''5'' # CHR ''d'' # f) = Some (Conv05D, f)"
  "parse_conv (CHR ''l'' # CHR ''d'' # f) = Some (ConvLD, f)"
  by (simp_all add: parse_conv_def conv_prefix_def)

lemma length_dec_exact: "10 ^ k \<le> n \<Longrightarrow> n < 10 ^ Suc k \<Longrightarrow> length (dec n) = Suc k"
proof (induction k arbitrary: n)
  case 0
  then show ?case by (simp add: dec.simps [of n])
next
  case (Suc k)
  from Suc.prems have "10 ^ k \<le> n div 10" "n div 10 < 10 ^ Suc k"
    by (simp_all add: less_eq_div_iff_mult_less_eq less_mult_imp_div_less mult.commute)
  then have "length (dec (n div 10)) = Suc k" by (rule Suc.IH)
  moreover have "\<not> n < 10" using Suc.prems(1) by (simp add: not_less order_trans [of 10 "10 * 10 ^ k"])
  ultimately show ?case by (simp add: dec.simps [of n])
qed

lemma zpad_wide: "0 \<le> i \<Longrightarrow> w \<le> length (dec (nat i)) \<Longrightarrow> zpad w i = dec (nat i)"
  by (simp add: zpad_nonneg)

end
