(* ===== verification/Os.thy ===== *)
theory Os
  imports CLib "HOL-Library.AList" "HOL-Library.Multiset"
begin

unbundle bit_operations_syntax

text \<open>
  The process and the operating system the library runs on: heap blocks, the file system,
  the descriptor table, \<open>errno\<close>, and the outside world's choices. Every request that may
  fail asks the environment \<open>env\<close>, which answers by the request and by how many requests
  were made before (\<open>tick\<close>); a theorem for every \<open>env\<close> holds however the requests fail.
  What the kernel documents for a request that the environment lets through (\<open>mkdir\<close> needs
  a parent directory and a free name, \<open>rmdir\<close> an empty directory, \<open>bind\<close> a free name, a new
  descriptor is the lowest free one) is part of the model. Paths are compared as strings:
  symbolic links, \<open>.\<close>, \<open>..\<close> and repeated slashes are not resolved.
\<close>

section \<open>State and environment\<close>

datatype ctype = SizeofSession | SizeofPthread | SizeofMutex | SizeofCond

datatype call =
    Malloc int | Realloc int
  | Stat string | Mkdir string | Rmdir string | Fopen string
  | Socket | Bind string | Listen | Connect string | Accept
  | Fork | Execve string | Waitpid int
  | MutexInit | CondInit | PthreadCreate | PthreadJoin

text \<open>
  \<open>fails E c t\<close> is the \<open>errno\<close> with which request \<open>c\<close> fails when it is the \<open>t\<close>-th, 0 when
  the environment lets it through. \<open>fork_ret\<close> is what \<open>fork\<close> returns when it does not fail:
  0 in the child, the child's PID in the parent. \<open>wait_ret\<close> is what a non-blocking
  \<open>waitpid\<close> for a PID returns when it does not fail, \<open>self_pid\<close> what \<open>getpid\<close> returns.
  \<open>uninit\<close> and \<open>uninit_ptr\<close> are what fields hold that were allocated and never written.
  \<open>SU_SRV_TEST_BUILD\<close> says whether the library was compiled with that macro.
\<close>

record env =
  sizeof_ptr :: nat
  sizeof_of :: "ctype \<Rightarrow> int"
  fails :: "call \<Rightarrow> nat \<Rightarrow> int"
  proc_umask :: "32 word"
  strerror :: "int \<Rightarrow> string"
  uninit :: int
  uninit_ptr :: nat
  fork_ret :: "nat \<Rightarrow> nat"
  wait_ret :: "int \<Rightarrow> nat \<Rightarrow> int"
  self_pid :: int
  SU_SRV_TEST_BUILD :: bool

datatype node = NDir "32 word" | NFile string | NSock

datatype fdesc = FFile string | FSock | FBound string | FListen string | FConn | FPeer

text \<open>What the rest of the system sees of the process, in order.\<close>

datatype act =
    ASend int string | AKill int int | AWaitpid int | ASleep int | ANanosleep int int

record os =
  tick :: nat
  errno :: int
  brk :: nat
  heap :: "nat list"
  nodes :: "(string \<times> node) list"
  fds :: "(int \<times> fdesc) list"
  acts :: "act list"

definition ENOENT :: int where "ENOENT = 2"
definition EBADF :: int where "EBADF = 9"
definition ENOMEM :: int where "ENOMEM = 12"
definition EFAULT :: int where "EFAULT = 14"
definition EEXIST :: int where "EEXIST = 17"
definition ENOTDIR :: int where "ENOTDIR = 20"
definition EISDIR :: int where "EISDIR = 21"
definition ENOTEMPTY :: int where "ENOTEMPTY = 39"
definition EADDRINUSE :: int where "EADDRINUSE = 98"
definition ECONNREFUSED :: int where "ECONNREFUSED = 111"

named_theorems errno_defs "the numbers of the errno values"

lemmas errno_values [errno_defs] =
  ENOENT_def EBADF_def ENOMEM_def EFAULT_def EEXIST_def ENOTDIR_def EISDIR_def
  ENOTEMPTY_def EADDRINUSE_def ECONNREFUSED_def

definition ask :: "env \<Rightarrow> call \<Rightarrow> 'a os_scheme \<Rightarrow> int \<times> 'a os_scheme" where
  "ask E c w = (fails E c (tick w), w\<lparr>tick := Suc (tick w)\<rparr>)"

named_theorems os_defs "definitions of the requests to the operating system"

declare ask_def [os_defs]

section \<open>Heap\<close>

text \<open>
  A block is its address, the heap is the list of live blocks, the null pointer is 0 and
  addresses are handed out in increasing order. No allocator grants more than half of the
  address space, as C requires of pointer differences.
\<close>

definition PTRDIFF_MAX :: "env \<Rightarrow> int" where
  "PTRDIFF_MAX E = 2 ^ (8 * sizeof_ptr E - 1) - 1"

definition c_malloc :: "env \<Rightarrow> int \<Rightarrow> 'a os_scheme \<Rightarrow> nat \<times> 'a os_scheme" where
  "c_malloc E n w =
     (let (e, w) = ask E (Malloc n) w in
      if e \<noteq> 0 \<or> PTRDIFF_MAX E < n then (0, w\<lparr>errno := ENOMEM\<rparr>)
      else (Suc (brk w), w\<lparr>brk := Suc (brk w), heap := Suc (brk w) # heap w\<rparr>))"

definition c_free :: "nat \<Rightarrow> 'a os_scheme \<Rightarrow> 'a os_scheme" where
  "c_free a w = w\<lparr>heap := remove1 a (heap w)\<rparr>"

definition c_realloc :: "env \<Rightarrow> nat \<Rightarrow> int \<Rightarrow> 'a os_scheme \<Rightarrow> nat \<times> 'a os_scheme" where
  "c_realloc E a n w =
     (let (e, w) = ask E (Realloc n) w in
      if e \<noteq> 0 \<or> PTRDIFF_MAX E < n then (0, w\<lparr>errno := ENOMEM\<rparr>)
      else (Suc (brk w), w\<lparr>brk := Suc (brk w), heap := Suc (brk w) # remove1 a (heap w)\<rparr>))"

definition heap_ok :: "'a os_scheme \<Rightarrow> bool" where
  "heap_ok w \<longleftrightarrow> distinct (heap w) \<and> (\<forall>a \<in> set (heap w). 0 < a \<and> a \<le> brk w)"

declare c_malloc_def [os_defs] c_free_def [os_defs] c_realloc_def [os_defs]

section \<open>File system\<close>

definition node_at :: "'a os_scheme \<Rightarrow> string \<Rightarrow> node option" where
  "node_at w p = map_of (nodes w) p"

definition set_node :: "string \<Rightarrow> node \<Rightarrow> 'a os_scheme \<Rightarrow> 'a os_scheme" where
  "set_node p n w = w\<lparr>nodes := AList.update p n (nodes w)\<rparr>"

definition del_node :: "string \<Rightarrow> 'a os_scheme \<Rightarrow> 'a os_scheme" where
  "del_node p w = w\<lparr>nodes := AList.delete p (nodes w)\<rparr>"

text \<open>The directory part of a path: what precedes its last slash.\<close>

definition parent_of :: "string \<Rightarrow> string" where
  "parent_of p =
     (if SLASH \<notin> set p then ''.''
      else let q = rev (tl (dropWhile (\<lambda>c. c \<noteq> SLASH) (rev p)))
           in if q = [] then ''/'' else q)"

definition children :: "'a os_scheme \<Rightarrow> string \<Rightarrow> string list" where
  "children w p = filter (\<lambda>q. parent_of q = p) (map fst (nodes w))"

definition is_dir :: "'a os_scheme \<Rightarrow> string \<Rightarrow> bool" where
  "is_dir w p = (case node_at w p of Some (NDir _) \<Rightarrow> True | _ \<Rightarrow> False)"

text \<open>What is where, without the contents of the files.\<close>

fun node_kind :: "node \<Rightarrow> nat" where
  "node_kind (NDir m) = 0"
| "node_kind (NFile s) = 1"
| "node_kind NSock = 2"

definition places :: "'a os_scheme \<Rightarrow> string \<Rightarrow> nat option" where
  "places w p = map_option node_kind (node_at w p)"

lemma places_eq: "places w = (\<lambda>p. map_option node_kind (map_of (nodes w) p))"
  by (simp add: places_def node_at_def fun_eq_iff)

lemma places_same: "nodes w' = nodes w \<Longrightarrow> places w' = places w"
  by (simp add: places_eq)

lemma places_at:
  assumes "places w' = places w"
  shows "node_at w' p = None \<longleftrightarrow> node_at w p = None" and "is_dir w' p = is_dir w p"
    and "(\<exists>t. node_at w' p = Some (NFile t)) \<longleftrightarrow> (\<exists>t. node_at w p = Some (NFile t))"
proof -
  have "places w' p = places w p" using assms by simp
  then show "node_at w' p = None \<longleftrightarrow> node_at w p = None" "is_dir w' p = is_dir w p"
    "(\<exists>t. node_at w' p = Some (NFile t)) \<longleftrightarrow> (\<exists>t. node_at w p = Some (NFile t))"
    by (cases "node_at w p"; cases "node_at w' p"; auto simp: places_def is_dir_def elim!: node_kind.elims)+
qed

lemma places_dom: "places w' = places w \<Longrightarrow> dom (node_at w') = dom (node_at w) \<and> is_dir w' = is_dir w"
  using places_at(1,2) [of w' w] by (simp add: dom_def fun_eq_iff)

definition missing_errno :: "'a os_scheme \<Rightarrow> string \<Rightarrow> int" where
  "missing_errno w p =
     (case node_at w (parent_of p) of
        Some (NFile _) \<Rightarrow> ENOTDIR | Some NSock \<Rightarrow> ENOTDIR | _ \<Rightarrow> ENOENT)"

definition fail :: "int \<Rightarrow> 'a os_scheme \<Rightarrow> int \<times> 'a os_scheme" where
  "fail e w = (- 1, w\<lparr>errno := e\<rparr>)"

definition os_stat :: "env \<Rightarrow> string \<Rightarrow> 'a os_scheme \<Rightarrow> int \<times> 'a os_scheme" where
  "os_stat E p w =
     (let (e, w) = ask E (Stat p) w in
      if e \<noteq> 0 then fail e w
      else if node_at w p = None then fail (missing_errno w p) w
      else (0, w))"

definition os_mkdir :: "env \<Rightarrow> string \<Rightarrow> 32 word \<Rightarrow> 'a os_scheme \<Rightarrow> int \<times> 'a os_scheme" where
  "os_mkdir E p mode w =
     (let (e, w) = ask E (Mkdir p) w in
      if e \<noteq> 0 then fail e w
      else if node_at w p \<noteq> None then fail EEXIST w
      else if \<not> is_dir w (parent_of p) then fail (missing_errno w p) w
      else (0, set_node p (NDir (mode AND NOT (proc_umask E))) w))"

definition os_rmdir :: "env \<Rightarrow> string \<Rightarrow> 'a os_scheme \<Rightarrow> int \<times> 'a os_scheme" where
  "os_rmdir E p w =
     (let (e, w) = ask E (Rmdir p) w in
      if e \<noteq> 0 then fail e w
      else if node_at w p = None then fail (missing_errno w p) w
      else if \<not> is_dir w p then fail ENOTDIR w
      else if children w p \<noteq> [] then fail ENOTEMPTY w
      else (0, del_node p w))"

definition os_unlink :: "string \<Rightarrow> 'a os_scheme \<Rightarrow> int \<times> 'a os_scheme" where
  "os_unlink p w =
     (if node_at w p = None then fail (missing_errno w p) w
      else if is_dir w p then fail EISDIR w
      else (0, del_node p w))"

declare fail_def [os_defs] os_stat_def [os_defs] os_mkdir_def [os_defs]
  os_rmdir_def [os_defs] os_unlink_def [os_defs] set_node_def [os_defs] del_node_def [os_defs]

section \<open>Descriptors, files and sockets\<close>

definition lowest_free :: "(int \<times> 'b) list \<Rightarrow> int" where
  "lowest_free t =
     (case filter (\<lambda>n. int n \<notin> set (map fst t)) [0..<Suc (length t)] of
        n # _ \<Rightarrow> int n | [] \<Rightarrow> 0)"

definition new_fd :: "fdesc \<Rightarrow> 'a os_scheme \<Rightarrow> int \<times> 'a os_scheme" where
  "new_fd d w = (lowest_free (fds w), w\<lparr>fds := (lowest_free (fds w), d) # fds w\<rparr>)"

definition os_close :: "int \<Rightarrow> 'a os_scheme \<Rightarrow> 'a os_scheme" where
  "os_close fd w = w\<lparr>fds := AList.delete fd (fds w)\<rparr>"

text \<open>\<open>open\<close> of a file for appending, creating it: what \<open>fopen(path, "a")\<close> requests.\<close>

definition os_open_append :: "env \<Rightarrow> string \<Rightarrow> 'a os_scheme \<Rightarrow> int \<times> 'a os_scheme" where
  "os_open_append E p w =
     (let (e, w) = ask E (Fopen p) w in
      if e \<noteq> 0 then fail e w
      else case node_at w p of
        Some (NFile _) \<Rightarrow> new_fd (FFile p) w
      | Some (NDir _) \<Rightarrow> fail EISDIR w
      | Some NSock \<Rightarrow> fail EBADF w
      | None \<Rightarrow>
          if \<not> is_dir w (parent_of p) then fail (missing_errno w p) w
          else new_fd (FFile p) (set_node p (NFile []) w))"

text \<open>
  \<open>write\<close>: a file opened for appending grows by the bytes, a connected socket sends them.
  The sources ignore the result of every \<open>write\<close>.
\<close>

definition os_write :: "int \<Rightarrow> string \<Rightarrow> 'a os_scheme \<Rightarrow> 'a os_scheme" where
  "os_write fd s w =
     (case map_of (fds w) fd of
        Some (FFile p) \<Rightarrow>
          (case node_at w p of Some (NFile old) \<Rightarrow> set_node p (NFile (old @ s)) w | _ \<Rightarrow> w)
      | Some FConn \<Rightarrow> w\<lparr>acts := acts w @ [ASend fd s]\<rparr>
      | _ \<Rightarrow> w)"

definition os_socket :: "env \<Rightarrow> 'a os_scheme \<Rightarrow> int \<times> 'a os_scheme" where
  "os_socket E w =
     (let (e, w) = ask E Socket w in if e \<noteq> 0 then fail e w else new_fd FSock w)"

definition os_bind :: "env \<Rightarrow> int \<Rightarrow> string \<Rightarrow> 'a os_scheme \<Rightarrow> int \<times> 'a os_scheme" where
  "os_bind E fd p w =
     (let (e, w) = ask E (Bind p) w in
      if e \<noteq> 0 then fail e w
      else if map_of (fds w) fd \<noteq> Some FSock then fail EBADF w
      else if node_at w p \<noteq> None then fail EADDRINUSE w
      else if \<not> is_dir w (parent_of p) then fail (missing_errno w p) w
      else (0, (set_node p NSock w)\<lparr>fds := AList.update fd (FBound p) (fds w)\<rparr>))"

definition os_listen :: "env \<Rightarrow> int \<Rightarrow> 'a os_scheme \<Rightarrow> int \<times> 'a os_scheme" where
  "os_listen E fd w =
     (let (e, w) = ask E Listen w in
      if e \<noteq> 0 then fail e w
      else case map_of (fds w) fd of
        Some (FBound p) \<Rightarrow> (0, w\<lparr>fds := AList.update fd (FListen p) (fds w)\<rparr>)
      | _ \<Rightarrow> fail EBADF w)"

definition os_connect :: "env \<Rightarrow> int \<Rightarrow> string \<Rightarrow> 'a os_scheme \<Rightarrow> int \<times> 'a os_scheme" where
  "os_connect E fd p w =
     (let (e, w) = ask E (Connect p) w in
      if e \<noteq> 0 then fail e w
      else if map_of (fds w) fd \<noteq> Some FSock then fail EBADF w
      else if FListen p \<notin> set (map snd (fds w)) then fail ECONNREFUSED w
      else (0, w\<lparr>fds := AList.update fd FConn (fds w)\<rparr>))"

text \<open>\<open>accept\<close> of the connection just made: the peer's descriptor.\<close>

definition os_accept :: "env \<Rightarrow> int \<Rightarrow> 'a os_scheme \<Rightarrow> int \<times> 'a os_scheme" where
  "os_accept E fd w =
     (let (e, w) = ask E Accept w in
      if e \<noteq> 0 then fail e w
      else case map_of (fds w) fd of
        Some (FListen p) \<Rightarrow> new_fd FPeer w
      | _ \<Rightarrow> fail EBADF w)"

declare new_fd_def [os_defs] os_close_def [os_defs] os_open_append_def [os_defs]
  os_write_def [os_defs] os_socket_def [os_defs] os_bind_def [os_defs] os_listen_def [os_defs]
  os_connect_def [os_defs] os_accept_def [os_defs]

section \<open>Facts about the requests\<close>

lemma parent_of_append [simp]:
  assumes "SLASH \<notin> set b" and "a \<noteq> []"
  shows "parent_of (a @ SLASH # b) = a"
proof -
  have "dropWhile (\<lambda>c. c \<noteq> SLASH) (rev b @ SLASH # rev a) = SLASH # rev a"
    using assms(1) by (subst dropWhile_append2) auto
  with assms(2) show ?thesis by (simp add: parent_of_def)
qed

lemma node_at_set_node [simp]:
  "node_at (set_node p n w) q = (if q = p then Some n else node_at w q)"
  by (simp add: node_at_def set_node_def update_conv')

lemma node_at_del_node [simp]:
  "node_at (del_node p w) q = (if q = p then None else node_at w q)"
  by (simp add: node_at_def del_node_def delete_conv')

lemma node_at_upd [simp]:
  "node_at (w\<lparr>tick := t\<rparr>) q = node_at w q" "node_at (w\<lparr>errno := e\<rparr>) q = node_at w q"
  "node_at (w\<lparr>brk := b\<rparr>) q = node_at w q" "node_at (w\<lparr>heap := h\<rparr>) q = node_at w q"
  "node_at (w\<lparr>fds := f\<rparr>) q = node_at w q" "node_at (w\<lparr>acts := a\<rparr>) q = node_at w q"
  by (simp_all add: node_at_def)

lemma is_dir_iff: "is_dir w p \<longleftrightarrow> (\<exists>m. node_at w p = Some (NDir m))"
  by (auto simp: is_dir_def split: option.splits node.splits)

lemma lowest_free_fresh: "lowest_free t \<notin> set (map fst t)"
  and lowest_free_nonneg: "0 \<le> lowest_free t"
proof -
  let ?c = "filter (\<lambda>n. int n \<notin> set (map fst t)) [0..<Suc (length t)]"
  have "?c \<noteq> []"
  proof
    assume "?c = []"
    then have "\<forall>n \<in> set [0..<Suc (length t)]. int n \<in> set (map fst t)"
      unfolding filter_empty_conv by blast
    then have "int ` {0..<Suc (length t)} \<subseteq> set (map fst t)"
      unfolding set_upt by blast
    then have "card (int ` {0..<Suc (length t)}) \<le> card (set (map fst t))"
      by (rule card_mono [rotated]) simp
    also have "\<dots> \<le> length t" using card_length [of "map fst t"] by simp
    finally show False by (simp add: card_image)
  qed
  then obtain n ns where c: "?c = n # ns" by (cases ?c) auto
  have "n \<in> set ?c" unfolding c by simp
  then have "int n \<notin> set (map fst t)" unfolding set_filter by blast
  moreover have "lowest_free t = int n" unfolding lowest_free_def c by simp
  ultimately show "lowest_free t \<notin> set (map fst t)" and "0 \<le> lowest_free t"
    by simp_all
qed

text \<open>
  \<open>quiet w w'\<close>: a run from \<open>w\<close> to \<open>w'\<close> that left the live blocks, the descriptors, the
  visible actions and every component above the operating system as they were.
\<close>

definition quiet :: "'a os_scheme \<Rightarrow> 'a os_scheme \<Rightarrow> bool" where
  "quiet w w' \<longleftrightarrow>
     w' = w\<lparr>tick := tick w', errno := errno w', brk := brk w', nodes := nodes w'\<rparr>"

lemma quiet_refl [simp]: "quiet w w"
  by (simp add: quiet_def)

lemma quiet_trans: "quiet u v \<Longrightarrow> quiet v w \<Longrightarrow> quiet u w"
  unfolding quiet_def by (cases u; cases v; cases w) simp

lemma quiet_frame:
  "quiet w w' \<Longrightarrow> heap w' = heap w" "quiet w w' \<Longrightarrow> fds w' = fds w"
  "quiet w w' \<Longrightarrow> acts w' = acts w" "quiet w w' \<Longrightarrow> os.more w' = os.more w"
  unfolding quiet_def by (cases w; cases w'; simp)+

lemma quiet_stat [intro]: "quiet w (snd (os_stat E p w))"
  by (simp add: quiet_def os_defs)

lemma quiet_mkdir [intro]: "quiet w (snd (os_mkdir E p m w))"
  by (simp add: quiet_def os_defs)

lemma quiet_rmdir [intro]: "quiet w (snd (os_rmdir E p w))"
  by (simp add: quiet_def os_defs)

lemma os_stat_nodes [simp]: "node_at (snd (os_stat E p w)) q = node_at w q"
  "nodes (snd (os_stat E p w)) = nodes w"
  by (simp_all add: os_stat_def ask_def fail_def)

lemma os_stat_present: "fst (os_stat E p w) = 0 \<Longrightarrow> node_at w p \<noteq> None"
  by (simp add: os_stat_def ask_def fail_def split: if_splits)

lemma os_stat_errno: "fst (os_stat E p w) \<noteq> 0 \<Longrightarrow> errno (snd (os_stat E p w)) \<noteq> 0"
  by (auto simp: os_stat_def ask_def fail_def missing_errno_def errno_defs
      split: if_splits option.splits node.splits)

lemma os_mkdir_keeps [simp]:
  "node_at w q = Some n \<Longrightarrow> node_at (snd (os_mkdir E p m w)) q = Some n"
  by (auto simp: os_mkdir_def ask_def fail_def)

lemma os_mkdir_other [simp]: "q \<noteq> p \<Longrightarrow> node_at (snd (os_mkdir E p m w)) q = node_at w q"
  by (simp add: os_mkdir_def ask_def fail_def)

lemma os_rmdir_other [simp]: "q \<noteq> p \<Longrightarrow> node_at (snd (os_rmdir E p w)) q = node_at w q"
  by (simp add: os_rmdir_def ask_def fail_def)

lemma os_rmdir_nonempty:
  "children w p \<noteq> [] \<Longrightarrow> node_at (snd (os_rmdir E p w)) p = node_at w p"
  by (simp add: os_rmdir_def ask_def fail_def children_def)

lemma os_rmdir_nondir:
  "\<not> is_dir w p \<Longrightarrow> node_at (snd (os_rmdir E p w)) p = node_at w p"
  by (simp add: os_rmdir_def ask_def fail_def is_dir_def)

lemma c_malloc_cases:
  obtains (fails) w' where "c_malloc E n w = (0, w')" and "quiet w w'" and "nodes w' = nodes w"
  | (block) w' where "c_malloc E n w = (Suc (brk w), w')" and "heap w' = Suc (brk w) # heap w"
      and "nodes w' = nodes w" and "quiet w (w'\<lparr>heap := heap w\<rparr>)"
proof (cases "fails E (Malloc n) (tick w) \<noteq> 0 \<or> PTRDIFF_MAX E < n")
  case True
  show thesis
    by (rule fails [of "snd (c_malloc E n w)"]) (use True in \<open>auto simp: os_defs quiet_def\<close>)
next
  case False
  show thesis
    by (rule block [of "snd (c_malloc E n w)"]) (use False in \<open>auto simp: os_defs quiet_def\<close>)
qed

lemma c_malloc_nodes [simp]:
  "nodes (snd (c_malloc E n w)) = nodes w" "node_at (snd (c_malloc E n w)) q = node_at w q"
  "children (snd (c_malloc E n w)) q = children w q" "is_dir (snd (c_malloc E n w)) q = is_dir w q"
  by (simp_all add: c_malloc_def ask_def children_def is_dir_def)

lemma c_malloc_fds [simp]:
  "fds (snd (c_malloc E n w)) = fds w" "acts (snd (c_malloc E n w)) = acts w"
  by (simp_all add: c_malloc_def ask_def)

text \<open>An environment that lets every request through.\<close>

definition healthy :: "env \<Rightarrow> bool" where
  "healthy E \<longleftrightarrow> fails E = (\<lambda>c t. 0)"

lemma children_empty_iff:
  "children w p = [] \<longleftrightarrow> (\<forall>q. parent_of q = p \<longrightarrow> node_at w q = None)"
  by (auto simp: children_def filter_empty_conv node_at_def map_of_eq_None_iff)

lemma healthy_stat: "healthy E \<Longrightarrow> fst (os_stat E p w) = 0 \<longleftrightarrow> node_at w p \<noteq> None"
  by (simp add: healthy_def os_stat_def ask_def fail_def)

lemma healthy_mkdir:
  "healthy E \<Longrightarrow> node_at w p = None \<Longrightarrow> is_dir w (parent_of p) \<Longrightarrow>
   node_at (snd (os_mkdir E p m w)) q =
     (if q = p then Some (NDir (m AND NOT (proc_umask E))) else node_at w q)"
  by (simp add: healthy_def os_mkdir_def ask_def fail_def is_dir_def)

lemma healthy_mkdir_no_parent:
  "healthy E \<Longrightarrow> node_at w p = None \<Longrightarrow> \<not> is_dir w (parent_of p) \<Longrightarrow>
   nodes (snd (os_mkdir E p m w)) = nodes w"
  by (simp add: healthy_def os_mkdir_def ask_def fail_def is_dir_def)

lemma healthy_stat_errno:
  "healthy E \<Longrightarrow> node_at w p = None \<Longrightarrow> errno (snd (os_stat E p w)) = missing_errno w p"
  by (simp add: healthy_def os_stat_def ask_def fail_def missing_errno_def)

lemma healthy_rmdir:
  "healthy E \<Longrightarrow> node_at w p = None \<or> is_dir w p \<Longrightarrow>
   node_at (snd (os_rmdir E p w)) q =
     (if q = p \<and> children w p = [] then None else node_at w q)"
  by (auto simp: healthy_def os_rmdir_def ask_def fail_def is_dir_def children_def)

lemma healthy_malloc:
  assumes "healthy E" and "n \<le> PTRDIFF_MAX E"
  shows "fst (c_malloc E n w) = Suc (brk w)"
  using assms by (simp add: healthy_def c_malloc_def ask_def)

section \<open>A sample environment and state\<close>

text \<open>
  A 64-bit system where every request succeeds, a child process 77 that is reaped at the
  first \<open>waitpid\<close>, and a file system with one directory \<open>/d\<close>: the inputs at which the
  properties of the development are instantiated.
\<close>

definition sample_env :: env where
  "sample_env = \<lparr>sizeof_ptr = 8, sizeof_of = (\<lambda>t. 64), fails = (\<lambda>c t. 0), proc_umask = 0,
     strerror = (\<lambda>e. ''error''), uninit = 0, uninit_ptr = 0,
     fork_ret = (\<lambda>t. 77), wait_ret = (\<lambda>p t. p), self_pid = 7,
     SU_SRV_TEST_BUILD = False\<rparr>"

definition sample_nodes :: "(string \<times> node) list" where
  "sample_nodes = [(''/d'', NDir 448)]"

definition sample_fds :: "(int \<times> fdesc) list" where
  "sample_fds = [(0, FPeer), (1, FPeer), (2, FPeer)]"

definition sample_os :: os where
  "sample_os = \<lparr>tick = 0, errno = 0, brk = 0, heap = [], nodes = sample_nodes,
     fds = sample_fds, acts = []\<rparr>"

lemmas sample_defs = sample_env_def sample_os_def sample_nodes_def sample_fds_def

lemma sample_healthy [simp]: "healthy sample_env"
  by (simp add: healthy_def sample_env_def)

lemma sample_sizes [simp]: "sizeof_ptr sample_env = 8" "PTRDIFF_MAX sample_env = 9223372036854775807"
  by (simp_all add: sample_env_def PTRDIFF_MAX_def)

lemma c_malloc_huge: "PTRDIFF_MAX E < n \<Longrightarrow> fst (c_malloc E n w) = 0"
  by (simp add: c_malloc_def ask_def)

lemma c_int_huge: "2 ^ 31 \<le> n \<Longrightarrow> n < 2 ^ 32 \<Longrightarrow> c_int n = n - 2 ^ 32"
proof -
  assume n: "2 ^ 31 \<le> n" "n < 2 ^ 32"
  have "(n + 2 ^ 31) mod 2 ^ 32 = (n + 2 ^ 31 - 2 ^ 32) mod 2 ^ 32"
    by (simp only: minus_mod_self2)
  also have "\<dots> = n + 2 ^ 31 - 2 ^ 32"
    using n by (intro mod_pos_pos_trivial) auto
  finally show ?thesis by (simp add: c_int_code)
qed

text \<open>A length that an \<open>int\<close> cannot hold becomes a \<open>size_t\<close> that no allocator grants.\<close>

lemma c_malloc_wrapped:
  assumes "2 ^ 31 \<le> n" and "n < 2 ^ 32" and "4 \<le> sizeof_ptr E"
  shows "fst (c_malloc E (c_size (sizeof_ptr E) (c_int n)) w) = 0"
proof (rule c_malloc_huge)
  let ?B = "8 * sizeof_ptr E"
  have pow: "(2::int) ^ ?B = 2 * 2 ^ (?B - 1)"
    using assms(3) by (simp add: power_Suc [symmetric] del: power_Suc)
  have ge: "(2::int) ^ 31 \<le> 2 ^ (?B - 1)"
    using assms(3) by (intro power_increasing) auto
  have "(n - 2 ^ 32) mod 2 ^ ?B = n - 2 ^ 32 + 2 ^ ?B"
    using assms(1,2) pow ge mod_pos_pos_trivial [of "n - 2 ^ 32 + 2 ^ ?B" "2 ^ ?B"] by simp
  then show "PTRDIFF_MAX E < c_size (sizeof_ptr E) (c_int n)"
    using assms pow ge by (simp add: c_size_def c_int_huge PTRDIFF_MAX_def)
qed

section \<open>Accounting for blocks\<close>

text \<open>The live blocks as a multiset, and the share of one pointer in it.\<close>

definition live :: "'a os_scheme \<Rightarrow> nat multiset" where
  "live w = mset (heap w)"

definition blk :: "nat \<Rightarrow> nat multiset" where
  "blk a = (if a = 0 then {#} else {#a#})"

lemma blk_simps [simp]: "blk 0 = {#}" "a \<noteq> 0 \<Longrightarrow> blk a = {#a#}" "blk (Suc a) = {#Suc a#}"
  by (simp_all add: blk_def)

lemma live_malloc [simp]: "live (snd (c_malloc E n w)) = live w + blk (fst (c_malloc E n w))"
  by (simp add: live_def c_malloc_def ask_def)

lemma live_malloc_eq: "c_malloc E n w = (a, w') \<Longrightarrow> live w' = live w + blk a"
  using live_malloc [of E n w] by simp

lemma live_free [simp]: "live (c_free a w) = live w - {#a#}"
  by (simp add: live_def c_free_def)

lemma live_quiet: "quiet w w' \<Longrightarrow> live w' = live w"
  by (simp add: live_def quiet_frame)

lemma live_ask [simp]: "live (snd (ask E c w)) = live w"
  by (simp add: live_def ask_def)

lemma live_upd [simp]:
  "live (w\<lparr>tick := t\<rparr>) = live w" "live (w\<lparr>errno := e\<rparr>) = live w" "live (w\<lparr>brk := b\<rparr>) = live w"
  "live (w\<lparr>nodes := n\<rparr>) = live w" "live (w\<lparr>fds := f\<rparr>) = live w" "live (w\<lparr>acts := a\<rparr>) = live w"
  by (simp_all add: live_def)

text \<open>Requests that touch neither the heap nor anything above it.\<close>

lemma live_os [simp]:
  "live (snd (os_socket E w)) = live w" "live (snd (os_bind E fd p w)) = live w"
  "live (snd (os_listen E fd w)) = live w" "live (snd (os_connect E fd p w)) = live w"
  "live (snd (os_accept E fd w)) = live w" "live (os_close fd w) = live w"
  "live (snd (os_unlink p w)) = live w" "live (os_write fd s w) = live w"
  by (auto simp: live_def os_defs Let_def split: option.splits fdesc.splits node.splits)

lemma ask_frame [simp]:
  "nodes (snd (ask E c w)) = nodes w" "fds (snd (ask E c w)) = fds w" "acts (snd (ask E c w)) = acts w"
  "fst (ask E c w) = fails E c (tick w)"
  by (simp_all add: ask_def)

lemma c_free_frame [simp]:
  "nodes (c_free a w) = nodes w" "fds (c_free a w) = fds w" "acts (c_free a w) = acts w"
  by (simp_all add: c_free_def)

text \<open>\<open>quieth\<close>: as \<open>quiet\<close>, but the heap may have changed.\<close>

definition quieth :: "'a os_scheme \<Rightarrow> 'a os_scheme \<Rightarrow> bool" where
  "quieth w w' \<longleftrightarrow> quiet w (w'\<lparr>heap := heap w\<rparr>)"

lemma quieth_refl [simp]: "quieth w w"
  by (simp add: quieth_def quiet_def)

lemma quieth_trans [trans]: "quieth u v \<Longrightarrow> quieth v w \<Longrightarrow> quieth u w"
  unfolding quieth_def quiet_def by (cases u; cases v; cases w) simp

lemma quieth_quiet: "quiet w w' \<Longrightarrow> quieth w w'"
  unfolding quieth_def quiet_def by (cases w; cases w') simp

lemma quieth_frame:
  "quieth w w' \<Longrightarrow> fds w' = fds w" "quieth w w' \<Longrightarrow> acts w' = acts w"
  "quieth w w' \<Longrightarrow> os.more w' = os.more w"
  unfolding quieth_def quiet_def by (cases w; cases w'; simp)+

lemma quieth_malloc [intro]: "quieth w (snd (c_malloc E n w))"
  by (simp add: quieth_def quiet_def c_malloc_def ask_def)

lemma quieth_free [intro]: "quieth w (c_free a w)"
  by (simp add: quieth_def quiet_def c_free_def)

lemma quieth_ask [intro]: "quieth w (snd (ask E c w))"
  by (simp add: quieth_def quiet_def ask_def)

lemma os_unlink_frame [simp]:
  "fds (snd (os_unlink p w)) = fds w" "acts (snd (os_unlink p w)) = acts w"
  "os.more (snd (os_unlink p w)) = os.more w"
  by (simp_all add: os_unlink_def fail_def del_node_def)

lemma os_unlink_node [simp]:
  "node_at (snd (os_unlink p w)) q = (if q = p \<and> \<not> is_dir w p then None else node_at w q)"
  by (simp add: os_unlink_def fail_def)

lemma os_close_frame [simp]:
  "fds (os_close fd w) = AList.delete fd (fds w)" "acts (os_close fd w) = acts w"
  "os.more (os_close fd w) = os.more w" "nodes (os_close fd w) = nodes w"
  "node_at (os_close fd w) q = node_at w q" "is_dir (os_close fd w) q = is_dir w q"
  by (simp_all add: os_close_def is_dir_def)

lemma c_free_more [simp]: "os.more (c_free a w) = os.more w" "is_dir (c_free a w) q = is_dir w q"
  by (simp_all add: c_free_def is_dir_def)

end
