(* ===== verification/Pfs.thy ===== *)
theory Pfs
  imports Os
begin

text \<open>
  The private file system of a session (\<open>jni/su_srv_pfs.c\<close>): the six directories below its
  root, created in order by \<open>pfs_init_dir\<close> and chained with \<open>||\<close> by \<open>su_srv_pfs_init\<close>.
\<close>

section \<open>The code\<close>

definition SESSION_VAR_DIR_FMT :: string where "SESSION_VAR_DIR_FMT = ''%s/var''"
definition SESSION_VAR_DIR_WLEN :: int where "SESSION_VAR_DIR_WLEN = 4"
definition SESSION_LOG_DIR_FMT :: string where "SESSION_LOG_DIR_FMT = ''%s/var/log''"
definition SESSION_LOG_DIR_WLEN :: int where "SESSION_LOG_DIR_WLEN = 8"
definition SESSION_RUN_DIR_FMT :: string where "SESSION_RUN_DIR_FMT = ''%s/var/run''"
definition SESSION_RUN_DIR_WLEN :: int where "SESSION_RUN_DIR_WLEN = 8"
definition SESSION_BIN_DIR_FMT :: string where "SESSION_BIN_DIR_FMT = ''%s/bin''"
definition SESSION_BIN_DIR_WLEN :: int where "SESSION_BIN_DIR_WLEN = 4"
definition SESSION_LIB_DIR_FMT :: string where "SESSION_LIB_DIR_FMT = ''%s/lib''"
definition SESSION_LIB_DIR_WLEN :: int where "SESSION_LIB_DIR_WLEN = 4"
definition SESSION_TMP_DIR_FMT :: string where "SESSION_TMP_DIR_FMT = ''%s/tmp''"
definition SESSION_TMP_DIR_WLEN :: int where "SESSION_TMP_DIR_WLEN = 4"

named_theorems pfs_consts "format strings and widths of the private file system"

lemmas pfs_constants [pfs_consts] =
  SESSION_VAR_DIR_FMT_def SESSION_VAR_DIR_WLEN_def SESSION_LOG_DIR_FMT_def
  SESSION_LOG_DIR_WLEN_def SESSION_RUN_DIR_FMT_def SESSION_RUN_DIR_WLEN_def
  SESSION_BIN_DIR_FMT_def SESSION_BIN_DIR_WLEN_def SESSION_LIB_DIR_FMT_def
  SESSION_LIB_DIR_WLEN_def SESSION_TMP_DIR_FMT_def SESSION_TMP_DIR_WLEN_def

text \<open>The octal mode 0700.\<close>

definition MODE_0700 :: "32 word" where "MODE_0700 = 448"

definition pfs_init_dir ::
  "env \<Rightarrow> string \<Rightarrow> string \<Rightarrow> int \<Rightarrow> bool \<Rightarrow> 'a os_scheme \<Rightarrow> int \<times> 'a os_scheme" where
  "pfs_init_dir E pfs_root dir_fmt dir_wlen clr w =
     (let dir_sz = int (c_strlen pfs_root) + dir_wlen + 1;
          (dirpath, w) = c_malloc E dir_sz w
      in if dirpath = 0 then (- 1, w)
         else
           let path = c_buf (c_snprintf dir_sz dir_fmt [FStr pfs_root]);
               w = (if clr then snd (os_rmdir E path w) else w);
               (missing, w) = os_stat E path w;
               w = (if missing \<noteq> 0 then snd (os_mkdir E path MODE_0700 w) else w);
               (missing, w) = os_stat E path w;
               last_err = (if missing \<noteq> 0 then errno w else 0)
           in (last_err, c_free dirpath w))"

definition su_srv_pfs_init :: "env \<Rightarrow> string \<Rightarrow> 'a os_scheme \<Rightarrow> int \<times> 'a os_scheme" where
  "su_srv_pfs_init E pfs_root =
     c_or
       [pfs_init_dir E pfs_root SESSION_VAR_DIR_FMT SESSION_VAR_DIR_WLEN False,
        pfs_init_dir E pfs_root SESSION_RUN_DIR_FMT SESSION_RUN_DIR_WLEN False,
        pfs_init_dir E pfs_root SESSION_LOG_DIR_FMT SESSION_LOG_DIR_WLEN False,
        pfs_init_dir E pfs_root SESSION_BIN_DIR_FMT SESSION_BIN_DIR_WLEN False,
        pfs_init_dir E pfs_root SESSION_LIB_DIR_FMT SESSION_LIB_DIR_WLEN False,
        pfs_init_dir E pfs_root SESSION_TMP_DIR_FMT SESSION_TMP_DIR_WLEN True]"

section \<open>One directory\<close>

definition dir_path :: "string \<Rightarrow> string \<Rightarrow> int \<Rightarrow> string" where
  "dir_path pfs_root dir_fmt dir_wlen =
     c_buf (c_snprintf (int (c_strlen pfs_root) + dir_wlen + 1) dir_fmt [FStr pfs_root])"

lemma dir_path_exact:
  assumes "dir_fmt = CHR ''%'' # CHR ''s'' # d" and "CHR ''%'' \<notin> set d" and "int (length d) = dir_wlen"
  shows "dir_path pfs_root dir_fmt dir_wlen = cstr pfs_root @ d"
proof -
  have "c_format d [] = d"
    using assms(2) by (induction d) auto
  with assms(1) have "c_format dir_fmt [FStr pfs_root] = cstr pfs_root @ d" by simp
  with assms(3) show ?thesis
    by (simp add: dir_path_def c_snprintf_fits length_cstr)
qed

lemma dir_paths [simp]:
  "dir_path r SESSION_VAR_DIR_FMT SESSION_VAR_DIR_WLEN = cstr r @ ''/var''"
  "dir_path r SESSION_RUN_DIR_FMT SESSION_RUN_DIR_WLEN = cstr r @ ''/var/run''"
  "dir_path r SESSION_LOG_DIR_FMT SESSION_LOG_DIR_WLEN = cstr r @ ''/var/log''"
  "dir_path r SESSION_BIN_DIR_FMT SESSION_BIN_DIR_WLEN = cstr r @ ''/bin''"
  "dir_path r SESSION_LIB_DIR_FMT SESSION_LIB_DIR_WLEN = cstr r @ ''/lib''"
  "dir_path r SESSION_TMP_DIR_FMT SESSION_TMP_DIR_WLEN = cstr r @ ''/tmp''"
  by (rule dir_path_exact; simp add: pfs_consts)+

text \<open>
  The body of \<open>pfs_init_dir\<close> between \<open>malloc\<close> and \<open>free\<close>, stage by stage: the state after
  the optional \<open>rmdir\<close>, after the first \<open>stat\<close> and the \<open>mkdir\<close> it may cause, and at the end.
\<close>

definition dir_cleared :: "env \<Rightarrow> string \<Rightarrow> bool \<Rightarrow> 'a os_scheme \<Rightarrow> 'a os_scheme" where
  "dir_cleared E path clr w = (if clr then snd (os_rmdir E path w) else w)"

definition dir_made :: "env \<Rightarrow> string \<Rightarrow> bool \<Rightarrow> 'a os_scheme \<Rightarrow> 'a os_scheme" where
  "dir_made E path clr w =
     (let w1 = dir_cleared E path clr w; w2 = snd (os_stat E path w1)
      in if fst (os_stat E path w1) \<noteq> 0 then snd (os_mkdir E path MODE_0700 w2) else w2)"

lemma pfs_init_dir_stages:
  fixes w :: "'a os_scheme" and wlen :: int and r fmt :: string and E :: env and clr :: bool
  defines "n \<equiv> int (c_strlen r) + wlen + 1" and "path \<equiv> dir_path r fmt wlen"
  defines "w1 \<equiv> snd (c_malloc E n w)"
  defines "w2 \<equiv> snd (os_stat E path (dir_made E path clr w1))"
  shows "pfs_init_dir E r fmt wlen clr w =
    (if fst (c_malloc E n w) = 0 then (- 1, w1)
     else (if fst (os_stat E path (dir_made E path clr w1)) \<noteq> 0 then errno w2 else 0,
           c_free (fst (c_malloc E n w)) w2))"
  unfolding assms pfs_init_dir_def dir_made_def dir_cleared_def dir_path_def Let_def split_beta
  by simp

lemma quiet_dir_made: "quiet w (dir_made E path clr w)"
proof -
  have cleared: "quiet w (dir_cleared E path clr w)"
    by (auto simp: dir_cleared_def)
  show ?thesis
    unfolding dir_made_def Let_def
    by (auto intro: quiet_trans [OF cleared] quiet_trans [OF quiet_stat])
qed

lemma dir_made_other [simp]: "q \<noteq> path \<Longrightarrow> node_at (dir_made E path clr w) q = node_at w q"
  by (simp add: dir_made_def dir_cleared_def Let_def)

lemma dir_made_keeps:
  assumes "node_at w path = Some n" and "\<not> clr \<or> children w path \<noteq> [] \<or> \<not> is_dir w path"
  shows "node_at (dir_made E path clr w) path = Some n"
proof -
  have "node_at (dir_cleared E path clr w) path = Some n"
    using assms by (auto simp: dir_cleared_def os_rmdir_nonempty os_rmdir_nondir)
  then show ?thesis by (simp add: dir_made_def Let_def)
qed

lemma node_at_free [simp]: "node_at (c_free a w) q = node_at w q"
  by (simp add: c_free_def)

lemma pfs_init_dir_ok:
  assumes "pfs_init_dir E r fmt wlen clr w = (0, w')"
  shows "node_at w' (dir_path r fmt wlen) \<noteq> None"
  using assms os_stat_errno os_stat_present unfolding pfs_init_dir_stages
  by (auto split: if_splits)

lemma pfs_init_dir_other:
  assumes "q \<noteq> dir_path r fmt wlen"
  shows "node_at (snd (pfs_init_dir E r fmt wlen clr w)) q = node_at w q"
  using assms by (simp add: pfs_init_dir_stages)

lemma pfs_init_dir_keeps:
  assumes "node_at w q = Some n"
    and "q \<noteq> dir_path r fmt wlen \<or> \<not> clr \<or> children w q \<noteq> [] \<or> \<not> is_dir w q"
  shows "node_at (snd (pfs_init_dir E r fmt wlen clr w)) q = Some n"
proof (cases "q = dir_path r fmt wlen")
  case False
  with assms show ?thesis by (simp add: pfs_init_dir_other)
next
  case True
  define w1 where "w1 = snd (c_malloc E (int (c_strlen r) + wlen + 1) w)"
  have "node_at w1 q = Some n" "children w1 q = children w q" "is_dir w1 q = is_dir w q"
    using assms(1) by (simp_all add: w1_def)
  with assms(2) True have "node_at (dir_made E q clr w1) q = Some n"
    by (intro dir_made_keeps) auto
  with True \<open>node_at w1 q = Some n\<close> show ?thesis
    by (simp add: pfs_init_dir_stages flip: w1_def)
qed

lemma quiet_heap: "quiet w (w'\<lparr>heap := heap w\<rparr>) \<Longrightarrow> heap w' = a # heap w \<Longrightarrow> quiet w' v \<Longrightarrow>
  quiet w (c_free a v)"
  unfolding quiet_def c_free_def by (cases w; cases w'; cases v) simp

lemma quiet_pfs_init_dir: "quiet w (snd (pfs_init_dir E r fmt wlen clr w))"
proof (cases rule: c_malloc_cases [of E "int (c_strlen r) + wlen + 1" w])
  case (fails w')
  then show ?thesis by (simp add: pfs_init_dir_stages)
next
  case (block w')
  have "quiet w' (snd (os_stat E p (dir_made E p clr w')))" for p
    by (rule quiet_trans [OF quiet_dir_made quiet_stat])
  from quiet_heap [OF block(4,2) this] block show ?thesis
    by (simp add: pfs_init_dir_stages)
qed

section \<open>The six directories\<close>

definition pfs_ini ::
  "env \<Rightarrow> string \<Rightarrow> string \<times> int \<times> bool \<Rightarrow> 'a os_scheme \<Rightarrow> int \<times> 'a os_scheme" where
  "pfs_ini E r d w = (case d of (fmt, wlen, clr) \<Rightarrow> pfs_init_dir E r fmt wlen clr w)"

definition pfs_dirs :: "(string \<times> int \<times> bool) list" where
  "pfs_dirs =
     [(SESSION_VAR_DIR_FMT, SESSION_VAR_DIR_WLEN, False),
      (SESSION_RUN_DIR_FMT, SESSION_RUN_DIR_WLEN, False),
      (SESSION_LOG_DIR_FMT, SESSION_LOG_DIR_WLEN, False),
      (SESSION_BIN_DIR_FMT, SESSION_BIN_DIR_WLEN, False),
      (SESSION_LIB_DIR_FMT, SESSION_LIB_DIR_WLEN, False),
      (SESSION_TMP_DIR_FMT, SESSION_TMP_DIR_WLEN, True)]"

definition pfs_paths :: "string \<Rightarrow> string list" where
  "pfs_paths r = map (\<lambda>d. cstr r @ d)
     [''/var'', ''/var/run'', ''/var/log'', ''/bin'', ''/lib'', ''/tmp'']"

lemma su_srv_pfs_init_chain: "su_srv_pfs_init E r = c_or (map (pfs_ini E r) pfs_dirs)"
  by (simp add: su_srv_pfs_init_def pfs_dirs_def pfs_ini_def [abs_def])

lemma pfs_paths_dirs: "pfs_paths r = map (\<lambda>(fmt, wlen, clr). dir_path r fmt wlen) pfs_dirs"
  by (simp add: pfs_paths_def pfs_dirs_def)

text \<open>
  The contract between \<open>su_srv_pfs_init\<close> and \<open>pfs_init_dir\<close>: success means the path
  exists, and a later call does not lose it.
\<close>

interpretation pfs: init_chain "pfs_ini E r"
    "\<lambda>(fmt, wlen, clr) w. node_at w (dir_path r fmt wlen) \<noteq> None" for E r
proof unfold_locales
  fix d and s s' :: "'a os_scheme"
  assume "pfs_ini E r d s = (0, s')"
  then show "(case d of (fmt, wlen, clr) \<Rightarrow> \<lambda>w. node_at w (dir_path r fmt wlen) \<noteq> None) s'"
    by (auto simp: pfs_ini_def dest: pfs_init_dir_ok split: prod.splits)
next
  fix d d' and s s' :: "'a os_scheme"
  assume pre: "(case d of (fmt, wlen, clr) \<Rightarrow> \<lambda>w. node_at w (dir_path r fmt wlen) \<noteq> None) s"
    and run: "pfs_ini E r d' s = (0, s')"
  obtain fmt wlen clr fmt' wlen' clr' where d: "d = (fmt, wlen, clr)" "d' = (fmt', wlen', clr')"
    by (cases d, cases d')
  from run d have run': "pfs_init_dir E r fmt' wlen' clr' s = (0, s')" by (simp add: pfs_ini_def)
  show "(case d of (fmt, wlen, clr) \<Rightarrow> \<lambda>w. node_at w (dir_path r fmt wlen) \<noteq> None) s'"
  proof (cases "dir_path r fmt wlen = dir_path r fmt' wlen'")
    case True
    with pfs_init_dir_ok [OF run'] d show ?thesis by simp
  next
    case False
    from pfs_init_dir_other [OF False, of E clr' s] run' pre d show ?thesis by simp
  qed
qed

lemma pfs_init_dir_healthy:
  fixes w :: "'a os_scheme" and E :: env
  defines "m \<equiv> MODE_0700 AND NOT (proc_umask E)"
  assumes E: "healthy E" and size: "int (c_strlen r) + wlen + 1 \<le> PTRDIFF_MAX E"
    and path: "dir_path r fmt wlen = path" and parent: "is_dir w (parent_of path)"
    and ok: "node_at w path = None \<or> is_dir w path" and ne: "parent_of path \<noteq> path"
  shows "\<exists>w'. pfs_init_dir E r fmt wlen clr w = (0, w') \<and>
    (\<forall>q. node_at w' q =
      (if q = path \<and> (node_at w q = None \<or> clr \<and> children w path = []) then Some (NDir m)
       else node_at w q))"
proof -
  define w1 where "w1 = snd (c_malloc E (int (c_strlen r) + wlen + 1) w)"
  define w2 where "w2 = dir_cleared E path clr w1"
  have w1: "node_at w1 q = node_at w q" "is_dir w1 q = is_dir w q" "children w1 q = children w q"
    for q by (simp_all add: w1_def)
  have w2: "node_at w2 q = (if q = path \<and> clr \<and> children w path = [] then None else node_at w q)"
    for q using healthy_rmdir [OF E, of w1 path] ok by (auto simp: w2_def dir_cleared_def w1)
  have "is_dir w2 (parent_of path)"
    using parent ne by (simp add: is_dir_def w2)
  then have made: "node_at (dir_made E path clr w1) q =
      (if q = path \<and> (node_at w q = None \<or> clr \<and> children w path = []) then Some (NDir m)
       else node_at w q)" for q
    using healthy_stat [OF E, of path w2] healthy_mkdir [OF E, of "snd (os_stat E path w2)" path]
    by (auto simp: dir_made_def Let_def m_def w2 is_dir_def simp flip: w2_def)
  then have "node_at (dir_made E path clr w1) path \<noteq> None" by auto
  with E have "fst (os_stat E path (dir_made E path clr w1)) = 0"
    by (simp add: healthy_stat)
  with made healthy_malloc [OF E size, of w] path show ?thesis
    by (simp add: pfs_init_dir_stages flip: w1_def)
qed

lemma pfs_ini_in_chain:
  assumes "f \<in> set (map (pfs_ini E r) pfs_dirs)"
  obtains fmt wlen clr where "f = pfs_init_dir E r fmt wlen clr"
    and "(fmt, wlen, clr) \<in> set pfs_dirs"
  using assms by (auto simp: pfs_ini_def [abs_def])

lemma quiet_pfs_init: "quiet (w :: 'a os_scheme) (snd (su_srv_pfs_init E r w))"
  unfolding su_srv_pfs_init_chain
proof (rule c_or_preserves)
  fix f :: "'a os_scheme \<Rightarrow> int \<times> 'a os_scheme" and v :: "'a os_scheme"
  assume "f \<in> set (map (pfs_ini E r) pfs_dirs)" and "quiet w v"
  then show "quiet w (snd (f v))"
    by (elim pfs_ini_in_chain) (simp add: quiet_trans [OF _ quiet_pfs_init_dir])
qed simp

lemma pfs_dirs_path:
  assumes "(fmt, wlen, clr) \<in> set pfs_dirs"
  shows "dir_path r fmt wlen \<in> set (pfs_paths r)"
    and "clr \<Longrightarrow> dir_path r fmt wlen = cstr r @ ''/tmp''"
  using assms by (auto simp: pfs_paths_dirs pfs_dirs_def pfs_paths_def)

lemma pfs_path_not_in_tmp:
  assumes "p \<in> set (pfs_paths r)" and "cstr r \<noteq> []"
  shows "parent_of p \<noteq> cstr r @ ''/tmp''"
proof -
  have "parent_of (cstr r @ ''/var'') = cstr r" "parent_of (cstr r @ ''/bin'') = cstr r"
    "parent_of (cstr r @ ''/lib'') = cstr r" "parent_of (cstr r @ ''/tmp'') = cstr r"
    using assms(2) by simp_all
  moreover have "parent_of (cstr r @ ''/var/run'') = cstr r @ ''/var''"
    "parent_of (cstr r @ ''/var/log'') = cstr r @ ''/var''"
    using parent_of_append [of "''run''" "cstr r @ ''/var''"]
      parent_of_append [of "''log''" "cstr r @ ''/var''"] by simp_all
  ultimately show ?thesis using assms(1) by (auto simp: pfs_paths_def)
qed

lemma pfs_keeps:
  fixes w :: "'a os_scheme"
  assumes "node_at w q = Some n" and "cstr r \<noteq> []"
    and "q = cstr r @ ''/tmp'' \<longrightarrow> children w q \<noteq> [] \<or> \<not> is_dir w q"
  shows "node_at (snd (su_srv_pfs_init E r w)) q = Some n"
proof -
  define P where "P = (\<lambda>w :: 'a os_scheme. node_at w q = Some n \<and>
    (q = cstr r @ ''/tmp'' \<longrightarrow> children w q \<noteq> [] \<or> \<not> is_dir w q))"
  have "P (snd (su_srv_pfs_init E r w))"
    unfolding su_srv_pfs_init_chain
  proof (rule c_or_preserves)
    show "P w" using assms by (simp add: P_def)
  next
    fix f :: "'a os_scheme \<Rightarrow> int \<times> 'a os_scheme" and v :: "'a os_scheme"
    assume "f \<in> set (map (pfs_ini E r) pfs_dirs)" and v: "P v"
    then obtain fmt wlen clr where f: "f = pfs_init_dir E r fmt wlen clr"
      and d: "(fmt, wlen, clr) \<in> set pfs_dirs" by (elim pfs_ini_in_chain)
    note path = pfs_dirs_path [OF d, of r]
    have n: "node_at (snd (f v)) q = Some n"
      unfolding f by (rule pfs_init_dir_keeps) (use v path(2) in \<open>auto simp: P_def\<close>)
    moreover have "children (snd (f v)) q \<noteq> []" if "q = cstr r @ ''/tmp''" "children v q \<noteq> []"
    proof -
      from that(2) obtain c where c: "parent_of c = q" "node_at v c \<noteq> None"
        by (auto simp: children_empty_iff)
      with that(1) pfs_path_not_in_tmp [OF path(1) assms(2)] have "c \<noteq> dir_path r fmt wlen" by auto
      with c show ?thesis by (auto simp: children_empty_iff f pfs_init_dir_other)
    qed
    moreover have "is_dir (snd (f v)) q = is_dir v q"
      using n v by (simp add: P_def is_dir_def)
    ultimately show "P (snd (f v))" using v by (auto simp: P_def)
  qed
  then show ?thesis by (simp add: P_def)
qed


section \<open>Properties\<close>


text \<open>C32: \<open>su_srv_pfs_init\<close> destroys nothing: a file, socket or directory that is there
  before the call is there after it, with one exception, an empty \<open>tmp\<close> directory of the
  root (which is removed and created again). In particular a \<open>tmp\<close> with entries keeps all
  of them.\<close>

theorem pfs_init_keeps:
  fixes w :: "'a os_scheme"
  assumes "node_at w q = Some n" and "cstr r \<noteq> []"
    and "q = cstr r @ ''/tmp'' \<longrightarrow> children w q \<noteq> [] \<or> \<not> is_dir w q"
  shows "node_at (snd (su_srv_pfs_init E r w)) q = Some n"
  by (rule pfs_keeps [OF assms])

text \<open>
  What \<open>pfs_init\<close> is to do where nothing goes wrong: at each of the six paths a directory,
  with mode 0700 less the umask where there was none (or an empty \<open>tmp\<close>); elsewhere no
  change.
\<close>

definition pfs_spec :: "env \<Rightarrow> string \<Rightarrow> 'a os_scheme \<Rightarrow> string \<Rightarrow> node option" where
  "pfs_spec E r w q =
     (if q \<in> set (pfs_paths r)
         \<and> (node_at w q = None \<or> q = cstr r @ ''/tmp'' \<and> children w q = [])
      then Some (NDir (MODE_0700 AND NOT (proc_umask E))) else node_at w q)"

lemma parent_of_paths:
  assumes "a \<noteq> []"
  shows "parent_of (a @ ''/var'') = a" "parent_of (a @ ''/bin'') = a" "parent_of (a @ ''/lib'') = a"
    "parent_of (a @ ''/tmp'') = a" "parent_of (a @ ''/var/run'') = a @ ''/var''"
    "parent_of (a @ ''/var/log'') = a @ ''/var''"
  using assms parent_of_append [of "''run''" "a @ ''/var''"]
    parent_of_append [of "''log''" "a @ ''/var''"] by simp_all

text \<open>
  One link of the chain as a function on the nodes, and the conditions under which a
  healthy environment runs it to success.
\<close>

definition put_dir ::
  "32 word \<Rightarrow> string \<Rightarrow> bool \<Rightarrow> (string \<Rightarrow> node option) \<Rightarrow> string \<Rightarrow> node option" where
  "put_dir m p clr f q =
     (if q = p \<and> (f q = None \<or> clr \<and> (\<forall>x. parent_of x = p \<longrightarrow> f x = None)) then Some (NDir m)
      else f q)"

definition dir_ready :: "string \<Rightarrow> (string \<Rightarrow> node option) \<Rightarrow> bool" where
  "dir_ready p f \<longleftrightarrow> (\<exists>m. f (parent_of p) = Some (NDir m)) \<and>
     (f p = None \<or> (\<exists>m. f p = Some (NDir m)))"

fun chain_ready :: "32 word \<Rightarrow> (string \<times> bool) list \<Rightarrow> (string \<Rightarrow> node option) \<Rightarrow> bool" where
  "chain_ready m [] f \<longleftrightarrow> True"
| "chain_ready m ((p, clr) # ds) f \<longleftrightarrow>
     dir_ready p f \<and> parent_of p \<noteq> p \<and> chain_ready m ds (put_dir m p clr f)"

fun put_dirs ::
  "32 word \<Rightarrow> (string \<times> bool) list \<Rightarrow> (string \<Rightarrow> node option) \<Rightarrow> string \<Rightarrow> node option" where
  "put_dirs m [] f = f"
| "put_dirs m ((p, clr) # ds) f = put_dirs m ds (put_dir m p clr f)"

lemma chain_healthy:
  fixes w :: "'a os_scheme"
  assumes E: "healthy E" and m: "m = MODE_0700 AND NOT (proc_umask E)"
    and "\<forall>(fmt, wlen, clr) \<in> set ds. int (c_strlen r) + wlen < PTRDIFF_MAX E"
    and "chain_ready m (map (\<lambda>(fmt, wlen, clr). (dir_path r fmt wlen, clr)) ds) (node_at w)"
  shows "\<exists>w'. c_or (map (pfs_ini E r) ds) w = (0, w') \<and> node_at w' =
    put_dirs m (map (\<lambda>(fmt, wlen, clr). (dir_path r fmt wlen, clr)) ds) (node_at w)"
  using assms(3,4)
proof (induction ds arbitrary: w)
  case Nil
  then show ?case by simp
next
  case (Cons d ds)
  obtain fmt wlen clr where d: "d = (fmt, wlen, clr)" by (cases d)
  let ?p = "dir_path r fmt wlen"
  from Cons.prems d have "int (c_strlen r) + wlen + 1 \<le> PTRDIFF_MAX E" "is_dir w (parent_of ?p)"
    "node_at w ?p = None \<or> is_dir w ?p" "parent_of ?p \<noteq> ?p"
    by (auto simp: dir_ready_def is_dir_iff)
  from pfs_init_dir_healthy [OF E this(1) refl this(2,3,4), of clr]
  obtain v where v: "pfs_ini E r d w = (0, v)" and nodes: "node_at v = put_dir m ?p clr (node_at w)"
    by (auto simp: fun_eq_iff put_dir_def children_empty_iff m pfs_ini_def d)
  from Cons.prems d nodes
  have "\<exists>w'. c_or (map (pfs_ini E r) ds) v = (0, w') \<and> node_at w' =
      put_dirs m (map (\<lambda>(fmt, wlen, clr). (dir_path r fmt wlen, clr)) ds) (node_at v)"
    by (intro Cons.IH) auto
  with v nodes d show ?case by simp
qed

text \<open>A chain is ready when each directory comes after its parent.\<close>

fun parents_first :: "string list \<Rightarrow> (string \<times> bool) list \<Rightarrow> bool" where
  "parents_first D [] \<longleftrightarrow> True"
| "parents_first D ((p, clr) # ds) \<longleftrightarrow>
     parent_of p \<in> set D \<and> parent_of p \<noteq> p \<and> parents_first (p # D) ds"

definition dir_or_none :: "(string \<Rightarrow> node option) \<Rightarrow> string \<Rightarrow> bool" where
  "dir_or_none f p \<longleftrightarrow> f p = None \<or> (\<exists>k. f p = Some (NDir k))"

lemma chain_readyI:
  assumes "parents_first D ds" and "\<forall>d \<in> set D. \<exists>k. f d = Some (NDir k)"
    and "\<forall>d \<in> set ds. dir_or_none f (fst d)"
  shows "chain_ready m ds f"
  using assms
proof (induction D ds arbitrary: f rule: parents_first.induct)
  case (1 D)
  then show ?case by simp
next
  case (2 D p clr ds)
  have "chain_ready m ds (put_dir m p clr f)"
    by (rule "2.IH") (use "2.prems" in \<open>auto simp: put_dir_def dir_or_none_def\<close>)
  with 2 show ?case by (auto simp: dir_ready_def dir_or_none_def)
qed

lemma put_dirs_eq:
  assumes "distinct (map fst ds)"
    and "\<forall>(p, clr) \<in> set ds. clr \<longrightarrow> (\<forall>d \<in> set ds. parent_of (fst d) \<noteq> p)"
  shows "put_dirs m ds f q =
    (if \<exists>clr. (q, clr) \<in> set ds \<and> (f q = None \<or> clr \<and> (\<forall>x. parent_of x = q \<longrightarrow> f x = None))
     then Some (NDir m) else f q)"
  using assms
proof (induction ds arbitrary: f)
  case Nil
  then show ?case by simp
next
  case (Cons d ds)
  obtain p clr where d: "d = (p, clr)" by (cases d)
  let ?f = "put_dir m p clr f"
  have IH: "put_dirs m ds ?f q =
    (if \<exists>c. (q, c) \<in> set ds \<and> (?f q = None \<or> c \<and> (\<forall>x. parent_of x = q \<longrightarrow> ?f x = None))
     then Some (NDir m) else ?f q)"
    by (rule Cons.IH) (use Cons.prems d in auto)
  have fresh: "(p, c) \<notin> set ds" for c
    using Cons.prems(1) d by force
  show ?case
  proof (cases "q = p")
    case True
    with IH fresh have "put_dirs m ds ?f q = ?f p" by simp
    with True fresh show ?thesis by (auto simp: d put_dir_def)
  next
    case False
    then have f: "?f q = f q" by (simp add: put_dir_def)
    have "?f x = None \<longleftrightarrow> f x = None" if "(q, True) \<in> set ds" "parent_of x = q" for x
      using Cons.prems(2) that d by (force simp: put_dir_def)
    then have "(\<forall>x. parent_of x = q \<longrightarrow> ?f x = None) \<longleftrightarrow> (\<forall>x. parent_of x = q \<longrightarrow> f x = None)"
      if "(q, True) \<in> set ds" using that by simp
    then have eq: "(\<exists>c. (q, c) \<in> set ds \<and> (?f q = None \<or> c \<and> (\<forall>x. parent_of x = q \<longrightarrow> ?f x = None)))
      \<longleftrightarrow> (\<exists>c. (q, c) \<in> set ds \<and> (f q = None \<or> c \<and> (\<forall>x. parent_of x = q \<longrightarrow> f x = None)))"
      unfolding f by (metis (full_types))
    have mem: "(q, c) \<in> set (d # ds) \<longleftrightarrow> (q, c) \<in> set ds" for c
      using False by (simp add: d)
    have "put_dirs m (d # ds) f q = put_dirs m ds ?f q" by (simp add: d)
    with IH show ?thesis unfolding mem f eq [unfolded f] by simp
  qed
qed

text \<open>In an environment that lets every request through, below an existing root and
  with nothing but directories in the way, \<open>su_srv_pfs_init\<close> succeeds and its effect on the
  file system is exactly \<open>pfs_spec\<close>.\<close>

theorem pfs_init_healthy:
  fixes w :: "'a os_scheme"
  assumes E: "healthy E" and size: "int (c_strlen r) + 8 < PTRDIFF_MAX E"
    and root: "cstr r \<noteq> []" "is_dir w (cstr r)"
    and free: "\<forall>p \<in> set (pfs_paths r). node_at w p = None \<or> is_dir w p"
  shows "\<exists>w'. su_srv_pfs_init E r w = (0, w') \<and> node_at w' = pfs_spec E r w"
proof -
  define m where "m = MODE_0700 AND NOT (proc_umask E)"
  define ds where "ds = map (\<lambda>(fmt, wlen, clr). (dir_path r fmt wlen, clr)) pfs_dirs"
  note parents = parent_of_paths [OF root(1)]
  have ds: "ds = [(cstr r @ ''/var'', False), (cstr r @ ''/var/run'', False),
      (cstr r @ ''/var/log'', False), (cstr r @ ''/bin'', False), (cstr r @ ''/lib'', False),
      (cstr r @ ''/tmp'', True)]"
    by (simp add: ds_def pfs_dirs_def)
  then have paths: "map fst ds = pfs_paths r" by (simp add: pfs_paths_def)
  have "chain_ready m ds (node_at w)"
  proof (rule chain_readyI)
    show "parents_first [cstr r] ds" by (simp add: ds parents)
    show "\<forall>d \<in> set ds. dir_or_none (node_at w) (fst d)"
      using free unfolding paths [symmetric] by (auto simp: dir_or_none_def is_dir_iff)
  qed (use root(2) in \<open>simp add: is_dir_iff\<close>)
  then obtain w' where run: "c_or (map (pfs_ini E r) pfs_dirs) w = (0, w')"
    and nodes: "node_at w' = put_dirs m ds (node_at w)"
    using chain_healthy [OF E m_def, of pfs_dirs r w] size
    by (auto simp: ds_def pfs_dirs_def pfs_consts)
  have "node_at w' q = pfs_spec E r w q" for q
  proof -
    have mem: "(q, c) \<in> set ds \<longleftrightarrow> q \<in> set (pfs_paths r) \<and> c = (q = cstr r @ ''/tmp'')" for c
      unfolding ds pfs_paths_def by auto
    have "put_dirs m ds (node_at w) q =
      (if \<exists>c. (q, c) \<in> set ds \<and>
          (node_at w q = None \<or> c \<and> (\<forall>x. parent_of x = q \<longrightarrow> node_at w x = None))
       then Some (NDir m) else node_at w q)"
      by (rule put_dirs_eq) (simp_all add: ds parents)
    then show ?thesis
      unfolding nodes mem pfs_spec_def m_def children_empty_iff by simp
  qed
  with run show ?thesis by (auto simp: su_srv_pfs_init_chain)
qed

text \<open>When the root of the private file system does not exist, \<open>su_srv_pfs_init\<close> creates
  nothing and fails; the caller gets 1, not the \<open>errno\<close> value, which stays in \<open>errno\<close>.\<close>

theorem pfs_init_no_root:
  fixes w :: "'a os_scheme"
  assumes E: "healthy E" and size: "int (c_strlen r) + 8 < PTRDIFF_MAX E" and "cstr r \<noteq> []"
    and "node_at w (cstr r) = None" and "node_at w (cstr r @ ''/var'') = None"
  shows "\<exists>w'. su_srv_pfs_init E r w = (1, w') \<and> nodes w' = nodes w \<and> errno w' = ENOENT"
proof -
  let ?p = "cstr r @ ''/var''"
  define w1 where "w1 = snd (c_malloc E (int (c_strlen r) + SESSION_VAR_DIR_WLEN + 1) w)"
  define w2 where "w2 = dir_made E ?p False w1"
  have par: "parent_of ?p = cstr r" using assms(3) by simp
  have root: "\<not> is_dir w1 (cstr r)" "node_at w1 ?p = None"
    using assms(4,5) by (simp_all add: w1_def is_dir_def)
  then have nodes: "nodes w2 = nodes w"
    using healthy_mkdir_no_parent [OF E, of "snd (os_stat E ?p w1)" ?p MODE_0700] par
    by (simp add: w2_def dir_made_def dir_cleared_def Let_def w1_def is_dir_def)
  then have w2: "node_at w2 = node_at w" by (simp add: node_at_def fun_eq_iff)
  have "fst (os_stat E ?p w2) \<noteq> 0" "errno (snd (os_stat E ?p w2)) = ENOENT"
    using assms(4,5) par by (simp_all add: healthy_stat [OF E] healthy_stat_errno [OF E] w2
        missing_errno_def)
  moreover have "fst (c_malloc E (int (c_strlen r) + SESSION_VAR_DIR_WLEN + 1) w) = Suc (brk w)"
    using size by (intro healthy_malloc [OF E]) (simp add: pfs_consts)
  ultimately show ?thesis
    by (simp add: su_srv_pfs_init_def pfs_init_dir_stages c_free_def nodes ENOENT_def flip: w1_def w2_def)
qed

section \<open>Instances\<close>

lemma sample_pfs_run: "fst (su_srv_pfs_init sample_env ''/d'' sample_os) = 0"
  by code_simp


definition sample_full_tmp :: os where
  "sample_full_tmp = sample_os\<lparr>nodes :=
     [(''/d'', NDir 448), (''/d/tmp'', NDir 448), (''/d/tmp/x'', NFile ''old'')]\<rparr>"

theorem pfs_init_keeps_witness:
  "node_at sample_full_tmp ''/d/tmp/x'' = Some (NFile ''old'')
   \<and> node_at (snd (su_srv_pfs_init sample_env ''/d'' sample_full_tmp)) ''/d/tmp/x'' = Some (NFile ''old'')"
  using pfs_init_keeps [of sample_full_tmp "''/d/tmp/x''" "NFile ''old''" "''/d''" sample_env]
  by (simp add: sample_full_tmp_def node_at_def)

theorem pfs_init_healthy_witness:
  "(\<exists>w'. su_srv_pfs_init sample_env ''/d'' sample_os = (0, w')
      \<and> node_at w' = pfs_spec sample_env ''/d'' sample_os)
   \<and> pfs_spec sample_env ''/d'' sample_os ''/d/tmp'' = Some (NDir 448)"
proof
  show "\<exists>w'. su_srv_pfs_init sample_env ''/d'' sample_os = (0, w')
      \<and> node_at w' = pfs_spec sample_env ''/d'' sample_os"
    by (rule pfs_init_healthy)
      (simp_all add: is_dir_def node_at_def sample_os_def sample_nodes_def pfs_paths_def)
  show "pfs_spec sample_env ''/d'' sample_os ''/d/tmp'' = Some (NDir 448)"
    by (simp add: pfs_spec_def pfs_paths_def node_at_def sample_defs MODE_0700_def)
qed

theorem pfs_init_no_root_witness:
  "\<exists>w'. su_srv_pfs_init sample_env ''/e'' sample_os = (1, w') \<and> nodes w' = nodes sample_os
     \<and> errno w' = ENOENT"
  by (rule pfs_init_no_root [of sample_env "''/e''" sample_os, simplified])
    (simp_all add: node_at_def sample_os_def sample_nodes_def)

end
