(* ===== verification/Log.thy ===== *)
theory Log
  imports Pfs
begin

text \<open>
  The session log (\<open>jni/su_srv_log.c\<close>, \<open>jni/su_srv_log.h\<close>): a text file opened for
  appending, two global variables, and the calls that write a line and flush it. A stream
  (\<open>FILE *\<close>) is its descriptor and the bytes not yet written; the buffer is modelled as
  unbounded, which changes when bytes reach the file between two flushes but not what is in
  the file after one.
\<close>

section \<open>The code\<close>

record cfile =
  cf_fd :: int
  cf_buf :: string

text \<open>The globals of the unit; \<open>None\<close> is the null pointer, a path has the address of its block.\<close>

record log_os = os +
  su_srv_log_path :: "(nat \<times> string) option"
  su_srv_log_fptr :: "cfile option"

definition c_fopen_append :: "env \<Rightarrow> string \<Rightarrow> 'a os_scheme \<Rightarrow> cfile option \<times> 'a os_scheme" where
  "c_fopen_append E p w =
     (let (fd, w) = os_open_append E p w
      in (if fd < 0 then None else Some \<lparr>cf_fd = fd, cf_buf = []\<rparr>, w))"

definition c_fprintf :: "cfile \<Rightarrow> string \<Rightarrow> farg list \<Rightarrow> cfile" where
  "c_fprintf f fmt args = f\<lparr>cf_buf := cf_buf f @ c_format fmt args\<rparr>"

definition c_fflush :: "cfile \<Rightarrow> 'a os_scheme \<Rightarrow> cfile \<times> 'a os_scheme" where
  "c_fflush f w = (f\<lparr>cf_buf := []\<rparr>, os_write (cf_fd f) (cf_buf f) w)"

definition SU_SRV_LOG_FMT :: string where "SU_SRV_LOG_FMT = ''%s/var/log/su-%05d.log''"
definition SU_SRV_LOG_WLEN :: int where "SU_SRV_LOG_WLEN = 16 + 5"

definition su_srv_log_init :: "env \<Rightarrow> string \<Rightarrow> int \<Rightarrow> 'a log_os_scheme \<Rightarrow> int \<times> 'a log_os_scheme" where
  "su_srv_log_init E pfs_root pid w =
     (let last_err = - 1;
          logpath_len = c_int (int (c_strlen pfs_root) + SU_SRV_LOG_WLEN + 1);
          (block, w) = c_malloc E (c_size (sizeof_ptr E) logpath_len) w
      in if block = 0 then (last_err, w\<lparr>su_srv_log_path := None\<rparr>)
         else
           let path = c_buf (c_snprintf (c_size (sizeof_ptr E) logpath_len) SU_SRV_LOG_FMT
                               [FStr pfs_root, FInt pid]);
               w = w\<lparr>su_srv_log_path := Some (block, path)\<rparr>;
               (file, w) = c_fopen_append E path w;
               w = w\<lparr>su_srv_log_fptr := file\<rparr>
           in if file \<noteq> None then (0, w) else (errno w, w))"

definition su_srv_log_close :: "'a log_os_scheme \<Rightarrow> 'a log_os_scheme" where
  "su_srv_log_close w =
     (let w = (case su_srv_log_path w of Some (block, _) \<Rightarrow> c_free block w | None \<Rightarrow> w)
      in case su_srv_log_fptr w of
           Some f \<Rightarrow>
             let (f, w) = c_fflush f w; w = os_close (cf_fd f) w
             in w\<lparr>su_srv_log_fptr := None\<rparr>
         | None \<Rightarrow> w)"

text \<open>The header and the footer of a line, on the stream their callers have tested.\<close>

definition su_srv_log_print_header :: "cfile \<Rightarrow> cfile" where
  "su_srv_log_print_header f = c_fprintf f ''[su_srv] '' []"

definition su_srv_log_print_footer :: "cfile \<Rightarrow> 'a os_scheme \<Rightarrow> cfile \<times> 'a os_scheme" where
  "su_srv_log_print_footer f w = (let f = c_fprintf f [LF] [] in c_fflush f w)"

definition su_srv_log_printf :: "string \<Rightarrow> farg list \<Rightarrow> 'a log_os_scheme \<Rightarrow> 'a log_os_scheme" where
  "su_srv_log_printf fmt args w =
     (case su_srv_log_fptr w of
        None \<Rightarrow> w
      | Some f \<Rightarrow>
          let f = su_srv_log_print_header f;
              f = c_fprintf f fmt args;
              (f, w) = su_srv_log_print_footer f w
          in w\<lparr>su_srv_log_fptr := Some f\<rparr>)"

definition su_srv_log_perror :: "env \<Rightarrow> string \<Rightarrow> 'a log_os_scheme \<Rightarrow> 'a log_os_scheme" where
  "su_srv_log_perror E msg w =
     (case su_srv_log_fptr w of
        None \<Rightarrow> w
      | Some f \<Rightarrow>
          let f = su_srv_log_print_header f;
              f = c_fprintf f ''! %s: %s (%d)'' [FStr msg, FStr (strerror E (errno w)), FInt (errno w)];
              (f, w) = su_srv_log_print_footer f w
          in w\<lparr>su_srv_log_fptr := Some f\<rparr>)"

definition su_srv_log_cmdstr :: "string \<Rightarrow> 'a log_os_scheme \<Rightarrow> 'a log_os_scheme" where
  "su_srv_log_cmdstr cmdstr w =
     (case su_srv_log_fptr w of
        None \<Rightarrow> w
      | Some f \<Rightarrow>
          let f = c_fprintf f (''# %s'' @ [LF]) [FStr cmdstr];
              (f, w) = c_fflush f w
          in w\<lparr>su_srv_log_fptr := Some f\<rparr>)"

section \<open>What the log holds\<close>

text \<open>
  A log is ready when its stream is open on a file and nothing waits in the buffer; its
  text is the content of that file.
\<close>

definition log_file :: "'a log_os_scheme \<Rightarrow> string option" where
  "log_file w =
     (case su_srv_log_fptr w of None \<Rightarrow> None
      | Some f \<Rightarrow> (case map_of (fds w) (cf_fd f) of Some (FFile p) \<Rightarrow> Some p | _ \<Rightarrow> None))"

definition log_text :: "'a log_os_scheme \<Rightarrow> string" where
  "log_text w =
     (case log_file w of None \<Rightarrow> []
      | Some p \<Rightarrow> (case node_at w p of Some (NFile s) \<Rightarrow> s | _ \<Rightarrow> []))"

definition log_ready :: "'a log_os_scheme \<Rightarrow> bool" where
  "log_ready w \<longleftrightarrow>
     (case su_srv_log_fptr w of None \<Rightarrow> False
      | Some f \<Rightarrow> cf_buf f = [] \<and>
          (case map_of (fds w) (cf_fd f) of
             Some (FFile p) \<Rightarrow> (case node_at w p of Some (NFile _) \<Rightarrow> True | _ \<Rightarrow> False)
           | _ \<Rightarrow> False))"

text \<open>One call of the log interface; \<open>LRaw\<close> is a direct \<open>write\<close> to the descriptor.\<close>

datatype log_call = LPrintf string "farg list" | LPerror string | LCmdstr string | LRaw string

definition log_raw :: "string \<Rightarrow> 'a log_os_scheme \<Rightarrow> 'a log_os_scheme" where
  "log_raw s w = (case su_srv_log_fptr w of None \<Rightarrow> w | Some f \<Rightarrow> os_write (cf_fd f) s w)"

fun log_do :: "env \<Rightarrow> log_call \<Rightarrow> 'a log_os_scheme \<Rightarrow> 'a log_os_scheme" where
  "log_do E (LPrintf fmt args) w = su_srv_log_printf fmt args w"
| "log_do E (LPerror msg) w = su_srv_log_perror E msg w"
| "log_do E (LCmdstr s) w = su_srv_log_cmdstr s w"
| "log_do E (LRaw s) w = log_raw s w"

fun log_line :: "env \<Rightarrow> log_call \<Rightarrow> 'a log_os_scheme \<Rightarrow> string" where
  "log_line E (LPrintf fmt args) w = ''[su_srv] '' @ c_format fmt args @ [LF]"
| "log_line E (LPerror msg) w = ''[su_srv] ! '' @ cstr msg @ '': '' @ cstr (strerror E (errno w)) @
     '' ('' @ show_int (errno w) @ '')'' @ [LF]"
| "log_line E (LCmdstr s) w = ''# '' @ cstr s @ [LF]"
| "log_line E (LRaw s) w = s"

text \<open>
  The contract of an append-only log: a call on a ready log adds its text at the end and
  leaves the log ready.
\<close>

locale append_log =
  fixes put :: "'x \<Rightarrow> 's \<Rightarrow> 's"
    and line :: "'x \<Rightarrow> 's \<Rightarrow> string"
    and contents :: "'s \<Rightarrow> string"
    and ready :: "'s \<Rightarrow> bool"
  assumes put_contents: "ready s \<Longrightarrow> contents (put x s) = contents s @ line x s"
    and put_ready: "ready s \<Longrightarrow> ready (put x s)"
begin

lemma puts_ready: "ready s \<Longrightarrow> ready (fold put xs s)"
  by (induction xs arbitrary: s) (simp_all add: put_ready)

text \<open>The text each call of a sequence adds, in the state the call meets.\<close>

lemma puts_contents:
  "ready s \<Longrightarrow> contents (fold put (xs @ [x]) s) = contents (fold put xs s) @ line x (fold put xs s)"
  by (simp add: put_contents puts_ready)

lemma puts_extend: "ready s \<Longrightarrow> \<exists>t. contents (fold put xs s) = contents s @ t"
proof (induction xs arbitrary: s)
  case Nil
  then show ?case by simp
next
  case (Cons x xs)
  from Cons.IH [OF put_ready [OF Cons.prems, of x]] put_contents [OF Cons.prems, of x]
  show ?case by auto
qed

lemma puts_stateless:
  assumes "ready s" and "\<And>x s'. x \<in> set xs \<Longrightarrow> line x s' = txt x"
  shows "contents (fold put xs s) = contents s @ concat (map txt xs)"
  using assms
  by (induction xs arbitrary: s) (simp_all add: put_contents put_ready)

end

lemma log_readyE:
  assumes "log_ready w"
  obtains fd p s where "su_srv_log_fptr w = Some \<lparr>cf_fd = fd, cf_buf = []\<rparr>"
    and "map_of (fds w) fd = Some (FFile p)" and "node_at w p = Some (NFile s)"
proof -
  from assms obtain f where f: "su_srv_log_fptr w = Some f" "cf_buf f = []"
    by (auto simp: log_ready_def split: option.splits)
  with assms obtain p where p: "map_of (fds w) (cf_fd f) = Some (FFile p)"
    by (auto simp: log_ready_def split: option.splits fdesc.splits)
  with f assms have "case node_at w p of Some (NFile _) \<Rightarrow> True | _ \<Rightarrow> False"
    by (simp add: log_ready_def)
  then obtain s where "node_at w p = Some (NFile s)"
    by (auto split: option.splits node.splits)
  with f p that [of "cf_fd f" p s] show thesis by (cases f) simp
qed

lemma log_writes:
  assumes "log_ready w"
  shows "log_ready (log_raw s w)" and "log_text (log_raw s w) = log_text w @ s"
proof -
  obtain fd p t where *: "su_srv_log_fptr w = Some \<lparr>cf_fd = fd, cf_buf = []\<rparr>"
    "map_of (fds w) fd = Some (FFile p)" "node_at w p = Some (NFile t)"
    using log_readyE [OF assms] by blast
  have "fds (log_raw s w) = fds w" "su_srv_log_fptr (log_raw s w) = su_srv_log_fptr w"
    "node_at (log_raw s w) p = Some (NFile (t @ s))"
    using * by (simp_all add: log_raw_def os_write_def set_node_def node_at_def update_conv')
  with * show "log_ready (log_raw s w)" and "log_text (log_raw s w) = log_text w @ s"
    by (simp_all add: log_ready_def log_text_def log_file_def)
qed

text \<open>On a ready log every call is one \<open>write\<close> of its line.\<close>

lemma log_do_raw: "log_ready w \<Longrightarrow> log_do E x w = log_raw (log_line E x w) w"
proof (elim log_readyE)
  fix fd p s
  assume *: "su_srv_log_fptr w = Some \<lparr>cf_fd = fd, cf_buf = []\<rparr>"
    "map_of (fds w) fd = Some (FFile p)" "node_at w p = Some (NFile s)"
  have same: "v\<lparr>su_srv_log_fptr := Some \<lparr>cf_fd = fd, cf_buf = []\<rparr>\<rparr> = v"
    if "su_srv_log_fptr v = Some \<lparr>cf_fd = fd, cf_buf = []\<rparr>" for v :: "'a log_os_scheme"
    using that by simp
  show "log_do E x w = log_raw (log_line E x w) w"
    by (cases x)
      (use * in \<open>simp_all add: su_srv_log_printf_def su_srv_log_perror_def su_srv_log_cmdstr_def
        log_raw_def su_srv_log_print_header_def su_srv_log_print_footer_def c_fprintf_def
        c_fflush_def Let_def same os_write_def set_node_def\<close>)
qed

interpretation log: append_log "log_do E" "log_line E" log_text log_ready for E
proof unfold_locales
  fix x and w :: "'a log_os_scheme"
  assume "log_ready w"
  then show "log_text (log_do E x w) = log_text w @ log_line E x w" and "log_ready (log_do E x w)"
    by (simp_all add: log_do_raw log_writes)
qed

section \<open>Frames\<close>

text \<open>
  \<open>logs w w'\<close>: a run that wrote to the log only. The stream keeps its descriptor, and the
  contents of the file the stream is open on may have changed. A log is calm when its
  stream, if any, is not a connected socket.
\<close>

definition log_fd :: "'a log_os_scheme \<Rightarrow> int option" where
  "log_fd w = map_option cf_fd (su_srv_log_fptr w)"

definition logs :: "'a log_os_scheme \<Rightarrow> 'a log_os_scheme \<Rightarrow> bool" where
  "logs w w' \<longleftrightarrow> w' = w\<lparr>nodes := nodes w', su_srv_log_fptr := su_srv_log_fptr w'\<rparr>
     \<and> log_fd w' = log_fd w \<and> places w' = places w"

definition calm :: "'a log_os_scheme \<Rightarrow> bool" where
  "calm w \<longleftrightarrow> (\<forall>fd. log_fd w = Some fd \<longrightarrow> map_of (fds w) fd \<noteq> Some FConn)"

lemma logs_refl [simp]: "logs w w"
  by (simp add: logs_def)

lemma logs_trans [trans]: "logs u v \<Longrightarrow> logs v w \<Longrightarrow> logs u w"
  unfolding logs_def by (cases u; cases v; cases w) simp

lemma logs_frame:
  "logs w w' \<Longrightarrow> fds w' = fds w" "logs w w' \<Longrightarrow> acts w' = acts w" "logs w w' \<Longrightarrow> tick w' = tick w"
  "logs w w' \<Longrightarrow> heap w' = heap w" "logs w w' \<Longrightarrow> brk w' = brk w" "logs w w' \<Longrightarrow> errno w' = errno w"
  "logs w w' \<Longrightarrow> log_os.more w' = log_os.more w" "logs w w' \<Longrightarrow> log_fd w' = log_fd w"
  "logs w w' \<Longrightarrow> su_srv_log_path w' = su_srv_log_path w"
  unfolding logs_def by (cases w; cases w'; simp)+

lemma logs_places:
  "logs w w' \<Longrightarrow> places w' = places w" "logs w w' \<Longrightarrow> dom (node_at w') = dom (node_at w)"
  "logs w w' \<Longrightarrow> is_dir w' = is_dir w"
  using places_dom [of w' w] by (simp_all add: logs_def)

lemma logs_calm: "logs w w' \<Longrightarrow> calm w' = calm w"
  by (simp add: calm_def logs_frame)

lemma fds_write: "fds (os_write fd s w) = fds w"
  by (auto simp: os_write_def set_node_def split: option.splits fdesc.splits node.splits)

lemma places_write [simp]: "places (os_write fd s w) = places w"
  by (auto simp: os_write_def places_def set_node_def node_at_def update_conv' fun_eq_iff
      split: option.splits fdesc.splits node.splits)

lemma os_write_log:
  "map_of (fds w) fd \<noteq> Some FConn \<Longrightarrow> os_write fd s w = w\<lparr>nodes := nodes (os_write fd s w)\<rparr>"
  by (auto simp: os_write_def set_node_def split: option.splits fdesc.splits node.splits)

lemma c_fflush_logs:
  assumes "map_of (fds w) (cf_fd f) \<noteq> Some FConn" and "log_fd w = Some (cf_fd f)"
  shows "logs w ((snd (c_fflush f w))\<lparr>su_srv_log_fptr := Some (fst (c_fflush f w))\<rparr>)"
proof -
  let ?v = "os_write (cf_fd f) (cf_buf f) w"
  have v: "?v = w\<lparr>nodes := nodes ?v\<rparr>" by (rule os_write_log [OF assms(1)])
  have u: "places (?v\<lparr>su_srv_log_fptr := p\<rparr>) = places w" for p using places_same [of "?v\<lparr>su_srv_log_fptr := p\<rparr>" ?v] by simp
  have "?v\<lparr>su_srv_log_fptr := p\<rparr> = w\<lparr>nodes := nodes ?v, su_srv_log_fptr := p\<rparr>" for p
    by (subst v) simp
  then show ?thesis
    unfolding c_fflush_def logs_def using u assms(2) by (auto simp: log_fd_def)
qed

text \<open>Whatever the log is open on, its calls change no descriptor and no name.\<close>

lemma places_fptr: "places (w\<lparr>su_srv_log_fptr := f\<rparr>) = places w"
  by (simp add: places_eq)

lemma log_calls_outside:
  "fds (su_srv_log_printf fmt args w) = fds w" "places (su_srv_log_printf fmt args w) = places w"
  "fds (su_srv_log_perror E msg w) = fds w" "places (su_srv_log_perror E msg w) = places w"
  by (auto simp: su_srv_log_printf_def su_srv_log_perror_def su_srv_log_print_header_def
      su_srv_log_print_footer_def c_fprintf_def c_fflush_def Let_def split_beta fds_write places_fptr
      split: option.splits)

lemma log_calls_logs:
  assumes "calm w"
  shows "logs w (su_srv_log_printf fmt args w)" "logs w (su_srv_log_perror E msg w)"
    "logs w (su_srv_log_cmdstr s w)"
proof -
  have step: "logs w ((snd (c_fflush g w))\<lparr>su_srv_log_fptr := Some (fst (c_fflush g w))\<rparr>)"
    if "su_srv_log_fptr w = Some f" "cf_fd g = cf_fd f" for f g
    using that assms c_fflush_logs [of w g] by (simp add: calm_def log_fd_def)
  show "logs w (su_srv_log_printf fmt args w)" "logs w (su_srv_log_perror E msg w)"
    "logs w (su_srv_log_cmdstr s w)"
    by (auto simp: su_srv_log_printf_def su_srv_log_perror_def su_srv_log_cmdstr_def
        su_srv_log_print_header_def su_srv_log_print_footer_def c_fprintf_def
        Let_def split_beta split: option.splits intro: step)
qed

section \<open>Opening the log\<close>

text \<open>The path in the buffer: the formatted text, cut to the computed width.\<close>

definition log_path :: "string \<Rightarrow> int \<Rightarrow> string" where
  "log_path r pid = take (c_strlen r + 21) (cstr r @ ''/var/log/su-'' @ zpad 5 pid @ ''.log'')"

lemma c_fopen_append_cases:
  obtains (null) w' where "c_fopen_append E p w = (None, w')" and "fds w' = fds w"
      and "quiet w w'" and "nodes w' = nodes w" and "errno w' \<noteq> 0"
  | (opens) w' where
      "c_fopen_append E p w = (Some \<lparr>cf_fd = lowest_free (fds w), cf_buf = []\<rparr>, w')"
      and "fds w' = (lowest_free (fds w), FFile p) # fds w"
      and "\<And>q. node_at w' q = (if q = p \<and> node_at w p = None then Some (NFile []) else node_at w q)"
      and "\<exists>s. node_at w' p = Some (NFile s)" and "quiet w (w'\<lparr>fds := fds w\<rparr>)"
proof -
  let ?t = "w\<lparr>tick := Suc (tick w)\<rparr>" and ?fd = "lowest_free (fds w)"
  consider (bad) e where "os_open_append E p w = (- 1, ?t\<lparr>errno := e\<rparr>)" "e \<noteq> 0"
    | (old) s where "os_open_append E p w = (?fd, ?t\<lparr>fds := (?fd, FFile p) # fds w\<rparr>)"
        "node_at w p = Some (NFile s)"
    | (new) "os_open_append E p w =
          (?fd, (set_node p (NFile []) ?t)\<lparr>fds := (?fd, FFile p) # fds w\<rparr>)" "node_at w p = None"
  proof (cases "fails E (Fopen p) (tick w) = 0")
    case False
    then show thesis
      by (intro bad [of "fails E (Fopen p) (tick w)"]) (auto simp: os_open_append_def ask_def fail_def)
  next
    case True
    then show thesis
      by (cases "node_at w p"; cases "the (node_at w p)"; cases "is_dir ?t (parent_of p)")
        (auto simp: os_open_append_def ask_def fail_def new_fd_def set_node_def missing_errno_def
          errno_defs intro: that split: option.splits node.splits)
  qed
  then show thesis
  proof cases
    case bad
    then show thesis by (intro null [of "?t\<lparr>errno := e\<rparr>"]) (auto simp: c_fopen_append_def quiet_def)
  next
    case old
    with lowest_free_nonneg [of "fds w"] show thesis
      by (intro opens [of "snd (os_open_append E p w)"]) (auto simp: c_fopen_append_def quiet_def not_less)
  next
    case new
    with lowest_free_nonneg [of "fds w"] show thesis
      by (intro opens [of "snd (os_open_append E p w)"]) (auto simp: c_fopen_append_def quiet_def not_less set_node_def node_at_def update_conv')
  qed
qed

lemma log_path_exact:
  assumes "0 \<le> pid" and "pid < 100000"
  shows "log_path r pid = cstr r @ ''/var/log/su-'' @ zpad 5 pid @ ''.log''"
  using assms length_zpad [of pid 5] by (simp add: log_path_def length_cstr)

lemma su_srv_log_init_eq:
  assumes "int (c_strlen r) + 22 < 2 ^ 31" and "4 \<le> sizeof_ptr E"
  shows "su_srv_log_init E r pid w =
    (let (block, w) = c_malloc E (int (c_strlen r) + 22) w
     in if block = 0 then (- 1, w\<lparr>su_srv_log_path := None\<rparr>)
        else let (file, w) = c_fopen_append E (log_path r pid)
                   (w\<lparr>su_srv_log_path := Some (block, log_path r pid)\<rparr>);
                 w = w\<lparr>su_srv_log_fptr := file\<rparr>
             in if file \<noteq> None then (0, w) else (errno w, w))"
proof -
  have "(2::int) ^ 31 \<le> 2 ^ (8 * sizeof_ptr E)"
    using assms(2) by (intro power_increasing) auto
  with assms(1) have len: "c_size (sizeof_ptr E) (c_int (int (c_strlen r) + SU_SRV_LOG_WLEN + 1)) =
      int (c_strlen r) + 22"
    by (simp add: SU_SRV_LOG_WLEN_def)
  have "c_buf (c_snprintf (int (c_strlen r) + 22) SU_SRV_LOG_FMT [FStr r, FInt pid]) = log_path r pid"
    by (simp add: c_snprintf_def SU_SRV_LOG_FMT_def log_path_def nat_add_distrib add.commute)
  with len show ?thesis by (simp only: su_srv_log_init_def Let_def)
qed

lemma quiet_log:
  assumes "quiet w w'"
  shows "su_srv_log_path w' = su_srv_log_path w" "su_srv_log_fptr w' = su_srv_log_fptr w"
proof -
  let ?v = "w\<lparr>tick := tick w', errno := errno w', brk := brk w', nodes := nodes w'\<rparr>"
  from assms have v: "w' = ?v" by (simp add: quiet_def)
  have "su_srv_log_path w' = su_srv_log_path ?v" "su_srv_log_fptr w' = su_srv_log_fptr ?v"
    using v by (rule arg_cong)+
  then show "su_srv_log_path w' = su_srv_log_path w" "su_srv_log_fptr w' = su_srv_log_fptr w"
    by simp_all
qed

text \<open>What a successful \<open>su_srv_log_init\<close> leaves.\<close>

lemma log_init_ok:
  assumes run: "su_srv_log_init E r pid w = (0, w')"
    and size: "int (c_strlen r) + 22 < 2 ^ 31" "4 \<le> sizeof_ptr E"
  shows "su_srv_log_path w' = Some (Suc (brk w), log_path r pid)
    \<and> su_srv_log_fptr w' = Some \<lparr>cf_fd = lowest_free (fds w), cf_buf = []\<rparr>
    \<and> heap w' = Suc (brk w) # heap w
    \<and> fds w' = (lowest_free (fds w), FFile (log_path r pid)) # fds w
    \<and> (\<forall>q. node_at w' q = (if q = log_path r pid \<and> node_at w q = None then Some (NFile [])
        else node_at w q))
    \<and> (\<exists>s. node_at w' (log_path r pid) = Some (NFile s))"
proof -
  let ?p = "log_path r pid"
  from run have "fst (c_malloc E (int (c_strlen r) + 22) w) \<noteq> 0"
    by (auto simp: su_srv_log_init_eq [OF size] split: prod.splits if_splits)
  then obtain w1 where m: "c_malloc E (int (c_strlen r) + 22) w = (Suc (brk w), w1)"
    "heap w1 = Suc (brk w) # heap w" "nodes w1 = nodes w" "quiet w (w1\<lparr>heap := heap w\<rparr>)"
    by (cases rule: c_malloc_cases [of E "int (c_strlen r) + 22" w]) auto
  define w2 where "w2 = w1\<lparr>su_srv_log_path := Some (Suc (brk w), ?p)\<rparr>"
  have w2: "fds w2 = fds w" "heap w2 = Suc (brk w) # heap w" "node_at w2 q = node_at w q"
    "su_srv_log_path w2 = Some (Suc (brk w), ?p)" for q
    using quiet_frame(2) [OF m(4)] m(2,3) by (simp_all add: w2_def node_at_def)
  show ?thesis
  proof (cases rule: c_fopen_append_cases [of E ?p w2])
    case (null w3)
    with run m(1) show ?thesis by (simp add: su_srv_log_init_eq [OF size] flip: w2_def)
  next
    case (opens w3)
    with run m(1) w2(1) have "w' = w3\<lparr>su_srv_log_fptr := Some \<lparr>cf_fd = lowest_free (fds w), cf_buf = []\<rparr>\<rparr>"
      by (simp add: su_srv_log_init_eq [OF size] flip: w2_def)
    with opens(2-4) w2 quiet_log(1) [OF opens(5)] quiet_frame(1) [OF opens(5)] show ?thesis
      by (simp add: node_at_def)
  qed
qed

lemma parent_of_log_path [simp]: "parent_of (log_path r pid) = cstr r @ ''/var/log''"
proof -
  have "log_path r pid = (cstr r @ ''/var/log'') @ SLASH # take 12 (''su-'' @ zpad 5 pid @ ''.log'')"
    by (simp add: log_path_def length_cstr)
  then show ?thesis
    by (simp only:) (rule parent_of_append; simp; auto dest: in_set_takeD)
qed

lemma log_init_healthy:
  fixes w :: "'a log_os_scheme"
  assumes E: "healthy E" and "is_dir w (cstr r @ ''/var/log'')"
    and "node_at w (log_path r pid) = None \<or> (\<exists>s. node_at w (log_path r pid) = Some (NFile s))"
    and size: "int (c_strlen r) + 22 < 2 ^ 31" "4 \<le> sizeof_ptr E"
    and "int (c_strlen r) + 22 \<le> PTRDIFF_MAX E"
  shows "fst (su_srv_log_init E r pid w) = 0"
proof -
  have "is_dir (v\<lparr>su_srv_log_path := b\<rparr>) p = is_dir v p" "node_at (v\<lparr>su_srv_log_path := b\<rparr>) p = node_at v p"
    for v :: "'a log_os_scheme" and b p by (simp_all add: is_dir_def node_at_def)
  moreover have "fails E = (\<lambda>c t. 0)" using E by (simp add: healthy_def)
  ultimately have "fst (c_fopen_append E (log_path r pid) (w1\<lparr>su_srv_log_path := b\<rparr>)) \<noteq> None"
    if "is_dir w1 (cstr r @ ''/var/log'')"
      "node_at w1 (log_path r pid) = None \<or> (\<exists>s. node_at w1 (log_path r pid) = Some (NFile s))"
    for w1 :: "'a log_os_scheme" and b
    using that lowest_free_nonneg [of "fds w1"]
    by (auto simp: c_fopen_append_def os_open_append_def ask_def new_fd_def is_dir_def set_node_def not_less
        split: option.splits)
  with healthy_malloc [OF E assms(6), of w] assms(2,3) show ?thesis
    by (simp add: su_srv_log_init_eq [OF size] Let_def split_beta)
qed

section \<open>Properties\<close>

text \<open>For a PID of at most five digits, a successful \<open>su_srv_log_init\<close> opens the log at
  \<open>root/var/log/su-PID.log\<close> with the PID padded to five digits, keeps what an earlier
  session wrote there, and leaves the log ready.\<close>

theorem log_init_opens:
  assumes "su_srv_log_init E r pid w = (0, w')" and "0 \<le> pid" and "pid < 100000"
    and "int (c_strlen r) + 22 < 2 ^ 31" and "4 \<le> sizeof_ptr E"
  shows "log_ready w' \<and> log_file w' = Some (cstr r @ ''/var/log/su-'' @ zpad 5 pid @ ''.log'')
    \<and> snd (the (su_srv_log_path w')) = cstr r @ ''/var/log/su-'' @ zpad 5 pid @ ''.log''
    \<and> log_text w' =
        (case node_at w (cstr r @ ''/var/log/su-'' @ zpad 5 pid @ ''.log'') of
           Some (NFile s) \<Rightarrow> s | _ \<Rightarrow> [])"
  using log_init_ok [OF assms(1,4,5)] log_path_exact [OF assms(2,3), of r]
  by (auto simp: log_ready_def log_file_def log_text_def split: option.splits node.splits)

text \<open>C30: The log is append-only and unbuffered between calls: on a ready log, any sequence of
  \<open>printf\<close>, \<open>perror\<close>, \<open>cmdstr\<close> and raw writes leaves the log ready, and one more call adds
  exactly its own line after the text that is there.\<close>

theorem log_calls_append:
  assumes "log_ready w"
  shows "log_ready (fold (log_do E) xs w) \<and> (\<exists>t. log_text (fold (log_do E) xs w) = log_text w @ t)
    \<and> log_text (fold (log_do E) (xs @ [x]) w) =
        log_text (fold (log_do E) xs w) @ log_line E x (fold (log_do E) xs w)"
  using log.puts_ready [OF assms] log.puts_extend [OF assms] log.puts_contents [OF assms] by blast

text \<open>A PID of six digits does not fit the width the code computes: the log is opened, but
  the name lost the last character of its \<open>.log\<close> suffix.\<close>

theorem log_name_truncated:
  assumes "su_srv_log_init E r pid w = (0, w')" and "100000 \<le> pid" and "pid < 1000000"
    and "int (c_strlen r) + 22 < 2 ^ 31" and "4 \<le> sizeof_ptr E"
  shows "log_file w' = Some (cstr r @ ''/var/log/su-'' @ dec (nat pid) @ ''.lo'')"
proof -
  have "length (dec (nat pid)) = 6"
    using assms(2,3) length_dec_exact [of 5 "nat pid"] by simp
  then have "log_path r pid = cstr r @ ''/var/log/su-'' @ dec (nat pid) @ ''.lo''"
    using assms(2) by (simp add: log_path_def zpad_wide length_cstr)
  with log_init_ok [OF assms(1,4,5)] show ?thesis by (simp add: log_file_def)
qed

text \<open>Nothing closes a log before the next session opens its own: a second
  \<open>su_srv_log_init\<close> overwrites both globals while the old path block stays allocated and
  the old stream stays open, with no pointer left to either.\<close>

theorem log_reinit_leaks:
  assumes "su_srv_log_init E r pid w = (0, w')" and "heap_ok w"
    and "su_srv_log_path w = Some (b, p)" and "b \<in> set (heap w)"
    and "su_srv_log_fptr w = Some f" and "map_of (fds w) (cf_fd f) = Some d"
    and "int (c_strlen r) + 22 < 2 ^ 31" and "4 \<le> sizeof_ptr E"
  shows "b \<in> set (heap w') \<and> map_of (fds w') (cf_fd f) = Some d
    \<and> fst (the (su_srv_log_path w')) \<noteq> b \<and> cf_fd (the (su_srv_log_fptr w')) \<noteq> cf_fd f"
proof -
  have "b \<le> brk w" using assms(2,4) by (auto simp: heap_ok_def)
  moreover have "cf_fd f \<noteq> lowest_free (fds w)"
    using lowest_free_fresh [of "fds w"] map_of_SomeD [OF assms(6)] by force
  ultimately show ?thesis
    using log_init_ok [OF assms(1,7,8)] assms(4,6) by simp
qed

section \<open>Instances\<close>

definition sample_log :: log_os where
  "sample_log = \<lparr>tick = 0, errno = 0, brk = 0, heap = [],
     nodes = [(''/d'', NDir 448), (''/d/var'', NDir 448), (''/d/var/log'', NDir 448),
       (''/d/var/log/su-00007.log'', NFile ''old'')],
     fds = sample_fds, acts = [], su_srv_log_path = None, su_srv_log_fptr = None\<rparr>"

definition sample_logged :: log_os where
  "sample_logged = snd (su_srv_log_init sample_env ''/d'' 7 sample_log)"

lemma sample_log_run: "su_srv_log_init sample_env ''/d'' 7 sample_log = (0, sample_logged)"
proof -
  have "fst (su_srv_log_init sample_env ''/d'' 7 sample_log) = 0" by code_simp
  then show ?thesis by (simp add: sample_logged_def prod_eq_iff)
qed

lemma sample_logged_ready: "log_ready sample_logged"
  by code_simp

theorem log_init_opens_witness:
  "su_srv_log_init sample_env ''/d'' 7 sample_log = (0, sample_logged)
   \<and> log_file sample_logged = Some ''/d/var/log/su-00007.log'' \<and> log_text sample_logged = ''old''"
proof -
  have "zpad 5 7 = ''00007''" by code_simp
  with log_init_opens [OF sample_log_run] sample_log_run show ?thesis
    by (simp add: sample_log_def node_at_def)
qed

theorem log_calls_append_witness:
  "log_ready sample_logged \<and> log_text (fold (log_do sample_env) [LCmdstr ''id''] sample_logged)
     = log_text sample_logged @ ''# id'' @ [LF]"
  using log_calls_append [OF sample_logged_ready, of sample_env "[]" "LCmdstr ''id''"]
    sample_logged_ready
  by simp

theorem log_name_truncated_witness:
  "log_file (snd (su_srv_log_init sample_env ''/d'' 123456 sample_log))
   = Some ''/d/var/log/su-123456.lo''"
proof -
  have dec: "dec 123456 = ''123456''" by (simp add: dec.simps digit_def, code_simp)
  have "su_srv_log_init sample_env ''/d'' 123456 sample_log =
      (0, snd (su_srv_log_init sample_env ''/d'' 123456 sample_log))"
    using log_init_healthy [of sample_env sample_log "''/d''" 123456]
    by (simp add: prod_eq_iff sample_log_def is_dir_def node_at_def log_path_def zpad_def dec)
  from log_name_truncated [OF this] dec show ?thesis by simp
qed

definition sample_relogged :: log_os where
  "sample_relogged = snd (su_srv_log_init sample_env ''/d'' 7 sample_logged)"

theorem log_reinit_leaks_witness:
  "su_srv_log_init sample_env ''/d'' 7 sample_logged = (0, sample_relogged)
   \<and> 1 \<in> set (heap sample_relogged) \<and> map_of (fds sample_relogged) 3 \<noteq> None
   \<and> fst (the (su_srv_log_path sample_relogged)) \<noteq> 1
   \<and> cf_fd (the (su_srv_log_fptr sample_relogged)) \<noteq> 3"
proof -
  have "fst (su_srv_log_init sample_env ''/d'' 7 sample_logged) = 0" by code_simp
  then have run: "su_srv_log_init sample_env ''/d'' 7 sample_logged = (0, sample_relogged)"
    by (simp add: sample_relogged_def prod_eq_iff)
  have state: "heap_ok sample_logged" "1 \<in> set (heap sample_logged)"
    "su_srv_log_path sample_logged = Some (1, ''/d/var/log/su-00007.log'')"
    "su_srv_log_fptr sample_logged = Some \<lparr>cf_fd = 3, cf_buf = []\<rparr>"
    "map_of (fds sample_logged) 3 = Some (FFile ''/d/var/log/su-00007.log'')"
    by code_simp+
  from log_reinit_leaks [OF run state(1,3,2,4)] state run show ?thesis by simp
qed

end
