(* ===== verification/Session.thy ===== *)
theory Session
  imports Log
begin

text \<open>
  The session structure (\<open>jni/su_shell_session.c\<close>, \<open>jni/su_shell_session.h\<close>): its
  allocation and initialisation, the AF_UNIX rendez-vous that gives it a pair of connected
  sockets, and its destruction.
\<close>

section \<open>The structure\<close>

definition AF_UNIX_PATH_MAX :: int where "AF_UNIX_PATH_MAX = 108"
definition AF_UNIX :: int where "AF_UNIX = 1"

record sockaddr_un =
  sun_family :: int
  sun_path :: string

text \<open>
  Pointers are block addresses, 0 the null pointer; \<open>block\<close> is the address of the structure
  itself, which C keeps in the pointer to it.
\<close>

record su_shell_session =
  block :: nat
  owner_pid :: int
  pfs_root :: string
  afun_rdv_addr :: sockaddr_un
  afun_client_fd :: int
  shell_pid :: int
  handler_pth :: nat
  shell_sync_mutex :: nat
  shell_sync_ready :: nat
  handler_buf :: nat
  last_tty_read :: "(nat \<times> string) option"
  tty_echo :: int
  shell_cmd_exit_code :: int

definition SESSION_AFUN_FMT :: string where "SESSION_AFUN_FMT = ''%s/var/run/su-%05d''"
definition SESSION_AFUN_FMT_WLEN :: int where "SESSION_AFUN_FMT_WLEN = 12 + 5"
definition BUF_INITIAL_SIZE :: int where "BUF_INITIAL_SIZE = 32"

section \<open>Allocation\<close>

definition init_af_un_address ::
  "env \<Rightarrow> su_shell_session \<Rightarrow> 'a os_scheme \<Rightarrow> (int \<times> su_shell_session \<times> 'a os_scheme) c_result" where
  "init_af_un_address E session w =
     (let afun_path_len = c_int (int (c_strlen (pfs_root session)) + SESSION_AFUN_FMT_WLEN + 1)
      in if afun_path_len > AF_UNIX_PATH_MAX then Inr (- 1, session, w)
         else
           let size = c_size (sizeof_ptr E) afun_path_len;
               (afun_path, w) = c_malloc E size w
           in if afun_path = 0 then Inr (- 1, session, w)
              else
                let session = session\<lparr>afun_rdv_addr := (afun_rdv_addr session)\<lparr>sun_family := AF_UNIX\<rparr>\<rparr>;
                    text = c_snprintf size SESSION_AFUN_FMT
                             [FStr (pfs_root session), FInt (owner_pid session)]
                in case c_strcpy (nat AF_UNIX_PATH_MAX) text of
                     Inl fault \<Rightarrow> Inl fault
                   | Inr path \<Rightarrow>
                       Inr (0, session\<lparr>afun_rdv_addr := (afun_rdv_addr session)\<lparr>sun_path := path\<rparr>\<rparr>,
                            c_free afun_path w))"

definition init_mutexes ::
  "env \<Rightarrow> su_shell_session \<Rightarrow> 'a os_scheme \<Rightarrow> int \<times> su_shell_session \<times> 'a os_scheme" where
  "init_mutexes E session w =
     (let (mutex, w) = c_malloc E (sizeof_of E SizeofMutex) w;
          session = session\<lparr>shell_sync_mutex := mutex\<rparr>;
          (last_err, w) = (if mutex \<noteq> 0 then ask E MutexInit w else (0, w));
          (session, w) = (if last_err \<noteq> 0 then (session\<lparr>shell_sync_mutex := 0\<rparr>, c_free mutex w)
                          else (session, w))
      in if last_err \<noteq> 0 then (last_err, session, w)
         else
           let (ready, w) = c_malloc E (sizeof_of E SizeofCond) w;
               session = session\<lparr>shell_sync_ready := ready\<rparr>;
               (last_err, w) = (if ready \<noteq> 0 then ask E CondInit w else (0, w));
               (session, w) = (if last_err \<noteq> 0 then (session\<lparr>shell_sync_ready := 0\<rparr>, c_free ready w)
                               else (session, w))
           in (last_err, session, w))"

text \<open>\<open>if (p) free(p)\<close>\<close>

definition free_if :: "nat \<Rightarrow> 'a os_scheme \<Rightarrow> 'a os_scheme" where
  "free_if p w = (if p \<noteq> 0 then c_free p w else w)"

definition su_shell_session_new ::
  "env \<Rightarrow> string \<Rightarrow> int \<Rightarrow> 'a os_scheme \<Rightarrow> (su_shell_session option \<times> 'a os_scheme) c_result" where
  "su_shell_session_new E root pid w =
     (let (b, w) = c_malloc E (sizeof_of E SizeofSession) w
      in if b = 0 then Inr (None, w)
         else
           let (pth, w) = c_malloc E (sizeof_of E SizeofPthread) w;
               (buf, w) = c_malloc E BUF_INITIAL_SIZE w;
               session = \<lparr>block = b, owner_pid = pid, pfs_root = root,
                 afun_rdv_addr = \<lparr>sun_family = uninit E, sun_path = []\<rparr>, afun_client_fd = 0,
                 shell_pid = 0, handler_pth = pth, shell_sync_mutex = uninit_ptr E,
                 shell_sync_ready = uninit_ptr E, handler_buf = buf, last_tty_read = None,
                 tty_echo = 1, shell_cmd_exit_code = uninit E\<rparr>
           in case init_af_un_address E session w of
                Inl fault \<Rightarrow> Inl fault
              | Inr (e, session, w) \<Rightarrow>
                  let (e, session, w) = (if e \<noteq> 0 then (e, session, w) else init_mutexes E session w)
                  in if e \<noteq> 0 then
                       let w = free_if (handler_pth session) w;
                           w = free_if (handler_buf session) w
                       in Inr (None, c_free (block session) w)
                     else Inr (Some session, w))"

section \<open>Rendez-vous\<close>

text \<open>
  \<open>accept\<close> stores the address of its peer in \<open>afun_rdv_addr\<close>; the client socket is unnamed,
  so only the family is written, with the value that is there, and the path stays.
\<close>

definition su_shell_session_af_un_rdv ::
  "env \<Rightarrow> su_shell_session \<Rightarrow> 'a log_os_scheme \<Rightarrow> int \<times> su_shell_session \<times> 'a log_os_scheme" where
  "su_shell_session_af_un_rdv E session w =
     (let un_peer_fd = - 1;
          (un_rdv_fd, w) = os_socket E w
      in if un_rdv_fd = 0 then (un_peer_fd, session, w)
         else
           let path = sun_path (afun_rdv_addr session);
               (bound, w) = os_bind E un_rdv_fd path w;
               (listening, w) = (if bound = 0 then os_listen E un_rdv_fd w else (- 1, w));
               (session, w) =
                 (if bound = 0 \<and> listening = 0 then
                    let (fd, w) = os_socket E w in (session\<lparr>afun_client_fd := fd\<rparr>, w)
                  else (session, w));
               (un_peer_fd, w) =
                 (if bound = 0 \<and> listening = 0 \<and> afun_client_fd session > 0 then
                    let (connected, w) = os_connect E (afun_client_fd session) path w;
                        (un_peer_fd, w) = (if connected \<noteq> 0 then (un_peer_fd, w) else os_accept E un_rdv_fd w)
                    in if connected \<noteq> 0 \<or> un_peer_fd < 0
                       then (un_peer_fd, su_srv_log_perror E ''Failed to establish AF UNIX rendez-vous'' w)
                       else (un_peer_fd, w)
                  else (un_peer_fd, su_srv_log_perror E ''Failed to setup AF UNIX rendez-vous'' w))
           in (un_peer_fd, session, os_close un_rdv_fd w))"

section \<open>Destruction\<close>

definition destroy_mutexes ::
  "su_shell_session \<Rightarrow> 'a os_scheme \<Rightarrow> (su_shell_session \<times> 'a os_scheme) c_result" where
  "destroy_mutexes session w =
     (if shell_sync_mutex session = 0 then Inl NullDeref
      else if shell_sync_ready session = 0 then Inl NullDeref
      else
        let w = c_free (shell_sync_ready session) w;
            session = session\<lparr>shell_sync_ready := 0\<rparr>;
            w = c_free (shell_sync_mutex session) w;
            session = session\<lparr>shell_sync_mutex := 0\<rparr>
        in Inr (session, w))"

definition su_shell_session_delete :: "su_shell_session \<Rightarrow> 'a os_scheme \<Rightarrow> 'a os_scheme c_result" where
  "su_shell_session_delete session w =
     (case destroy_mutexes session w of
        Inl fault \<Rightarrow> Inl fault
      | Inr (session, w) \<Rightarrow>
          let w = (if afun_client_fd session > 0 then
                     let w = os_close (afun_client_fd session) w
                     in snd (os_unlink (sun_path (afun_rdv_addr session)) w)
                   else w);
              w = free_if (handler_pth session) w;
              w = free_if (handler_buf session) w;
              w = (case last_tty_read session of Some (b, _) \<Rightarrow> free_if b w | None \<Rightarrow> w)
          in Inr (c_free (block session) w))"

section \<open>The address\<close>

text \<open>The path in \<open>sun_path\<close>: the formatted text, cut to the computed width.\<close>

definition session_path :: "string \<Rightarrow> int \<Rightarrow> string" where
  "session_path r pid = take (c_strlen r + 17) (cstr r @ ''/var/run/su-'' @ zpad 5 pid)"

lemma session_path_exact:
  assumes "0 \<le> pid" and "pid < 100000"
  shows "session_path r pid = cstr r @ ''/var/run/su-'' @ zpad 5 pid"
  using assms length_zpad [of pid 5] by (simp add: session_path_def length_cstr)

lemma session_path_no_NUL [simp]: "NUL \<notin> set (session_path r pid)"
  by (auto simp: session_path_def dest: in_set_takeD)

lemma session_path_length: "length (session_path r pid) \<le> c_strlen r + 17"
  by (simp add: session_path_def)

text \<open>A path that fits is formatted and copied whole, once its buffer is there.\<close>

lemma init_af_un_address_fits:
  assumes "int (c_strlen (pfs_root s)) + 18 \<le> 108" and "4 \<le> sizeof_ptr E"
  shows "init_af_un_address E s w =
    (let (p, w) = c_malloc E (int (c_strlen (pfs_root s)) + 18) w
     in if p = 0 then Inr (- 1, s, w)
        else Inr (0, s\<lparr>afun_rdv_addr := \<lparr>sun_family = AF_UNIX,
                    sun_path = session_path (pfs_root s) (owner_pid s)\<rparr>\<rparr>, c_free p w))"
proof -
  let ?n = "int (c_strlen (pfs_root s)) + 18"
  have n: "int (c_strlen (pfs_root s)) + SESSION_AFUN_FMT_WLEN + 1 = ?n"
    by (simp add: SESSION_AFUN_FMT_WLEN_def)
  have "(2::int) ^ 31 \<le> 2 ^ (8 * sizeof_ptr E)"
    using assms(2) by (intro power_increasing) auto
  with assms(1) have c: "c_int ?n = ?n" "c_size (sizeof_ptr E) ?n = ?n" by simp_all
  have fmt: "c_snprintf ?n SESSION_AFUN_FMT [FStr (pfs_root s), FInt (owner_pid s)] =
      Some (session_path (pfs_root s) (owner_pid s))"
    by (simp add: c_snprintf_def SESSION_AFUN_FMT_def session_path_def nat_add_distrib add.commute)
  have copy: "c_strcpy 108 (Some (session_path (pfs_root s) (owner_pid s))) =
      Inr (session_path (pfs_root s) (owner_pid s))"
    using assms(1) session_path_length [of "pfs_root s" "owner_pid s"] by (simp add: c_strcpy_def)
  show ?thesis
    using assms(1) c fmt copy
    by (simp add: init_af_un_address_def n AF_UNIX_PATH_MAX_def Let_def split_beta)
qed

lemma init_af_un_address_cases:
  assumes size: "int (c_strlen (pfs_root s)) + 18 < 2 ^ 32" and ptr: "4 \<le> sizeof_ptr E"
  obtains (refused) w' where "init_af_un_address E s w = Inr (- 1, s, w')" and "quiet w w'"
      and "nodes w' = nodes w"
  | (set) w' where "init_af_un_address E s w =
        Inr (0, s\<lparr>afun_rdv_addr := \<lparr>sun_family = AF_UNIX,
              sun_path = session_path (pfs_root s) (owner_pid s)\<rparr>\<rparr>, w')"
      and "quiet w w'" and "nodes w' = nodes w" and "int (c_strlen (pfs_root s)) + 18 \<le> 108"
proof -
  let ?n = "int (c_strlen (pfs_root s)) + 18"
  have n: "int (c_strlen (pfs_root s)) + SESSION_AFUN_FMT_WLEN + 1 = ?n"
    by (simp add: SESSION_AFUN_FMT_WLEN_def)
  consider (long) "108 < c_int ?n" | (huge) "2 ^ 31 \<le> ?n" "\<not> 108 < c_int ?n" | (fits) "?n \<le> 108"
    by (cases "?n < 2 ^ 31"; cases "?n \<le> 108") auto
  then show thesis
  proof cases
    case long
    with refused [of w] show thesis by (simp add: init_af_un_address_def n AF_UNIX_PATH_MAX_def)
  next
    case huge
    with c_malloc_wrapped [OF huge(1) size ptr, of w]
    have "init_af_un_address E s w = Inr (- 1, s, snd (c_malloc E (c_size (sizeof_ptr E) (c_int ?n)) w))"
      by (simp add: init_af_un_address_def n AF_UNIX_PATH_MAX_def Let_def split_beta)
    moreover have "quiet w (snd (c_malloc E (c_size (sizeof_ptr E) (c_int ?n)) w))"
      using c_malloc_wrapped [OF huge(1) size ptr, of w]
      by (cases rule: c_malloc_cases [of E "c_size (sizeof_ptr E) (c_int ?n)" w]) auto
    ultimately show thesis by (rule refused) simp
  next
    case fits
    note eq = init_af_un_address_fits [OF fits ptr]
    show thesis
    proof (cases rule: c_malloc_cases [of E ?n w])
      case (fails w')
      with refused [of w'] show thesis by (simp add: eq)
    next
      case (block w')
      have "quiet w (c_free (Suc (brk w)) w')"
        by (rule quiet_heap [OF block(4,2)]) simp
      with set [of "c_free (Suc (brk w)) w'"] block fits show thesis by (simp add: eq)
    qed
  qed
qed

section \<open>Memory\<close>

text \<open>The blocks a session owns.\<close>

definition tty_block :: "su_shell_session \<Rightarrow> nat multiset" where
  "tty_block s = (case last_tty_read s of None \<Rightarrow> {#} | Some (b, _) \<Rightarrow> blk b)"

definition session_blocks :: "su_shell_session \<Rightarrow> nat multiset" where
  "session_blocks s = blk (block s) + blk (handler_pth s) + blk (handler_buf s)
     + blk (shell_sync_mutex s) + blk (shell_sync_ready s) + tty_block s"

lemma live_free_if [simp]: "live (free_if a w) = live w - blk a"
  by (simp add: free_if_def)

text \<open>
  \<open>init_mutexes\<close> touches the two pointers only; on failure it keeps at most the mutex.
\<close>

lemma init_mutexes_result:
  assumes "init_mutexes E s w = (e, s', w')"
  shows "s' = s\<lparr>shell_sync_mutex := shell_sync_mutex s', shell_sync_ready := shell_sync_ready s'\<rparr>"
    and "e = 0 \<Longrightarrow> live w' = live w + blk (shell_sync_mutex s') + blk (shell_sync_ready s')"
    and "e \<noteq> 0 \<Longrightarrow> \<forall>t. fails E CondInit t = 0 \<Longrightarrow> live w' = live w"
    and "nodes w' = nodes w"
  using assms
  by (auto simp: init_mutexes_def Let_def split_beta split: if_splits)

lemma quieth_free_if: "quieth w v \<Longrightarrow> quieth w (free_if a v)"
  by (auto simp: free_if_def intro: quieth_trans)

lemma init_mutexes_quieth:
  assumes "init_mutexes E s w = (e, s', w')"
  shows "quieth w w'"
proof -
  have step: "quieth w v \<Longrightarrow> quieth w (snd (c_malloc E n v))" "quieth w v \<Longrightarrow> quieth w (c_free a v)"
    "quieth w v \<Longrightarrow> quieth w (snd (ask E c v))" for v n a c
    by (auto intro: quieth_trans)
  show ?thesis
    using assms by (auto simp: init_mutexes_def Let_def split_beta step split: if_splits)
qed

text \<open>A session as it is filled in, and what is done with it.\<close>

definition blank_session :: "env \<Rightarrow> nat \<Rightarrow> int \<Rightarrow> string \<Rightarrow> nat \<Rightarrow> nat \<Rightarrow> su_shell_session" where
  "blank_session E b pid r pth buf = \<lparr>block = b, owner_pid = pid, pfs_root = r,
     afun_rdv_addr = \<lparr>sun_family = uninit E, sun_path = []\<rparr>, afun_client_fd = 0,
     shell_pid = 0, handler_pth = pth, shell_sync_mutex = uninit_ptr E,
     shell_sync_ready = uninit_ptr E, handler_buf = buf, last_tty_read = None,
     tty_echo = 1, shell_cmd_exit_code = uninit E\<rparr>"

definition session_init ::
  "env \<Rightarrow> su_shell_session \<Rightarrow> 'a os_scheme \<Rightarrow> (su_shell_session option \<times> 'a os_scheme) c_result" where
  "session_init E session w =
     (case init_af_un_address E session w of
        Inl fault \<Rightarrow> Inl fault
      | Inr (e, session, w) \<Rightarrow>
          let (e, session, w) = (if e \<noteq> 0 then (e, session, w) else init_mutexes E session w)
          in if e \<noteq> 0 then
               let w = free_if (handler_pth session) w;
                   w = free_if (handler_buf session) w
               in Inr (None, c_free (block session) w)
             else Inr (Some session, w))"

lemma session_new_init:
  assumes "c_malloc E (sizeof_of E SizeofSession) w = (b, w1)" and "b \<noteq> 0"
    and "c_malloc E (sizeof_of E SizeofPthread) w1 = (pth, w2)" and "c_malloc E BUF_INITIAL_SIZE w2 = (buf, w3)"
  shows "su_shell_session_new E r pid w = session_init E (blank_session E b pid r pth buf) w3"
  using assms by (simp add: su_shell_session_new_def session_init_def blank_session_def)

lemma session_init_cases:
  assumes size: "int (c_strlen (pfs_root s)) + 18 < 2 ^ 32" and "4 \<le> sizeof_ptr E" and bl: "block s \<noteq> 0"
  obtains (none) w' where "session_init E s w = Inr (None, w')" and "quieth w w'" and "nodes w' = nodes w"
      and "\<forall>t. fails E CondInit t = 0 \<Longrightarrow> live w' = live w - blk (handler_pth s) - blk (handler_buf s) - blk (block s)"
  | (some) m c w' where "session_init E s w = Inr (Some (s\<lparr>
        afun_rdv_addr := \<lparr>sun_family = AF_UNIX, sun_path = session_path (pfs_root s) (owner_pid s)\<rparr>,
        shell_sync_mutex := m, shell_sync_ready := c\<rparr>), w')"
      and "quieth w w'" and "nodes w' = nodes w" and "live w' = live w + blk m + blk c"
      and "int (c_strlen (pfs_root s)) + 18 \<le> 108"
proof -
  let ?cleanup = "\<lambda>v. c_free (block s) (free_if (handler_buf s) (free_if (handler_pth s) v))"
  have clean: "quieth w (?cleanup v)" if "quieth w v" for v
    by (rule quieth_trans [OF _ quieth_free]) (intro quieth_free_if that)
  have nodes: "nodes (?cleanup v) = nodes v" for v :: "'a os_scheme"
    by (simp add: free_if_def)
  have lives: "live (?cleanup v) = live v - blk (handler_pth s) - blk (handler_buf s) - blk (block s)"
    for v :: "'a os_scheme" using bl by simp
  show thesis
  proof (cases rule: init_af_un_address_cases [OF assms(1,2), of w, case_names refused set])
    case (refused w4)
    then have "session_init E s w = Inr (None, ?cleanup w4)" by (simp add: session_init_def)
    with none [OF this clean [OF quieth_quiet [OF refused(2)]]] nodes refused(3) lives live_quiet [OF refused(2)]
    show thesis by simp
  next
    case (set w4)
    let ?s1 = "s\<lparr>afun_rdv_addr := \<lparr>sun_family = AF_UNIX, sun_path = session_path (pfs_root s) (owner_pid s)\<rparr>\<rparr>"
    obtain e s2 w5 where m: "init_mutexes E ?s1 w4 = (e, s2, w5)" by (cases "init_mutexes E ?s1 w4") auto
    note res = init_mutexes_result [OF m]
    have q5: "quieth w w5" by (rule quieth_trans [OF quieth_quiet [OF set(2)] init_mutexes_quieth [OF m]])
    have l4: "live w4 = live w" and n5: "nodes w5 = nodes w" using live_quiet [OF set(2)] res(4) set(3) by simp_all
    have s2: "block s2 = block s" "handler_pth s2 = handler_pth s" "handler_buf s2 = handler_buf s"
      by (subst res(1), simp)+
    have run: "session_init E s w = (if e \<noteq> 0 then Inr (None, ?cleanup w5) else Inr (Some s2, w5))"
      by (simp add: session_init_def set(1) m s2)
    show thesis
    proof (cases "e = 0")
      case True
      have "session_init E s w =
          Inr (Some (?s1\<lparr>shell_sync_mutex := shell_sync_mutex s2, shell_sync_ready := shell_sync_ready s2\<rparr>), w5)"
        using run True by (subst res(1) [symmetric]) simp
      from some [OF this q5 n5 _ set(4)] res(2) [OF True] l4 show thesis by simp
    next
      case False
      with none [of "?cleanup w5"] run clean [OF q5] nodes n5 res(3) [OF False] l4 lives show thesis by simp
    qed
  qed
qed

lemma session_new_cases:
  assumes "int (c_strlen r) + 18 < 2 ^ 32" and "4 \<le> sizeof_ptr E"
  obtains (none) w' where "su_shell_session_new E r pid w = Inr (None, w')"
      and "quieth w w'" and "nodes w' = nodes w"
      and "\<forall>t. fails E CondInit t = 0 \<Longrightarrow> live w' = live w"
  | (some) s w' where "su_shell_session_new E r pid w = Inr (Some s, w')"
      and "quieth w w'" and "nodes w' = nodes w" and "live w' = live w + session_blocks s"
      and "block s \<noteq> 0" and "owner_pid s = pid" and "pfs_root s = r" and "afun_client_fd s = 0"
      and "shell_pid s = 0" and "tty_echo s = 1" and "last_tty_read s = None"
      and "afun_rdv_addr s = \<lparr>sun_family = AF_UNIX, sun_path = session_path r pid\<rparr>"
      and "int (c_strlen r) + 18 \<le> 108"
proof -
  obtain b w1 where b: "c_malloc E (sizeof_of E SizeofSession) w = (b, w1)" by force
  obtain pth w2 where pth: "c_malloc E (sizeof_of E SizeofPthread) w1 = (pth, w2)" by force
  obtain buf w3 where buf: "c_malloc E BUF_INITIAL_SIZE w2 = (buf, w3)" by force
  note q1 = quieth_malloc [of w E "sizeof_of E SizeofSession", unfolded b, simplified]
  have q3: "quieth w w3"
    using q1 quieth_malloc [of w1 E "sizeof_of E SizeofPthread", unfolded pth, simplified]
      quieth_malloc [of w2 E BUF_INITIAL_SIZE, unfolded buf, simplified]
    by (blast intro: quieth_trans)
  have n: "nodes w1 = nodes w" "nodes w3 = nodes w"
    using c_malloc_nodes(1) [of E "sizeof_of E SizeofSession" w]
      c_malloc_nodes(1) [of E "sizeof_of E SizeofPthread" w1]
      c_malloc_nodes(1) [of E BUF_INITIAL_SIZE w2] by (simp_all add: b pth buf)
  have l1: "live w1 = live w + blk b" and l3: "live w3 = live w + blk b + blk pth + blk buf"
    using live_malloc_eq [OF b] live_malloc_eq [OF pth] live_malloc_eq [OF buf] by simp_all
  show thesis
  proof (cases "b = 0")
    case True
    with b have "su_shell_session_new E r pid w = Inr (None, w1)" by (simp add: su_shell_session_new_def)
    with none [of w1] q1 n(1) l1 True show thesis by simp
  next
    case False
    note new = session_new_init [OF b False pth buf, of r pid]
    let ?s = "blank_session E b pid r pth buf"
    have s: "pfs_root ?s = r" "owner_pid ?s = pid" "block ?s = b" "handler_pth ?s = pth" "handler_buf ?s = buf"
      by (simp_all add: blank_session_def)
    have bl: "block ?s \<noteq> 0" using False s(3) by simp
    show thesis
    proof (cases rule: session_init_cases [OF _ assms(2) bl, unfolded s, OF assms(1), of w3, case_names refused ready])
      case (refused w')
      with none [of w'] quieth_trans [OF q3 refused(2)] new n(2) l3 show thesis by simp
    next
      case (ready m c w')
      let ?t = "?s\<lparr>afun_rdv_addr := \<lparr>sun_family = AF_UNIX, sun_path = session_path r pid\<rparr>,
          shell_sync_mutex := m, shell_sync_ready := c\<rparr>"
      have "live w' = live w + session_blocks ?t"
        using ready(4) l3 by (simp add: session_blocks_def tty_block_def blank_session_def)
      with some [of ?t w'] quieth_trans [OF q3 ready(2)] ready(1,3,5) new n(2) False show thesis
        by (simp add: blank_session_def)
    qed
  qed
qed

lemma session_delete_ok:
  assumes "shell_sync_mutex s \<noteq> 0" and "shell_sync_ready s \<noteq> 0" and "block s \<noteq> 0"
  obtains w' where "su_shell_session_delete s w = Inr w'"
    and "live w' = live w - session_blocks s"
    and "fds w' = (if afun_client_fd s > 0 then AList.delete (afun_client_fd s) (fds w) else fds w)"
    and "\<And>q. node_at w' q =
      (if afun_client_fd s > 0 \<and> q = sun_path (afun_rdv_addr s) \<and> \<not> is_dir w q then None
       else node_at w q)"
    and "os.more w' = os.more w" and "acts w' = acts w"
proof -
  define w1 where "w1 = c_free (shell_sync_mutex s) (c_free (shell_sync_ready s) w)"
  define w2 where "w2 = (if afun_client_fd s > 0 then
      snd (os_unlink (sun_path (afun_rdv_addr s)) (os_close (afun_client_fd s) w1)) else w1)"
  define w3 where "w3 = c_free (block s) (case last_tty_read s of Some (b, _) \<Rightarrow> free_if b
      (free_if (handler_buf s) (free_if (handler_pth s) w2))
      | None \<Rightarrow> free_if (handler_buf s) (free_if (handler_pth s) w2))"
  have run: "su_shell_session_delete s w = Inr w3"
    using assms by (simp add: su_shell_session_delete_def destroy_mutexes_def w1_def w2_def w3_def Let_def
        split: option.splits)
  have l1: "live w1 = live w - blk (shell_sync_mutex s) - blk (shell_sync_ready s)"
    using assms by (simp add: w1_def diff_diff_add_mset add.commute)
  have l2: "live w2 = live w1" by (simp add: w2_def)
  have free: "nodes (free_if a v) = nodes v" "fds (free_if a v) = fds v" "acts (free_if a v) = acts v"
    "os.more (free_if a v) = os.more v" for a and v :: "'a os_scheme"
    by (simp_all add: free_if_def)
  then have w3: "fds w3 = fds w2" "acts w3 = acts w2" "os.more w3 = os.more w2" "node_at w3 = node_at w2"
    by (simp_all add: w3_def node_at_def fun_eq_iff split: option.splits)
  show thesis
  proof (rule that [OF run])
    show "live w3 = live w - session_blocks s"
      using assms(3)
      by (simp add: w3_def session_blocks_def tty_block_def l1 l2 diff_diff_add_mset ac_simps
          split: option.splits)
  qed (auto simp: w3 w2_def w1_def)
qed

text \<open>A creation in a healthy environment succeeds, with every block allocated.\<close>

lemma healthy_malloc_eq:
  assumes "healthy E" and "n \<le> PTRDIFF_MAX E"
  shows "c_malloc E n w =
    (Suc (brk w), w\<lparr>tick := Suc (tick w), brk := Suc (brk w), heap := Suc (brk w) # heap w\<rparr>)"
  using assms by (simp add: healthy_def c_malloc_def ask_def)

lemma session_new_healthy:
  assumes E: "healthy E" and "\<And>t. sizeof_of E t \<le> PTRDIFF_MAX E" and "108 \<le> PTRDIFF_MAX E"
    and "int (c_strlen r) + 18 \<le> 108" and "4 \<le> sizeof_ptr E"
  obtains s w' where "su_shell_session_new E r pid w = Inr (Some s, w')"
    and "shell_sync_mutex s \<noteq> 0" and "shell_sync_ready s \<noteq> 0" and "handler_pth s \<noteq> 0"
    and "handler_buf s \<noteq> 0"
proof -
  have "fails E = (\<lambda>c t. 0)" using E by (simp add: healthy_def)
  then have "\<exists>s w'. su_shell_session_new E r pid w = Inr (Some s, w') \<and> shell_sync_mutex s \<noteq> 0 \<and>
      shell_sync_ready s \<noteq> 0 \<and> handler_pth s \<noteq> 0 \<and> handler_buf s \<noteq> 0"
    using assms(2-5)
    by (simp add: su_shell_session_new_def init_af_un_address_fits healthy_malloc_eq [OF E]
        BUF_INITIAL_SIZE_def init_mutexes_def ask_def c_free_def)
  with that show thesis by blast
qed

section \<open>The rendez-vous\<close>

text \<open>A run that changed the clock, \<open>errno\<close>, the file names and the descriptors only.\<close>

definition nets :: "'a os_scheme \<Rightarrow> 'a os_scheme \<Rightarrow> bool" where
  "nets w w' \<longleftrightarrow> w' = w\<lparr>tick := tick w', errno := errno w', nodes := nodes w', fds := fds w'\<rparr>"

lemma nets_trans [trans]: "nets u v \<Longrightarrow> nets v w \<Longrightarrow> nets u w"
  unfolding nets_def by (cases u; cases v; cases w) simp

lemma nets_frame:
  "nets w w' \<Longrightarrow> heap w' = heap w" "nets w w' \<Longrightarrow> acts w' = acts w" "nets w w' \<Longrightarrow> brk w' = brk w"
  "nets w w' \<Longrightarrow> os.more w' = os.more w"
  unfolding nets_def by (cases w; cases w'; simp)+

lemma nets_os [simp]:
  "nets w (snd (os_socket E w))" "nets w (snd (os_bind E fd p w))" "nets w (snd (os_listen E fd w))"
  "nets w (snd (os_connect E fd p w))" "nets w (snd (os_accept E fd w))" "nets w (os_close fd w)"
  by (auto simp: nets_def os_defs fail_def set_node_def Let_def split: option.splits fdesc.splits)

text \<open>What a request that succeeds did to the names and the descriptors.\<close>

lemma os_socket_ok:
  "os_socket E w = (fd, w') \<Longrightarrow> fd = - 1 \<and> fds w' = fds w \<and> nodes w' = nodes w
     \<or> fd = lowest_free (fds w) \<and> fds w' = (fd, FSock) # fds w \<and> nodes w' = nodes w"
  by (auto simp: os_socket_def ask_def fail_def new_fd_def split: if_splits)

lemma os_bind_ok:
  "os_bind E fd p w = (r, w') \<Longrightarrow> r = - 1 \<and> fds w' = fds w \<and> nodes w' = nodes w
     \<or> r = 0 \<and> map_of (fds w) fd = Some FSock \<and> node_at w p = None
        \<and> map_of (fds w') = (map_of (fds w))(fd \<mapsto> FBound p) \<and> node_at w' = (node_at w)(p \<mapsto> NSock)"
  by (auto simp: os_bind_def ask_def fail_def update_conv' fun_eq_iff split: if_splits)

lemma os_listen_ok:
  "os_listen E fd w = (r, w') \<Longrightarrow> r = - 1 \<and> fds w' = fds w \<and> nodes w' = nodes w
     \<or> r = 0 \<and> nodes w' = nodes w \<and> (\<exists>p. map_of (fds w) fd = Some (FBound p)
        \<and> map_of (fds w') = (map_of (fds w))(fd \<mapsto> FListen p))"
  by (auto simp: os_listen_def ask_def fail_def update_conv' split: if_splits option.splits fdesc.splits)

lemma os_connect_ok:
  "os_connect E fd p w = (r, w') \<Longrightarrow> r = - 1 \<and> fds w' = fds w \<and> nodes w' = nodes w
     \<or> r = 0 \<and> nodes w' = nodes w \<and> map_of (fds w) fd = Some FSock
        \<and> map_of (fds w') = (map_of (fds w))(fd \<mapsto> FConn)"
  by (auto simp: os_connect_def ask_def fail_def update_conv' split: if_splits)

lemma os_accept_ok:
  "os_accept E fd w = (r, w') \<Longrightarrow> r = - 1 \<and> fds w' = fds w \<and> nodes w' = nodes w
     \<or> r = lowest_free (fds w) \<and> nodes w' = nodes w \<and> fds w' = (r, FPeer) # fds w"
  by (auto simp: os_accept_def ask_def fail_def new_fd_def split: if_splits option.splits fdesc.splits)

lemma lowest_free_None: "map_of t (lowest_free t) = None"
  using lowest_free_fresh [of t] by (simp add: map_of_eq_None_iff)

definition fds_ok :: "'a os_scheme \<Rightarrow> bool" where
  "fds_ok w \<longleftrightarrow> (\<forall>fd \<in> fst ` set (fds w). 0 \<le> fd)"

lemma fds_ok_map: "fds_ok w \<longleftrightarrow> (\<forall>fd. map_of (fds w) fd \<noteq> None \<longrightarrow> 0 \<le> fd)"
  by (auto simp: fds_ok_def map_of_eq_None_iff)

lemma fds_ok_dom: "fds_ok w \<Longrightarrow> map_of (fds w) fd = Some d \<Longrightarrow> 0 \<le> fd"
  by (force simp: fds_ok_def dest: map_of_SomeD)

text \<open>The five requests of a rendez-vous that succeeds.\<close>

lemma rdv_stages:
  assumes run: "su_shell_session_af_un_rdv E s w = (p, s', w')" and p: "0 \<le> p"
  obtains r w1 w2 w3 c w4 w5 w6 where "os_socket E w = (r, w1)" and "r \<noteq> 0"
    and "os_bind E r (sun_path (afun_rdv_addr s)) w1 = (0, w2)" and "os_listen E r w2 = (0, w3)"
    and "os_socket E w3 = (c, w4)" and "0 < c"
    and "os_connect E c (sun_path (afun_rdv_addr s)) w4 = (0, w5)"
    and "os_accept E r w5 = (p, w6)" and "w' = os_close r w6" and "s' = s\<lparr>afun_client_fd := c\<rparr>"
proof -
  let ?path = "sun_path (afun_rdv_addr s)"
  obtain r w1 where 1: "os_socket E w = (r, w1)" by force
  obtain b w2 where 2: "os_bind E r ?path w1 = (b, w2)" by force
  obtain l w3 where 3: "os_listen E r w2 = (l, w3)" by force
  obtain c w4 where 4: "os_socket E w3 = (c, w4)" by force
  obtain k w5 where 5: "os_connect E c ?path w4 = (k, w5)" by force
  obtain a w6 where 6: "os_accept E r w5 = (a, w6)" by force
  note unf = su_shell_session_af_un_rdv_def Let_def 1 2
  have r: "r \<noteq> 0" by (rule ccontr) (use run p in \<open>simp add: unf\<close>)
  have b: "b = 0" by (rule ccontr) (use run p r in \<open>simp add: unf\<close>)
  have l: "l = 0" by (rule ccontr) (use run p r b in \<open>simp add: unf 3\<close>)
  have c: "0 < c" by (rule ccontr) (use run p r b l in \<open>simp add: unf 3 4\<close>)
  have k: "k = 0" by (rule ccontr) (use run p r b l c in \<open>simp add: unf 3 4 5\<close>)
  have "a = p \<and> w' = os_close r w6 \<and> s' = s\<lparr>afun_client_fd := c\<rparr>"
    using run p r b l c k by (auto simp: unf 3 4 5 6 split: if_splits)
  with 1 2 3 4 5 6 r b l c k show thesis by (intro that) auto
qed

lemma rdv_nets:
  assumes run: "su_shell_session_af_un_rdv E s w = (p, s', w')" and p: "0 \<le> p"
  shows "nets w w'"
proof -
  obtain r w1 w2 w3 c w4 w5 w6 where st: "os_socket E w = (r, w1)" "r \<noteq> 0"
    "os_bind E r (sun_path (afun_rdv_addr s)) w1 = (0, w2)" "os_listen E r w2 = (0, w3)"
    "os_socket E w3 = (c, w4)" "0 < c" "os_connect E c (sun_path (afun_rdv_addr s)) w4 = (0, w5)"
    "os_accept E r w5 = (p, w6)" "w' = os_close r w6" "s' = s\<lparr>afun_client_fd := c\<rparr>"
    by (rule rdv_stages [OF run p])
  have steps: "nets w w1" "nets w1 w2" "nets w2 w3" "nets w3 w4" "nets w4 w5" "nets w5 w6" "nets w6 w'"
    using nets_os(1) [of w E] nets_os(2) [of w1 E r "sun_path (afun_rdv_addr s)"] nets_os(3) [of w2 E r]
      nets_os(1) [of w3 E] nets_os(4) [of w4 E c "sun_path (afun_rdv_addr s)"] nets_os(5) [of w5 E r]
      nets_os(6) [of w6 r]
    by (simp_all add: st)
  show ?thesis
    by (rule steps(1) [THEN nets_trans, OF steps(2) [THEN nets_trans, OF steps(3) [THEN nets_trans,
          OF steps(4) [THEN nets_trans, OF steps(5) [THEN nets_trans, OF steps(6) [THEN nets_trans,
          OF steps(7)]]]]]])
qed

lemma rdv_ok:
  assumes run: "su_shell_session_af_un_rdv E s w = (p, s', w')" and "0 \<le> p" and "fds_ok w"
  shows "nets w w' \<and> 0 < afun_client_fd s' \<and> s' = s\<lparr>afun_client_fd := afun_client_fd s'\<rparr>
    \<and> p \<noteq> afun_client_fd s' \<and> map_of (fds w) p = None \<and> map_of (fds w) (afun_client_fd s') = None
    \<and> map_of (fds w') = (map_of (fds w))(afun_client_fd s' \<mapsto> FConn, p \<mapsto> FPeer)
    \<and> node_at w (sun_path (afun_rdv_addr s)) = None
    \<and> node_at w' = (node_at w)(sun_path (afun_rdv_addr s) \<mapsto> NSock)"
proof -
  obtain r w1 w2 w3 c w4 w5 w6 where st: "os_socket E w = (r, w1)" "r \<noteq> 0"
    "os_bind E r (sun_path (afun_rdv_addr s)) w1 = (0, w2)" "os_listen E r w2 = (0, w3)"
    "os_socket E w3 = (c, w4)" "0 < c" "os_connect E c (sun_path (afun_rdv_addr s)) w4 = (0, w5)"
    "os_accept E r w5 = (p, w6)" "w' = os_close r w6" "s' = s\<lparr>afun_client_fd := c\<rparr>"
    by (rule rdv_stages [OF run assms(2)])
  have nets: "nets w w'" by (rule rdv_nets [OF run assms(2)])
  from os_bind_ok [OF st(3)] have b: "map_of (fds w1) r = Some FSock"
    "node_at w1 (sun_path (afun_rdv_addr s)) = None"
    "map_of (fds w2) = (map_of (fds w1))(r \<mapsto> FBound (sun_path (afun_rdv_addr s)))"
    "node_at w2 = (node_at w1)(sun_path (afun_rdv_addr s) \<mapsto> NSock)" by auto
  have r: "r = lowest_free (fds w)" "fds w1 = (r, FSock) # fds w" "nodes w1 = nodes w"
    using os_socket_ok [OF st(1)] b(1) fds_ok_dom [OF assms(3), of "- 1"] by auto
  from os_listen_ok [OF st(4)] obtain q where l: "map_of (fds w3) = (map_of (fds w2))(r \<mapsto> FListen q)"
    "nodes w3 = nodes w2" by auto
  from os_socket_ok [OF st(5)] st(6) have c: "c = lowest_free (fds w3)" "fds w4 = (c, FSock) # fds w3"
    "nodes w4 = nodes w3" by auto
  from os_connect_ok [OF st(7)] have k: "map_of (fds w5) = (map_of (fds w4))(c \<mapsto> FConn)"
    "nodes w5 = nodes w4" by auto
  from os_accept_ok [OF st(8)] assms(2) have a: "p = lowest_free (fds w5)" "fds w6 = (p, FPeer) # fds w5"
    "nodes w6 = nodes w5" by auto
  have free: "map_of (fds w) r = None" "map_of (fds w3) c = None" "map_of (fds w5) p = None"
    by (simp_all add: r(1) c(1) a(1) lowest_free_None)
  have m3: "map_of (fds w3) = (map_of (fds w))(r \<mapsto> FListen q)"
    using b(3) l(1) r(2) by (simp add: fun_eq_iff)
  have m5: "map_of (fds w5) = (map_of (fds w))(r \<mapsto> FListen q, c \<mapsto> FConn)"
    using m3 k(1) c(2) by (simp add: fun_eq_iff)
  have dist: "c \<noteq> r" "p \<noteq> r" "p \<noteq> c" "map_of (fds w) c = None" "map_of (fds w) p = None"
    using free m3 m5 by (auto split: if_splits)
  have "map_of (fds w') = (map_of (fds w))(c \<mapsto> FConn, p \<mapsto> FPeer)"
    using m5 a(2) dist free(1) by (auto simp: st(9) delete_conv' fun_eq_iff)
  moreover have "node_at w' = (node_at w)(sun_path (afun_rdv_addr s) \<mapsto> NSock)"
    using b(4) l(2) c(3) k(2) a(3) r(3) by (simp add: st(9) node_at_def fun_eq_iff)
  ultimately show ?thesis
    using nets dist st(6,10) b(2) r(3) by (simp add: node_at_def)
qed

text \<open>When the path is taken.\<close>

lemma rdv_stale:
  fixes w :: "'a log_os_scheme"
  assumes taken: "places w (sun_path (afun_rdv_addr s)) \<noteq> None" and ok: "fds_ok w"
    and run: "su_shell_session_af_un_rdv E s w = (p, s', w')"
  shows "p = - 1 \<and> s' = s \<and> places w' = places w \<and> fds_ok w'"
proof -
  let ?path = "sun_path (afun_rdv_addr s)"
  obtain r w1 where 1: "os_socket E w = (r, w1)" by force
  obtain b w2 where 2: "os_bind E r ?path w1 = (b, w2)" by force
  have w1: "nodes w1 = nodes w" "fds w1 = fds w \<or> r = lowest_free (fds w) \<and> fds w1 = (r, FSock) # fds w"
    using os_socket_ok [OF 1] by auto
  then have b: "b = - 1" "fds w2 = fds w1" "nodes w2 = nodes w1"
    using os_bind_ok [OF 2] taken by (auto simp: places_def node_at_def)
  define w3 where "w3 = su_srv_log_perror E ''Failed to setup AF UNIX rendez-vous'' w2"
  have w3: "fds w3 = fds w1" "places w3 = places w2" by (simp_all add: w3_def b(2) log_calls_outside)
  have eq: "p = - 1 \<and> s' = s \<and> w' = (if r = 0 then w1 else os_close r w3)"
    using run b(1) by (auto simp: su_shell_session_af_un_rdv_def Let_def 1 2 simp flip: w3_def)
  have "fds_ok w1" using w1(2) ok lowest_free_nonneg [of "fds w"] by (auto simp: fds_ok_def)
  then have "fds_ok w'" using eq w3(1) by (auto simp: fds_ok_map os_close_def delete_conv')
  moreover have "places w' = places w"
    using eq w3(2) places_same [OF b(3)] places_same [OF w1(1)] places_same [of "os_close r w3" w3]
    by (auto simp: os_close_def)
  ultimately show ?thesis using eq by simp
qed

section \<open>Properties\<close>

text \<open>C15: Creating a session is memory safe for every root below 4 GB and every PID: no
  branch overflows the 108 bytes of \<open>sun_path\<close> or reads the unwritten buffer, and the path
  of the session that results fits with its NUL.\<close>

theorem session_new_safe:
  assumes "int (c_strlen r) + 18 < 2 ^ 32" and "4 \<le> sizeof_ptr E"
  shows "\<exists>res w'. su_shell_session_new E r pid w = Inr (res, w')
    \<and> (\<forall>s. res = Some s \<longrightarrow> int (c_strlen (sun_path (afun_rdv_addr s))) < AF_UNIX_PATH_MAX)"
proof (cases rule: session_new_cases [OF assms, of pid w, case_names none some])
  case (some s w')
  with session_path_length [of r pid] show ?thesis by (simp add: AF_UNIX_PATH_MAX_def)
qed auto

text \<open>Sessions of different owners below the same root get different socket paths, while
  PIDs have at most five digits.\<close>

theorem session_paths_distinct:
  assumes "su_shell_session_new E r p w = Inr (Some s, w1)"
    and "su_shell_session_new E r q v = Inr (Some t, v1)"
    and "0 \<le> p" "p < 100000" "0 \<le> q" "q < 100000" and "p \<noteq> q"
    and size: "int (c_strlen r) + 18 < 2 ^ 32" "4 \<le> sizeof_ptr E"
  shows "sun_path (afun_rdv_addr s) \<noteq> sun_path (afun_rdv_addr t)"
proof -
  have "sun_path (afun_rdv_addr s) = session_path r p"
    using assms(1) by (cases rule: session_new_cases [OF size, of p w, case_names none some]) auto
  moreover have "sun_path (afun_rdv_addr t) = session_path r q"
    using assms(2) by (cases rule: session_new_cases [OF size, of q v, case_names none some]) auto
  ultimately show ?thesis
    using assms(3-7) by (simp add: session_path_exact zpad_inj)
qed

text \<open>With six-digit PIDs the computed width cuts the last digit: two processes whose PIDs
  differ in that digit only get the same socket path.\<close>

theorem session_paths_collide:
  assumes "su_shell_session_new E r p w = Inr (Some s, w1)"
    and "su_shell_session_new E r q v = Inr (Some t, v1)"
    and "100000 \<le> p" "p < 1000000" "100000 \<le> q" "q < 1000000" and "p div 10 = q div 10"
    and size: "int (c_strlen r) + 18 < 2 ^ 32" "4 \<le> sizeof_ptr E"
  shows "sun_path (afun_rdv_addr s) = sun_path (afun_rdv_addr t)"
proof -
  have cut: "session_path r i = cstr r @ ''/var/run/su-'' @ dec (nat (i div 10))"
    if "100000 \<le> i" "i < 1000000" for i
  proof -
    have six: "length (dec (nat i)) = 6" using that length_dec_exact [of 5 "nat i"] by simp
    have five: "length (dec (nat i div 10)) = 5"
      using that length_dec_exact [of 4 "nat i div 10"] by (simp add: less_mult_imp_div_less)
    have "dec (nat i) = dec (nat i div 10) @ [digit (nat i mod 10)]"
      using that by (simp add: dec.simps [of "nat i"])
    with six five have "take 5 (dec (nat i)) = dec (nat i div 10)" by simp
    with that six show ?thesis
      by (simp add: session_path_def zpad_wide length_cstr nat_div_distrib)
  qed
  have "sun_path (afun_rdv_addr s) = session_path r p"
    using assms(1) by (cases rule: session_new_cases [OF size, of p w, case_names none some]) auto
  moreover have "sun_path (afun_rdv_addr t) = session_path r q"
    using assms(2) by (cases rule: session_new_cases [OF size, of q v, case_names none some]) auto
  ultimately show ?thesis using cut assms(3-7) by simp
qed


text \<open>C17: A rendez-vous that returns a peer has connected a fresh client socket of the session to
  it and closed the listening socket; nothing else of the session or of the other
  descriptors changed. The rendez-vous path is new, and is still there.\<close>

theorem rdv_connects:
  assumes "su_shell_session_af_un_rdv E s w = (p, s', w')" and "0 < p" and "fds_ok w"
  shows "\<exists>c > 0. s' = s\<lparr>afun_client_fd := c\<rparr> \<and> c \<noteq> p \<and> map_of (fds w) c = None \<and> map_of (fds w) p = None
    \<and> map_of (fds w') = (map_of (fds w))(c \<mapsto> FConn, p \<mapsto> FPeer) \<and> heap w' = heap w
    \<and> node_at w (sun_path (afun_rdv_addr s)) = None
    \<and> node_at w' = (node_at w)(sun_path (afun_rdv_addr s) \<mapsto> NSock)"
  using rdv_ok [OF assms(1) _ assms(3)] assms(2) nets_frame(1) [of w w']
  by (intro exI [of _ "afun_client_fd s'"]) auto

text \<open>C18: Deleting the session after the peer was closed undoes a rendez-vous: the descriptors and
  the names are those from before, and the blocks of the session are released.\<close>

theorem rdv_undone:
  assumes "su_shell_session_af_un_rdv E s w = (p, s', w')" and "0 < p" and "fds_ok w"
    and "shell_sync_mutex s \<noteq> 0" and "shell_sync_ready s \<noteq> 0" and "block s \<noteq> 0"
  shows "\<exists>w2. su_shell_session_delete s' (os_close p w') = Inr w2
    \<and> map_of (fds w2) = map_of (fds w) \<and> node_at w2 = node_at w \<and> live w2 = live w - session_blocks s"
proof -
  have "0 \<le> p" using assms(2) by simp
  note ok = rdv_ok [OF assms(1) this assms(3)]
  then have s': "s' = s\<lparr>afun_client_fd := afun_client_fd s'\<rparr>" by blast
  then have ptrs: "shell_sync_mutex s' = shell_sync_mutex s" "shell_sync_ready s' = shell_sync_ready s"
    "block s' = block s" "session_blocks s' = session_blocks s" "afun_rdv_addr s' = afun_rdv_addr s"
    by (cases s; cases s'; simp add: session_blocks_def tty_block_def)+
  have "shell_sync_mutex s' \<noteq> 0" "shell_sync_ready s' \<noteq> 0" "block s' \<noteq> 0" using assms(4-6) ptrs by auto
  from session_delete_ok [OF this, of "os_close p w'"] obtain w2 where
    w2: "su_shell_session_delete s' (os_close p w') = Inr w2"
    "live w2 = live (os_close p w') - session_blocks s'"
    "fds w2 = AList.delete (afun_client_fd s') (AList.delete p (fds w'))"
    "\<And>q. node_at w2 q = (if q = sun_path (afun_rdv_addr s') \<and> \<not> is_dir w' q then None else node_at w' q)"
    using ok by (metis os_close_frame(1,5,6))
  have "live (os_close p w') = live w" using ok nets_frame(1) [of w w'] by (simp add: live_def os_close_def)
  moreover have "map_of (fds w2) = map_of (fds w)"
    using ok by (auto simp: w2(3) delete_conv' fun_eq_iff)
  moreover have "node_at w2 = node_at w"
    using ok by (auto simp: w2(4) ptrs is_dir_def fun_eq_iff)
  ultimately show ?thesis using w2(1,2) ptrs by simp
qed

section \<open>Instances\<close>

definition sample_session :: "(su_shell_session option \<times> log_os) c_result" where
  "sample_session = su_shell_session_new sample_env ''/d'' 7 sample_log"

definition the_session :: "(su_shell_session option \<times> 'a) c_result \<Rightarrow> su_shell_session" where
  "the_session res = (case res of Inr (Some s, _) \<Rightarrow> s | _ \<Rightarrow>
     \<lparr>block = 0, owner_pid = 0, pfs_root = [], afun_rdv_addr = \<lparr>sun_family = 0, sun_path = []\<rparr>,
       afun_client_fd = 0, shell_pid = 0, handler_pth = 0, shell_sync_mutex = 0,
       shell_sync_ready = 0, handler_buf = 0, last_tty_read = None, tty_echo = 0,
       shell_cmd_exit_code = 0\<rparr>)"

definition the_world :: "'a os_scheme \<Rightarrow> (su_shell_session option \<times> 'a os_scheme) c_result \<Rightarrow> 'a os_scheme" where
  "the_world w res = (case res of Inr (_, w') \<Rightarrow> w' | Inl _ \<Rightarrow> w)"

definition is_session :: "(su_shell_session option \<times> 'a) c_result \<Rightarrow> bool" where
  "is_session res = (case res of Inr (Some _, _) \<Rightarrow> True | _ \<Rightarrow> False)"

lemma is_session_eq: "is_session res \<Longrightarrow> res = Inr (Some (the_session res), the_world w res)"
  by (cases res) (auto simp: is_session_def the_session_def the_world_def split: option.splits)

lemma sample_session_new:
  obtains s w' where "su_shell_session_new sample_env ''/d'' pid sample_log = Inr (Some s, w')"
    and "shell_sync_mutex s \<noteq> 0" and "shell_sync_ready s \<noteq> 0"
  by (rule session_new_healthy [of sample_env "''/d''" pid sample_log])
    (simp_all add: sample_env_def PTRDIFF_MAX_def healthy_def)

lemma sample_session_ok:
  "is_session (su_shell_session_new sample_env ''/d'' pid sample_log)"
  by (rule sample_session_new [of pid]) (simp add: is_session_def)

theorem session_new_safe_witness:
  "is_session sample_session
   \<and> int (c_strlen (sun_path (afun_rdv_addr (the_session sample_session)))) < AF_UNIX_PATH_MAX"
  using session_new_safe [of "''/d''" sample_env 7 sample_log] sample_session_ok [of 7]
  by (auto simp: sample_session_def is_session_def the_session_def split: option.splits)

theorem session_paths_distinct_witness:
  "sun_path (afun_rdv_addr (the_session sample_session))
   \<noteq> sun_path (afun_rdv_addr (the_session (su_shell_session_new sample_env ''/d'' 8 sample_log)))"
  using session_paths_distinct [OF is_session_eq [OF sample_session_ok, of 7 sample_log]
      is_session_eq [OF sample_session_ok, of 8 sample_log]]
  by (simp add: sample_session_def)

theorem session_paths_collide_witness:
  "sun_path (afun_rdv_addr (the_session (su_shell_session_new sample_env ''/d'' 123450 sample_log)))
   = sun_path (afun_rdv_addr (the_session (su_shell_session_new sample_env ''/d'' 123451 sample_log)))"
  using session_paths_collide [OF is_session_eq [OF sample_session_ok, of 123450 sample_log]
      is_session_eq [OF sample_session_ok, of 123451 sample_log]]
  by simp


definition rdv_session :: su_shell_session where
  "rdv_session = \<lparr>block = 1, owner_pid = 7, pfs_root = ''/d'',
     afun_rdv_addr = \<lparr>sun_family = 1, sun_path = ''/r/s''\<rparr>, afun_client_fd = 0,
     shell_pid = 0, handler_pth = 2, shell_sync_mutex = 4, shell_sync_ready = 5, handler_buf = 3,
     last_tty_read = None, tty_echo = 1, shell_cmd_exit_code = 0\<rparr>"

definition rdv_world :: log_os where
  "rdv_world = \<lparr>tick = 0, errno = 0, brk = 5, heap = [5, 4, 3, 2, 1], nodes = [(''/r'', NDir 448)],
     fds = sample_fds, acts = [], su_srv_log_path = None, su_srv_log_fptr = None\<rparr>"

definition rdv_after :: log_os where
  "rdv_after = snd (snd (su_shell_session_af_un_rdv sample_env rdv_session rdv_world))"

lemma rdv_sample:
  "su_shell_session_af_un_rdv sample_env rdv_session rdv_world =
     (5, rdv_session\<lparr>afun_client_fd := 4\<rparr>, rdv_after)"
proof -
  have "fst (su_shell_session_af_un_rdv sample_env rdv_session rdv_world) = 5"
    "fst (snd (su_shell_session_af_un_rdv sample_env rdv_session rdv_world)) = rdv_session\<lparr>afun_client_fd := 4\<rparr>"
    by code_simp+
  then show ?thesis by (simp add: rdv_after_def prod_eq_iff)
qed

lemma rdv_world_fds: "fds_ok rdv_world"
  by (simp add: fds_ok_def rdv_world_def sample_fds_def)

theorem rdv_connects_witness:
  "map_of (fds rdv_after) 4 = Some FConn \<and> map_of (fds rdv_after) 5 = Some FPeer
   \<and> node_at rdv_after ''/r/s'' = Some NSock"
  using rdv_connects [OF rdv_sample _ rdv_world_fds] by (auto simp: rdv_session_def)

theorem rdv_undone_witness:
  "\<exists>w2. su_shell_session_delete (rdv_session\<lparr>afun_client_fd := 4\<rparr>) (os_close 5 rdv_after) = Inr w2
     \<and> live w2 = {#} \<and> node_at w2 ''/r/s'' = None"
proof -
  have "node_at rdv_world ''/r/s'' = None" "live rdv_world - session_blocks rdv_session = {#}"
    by (simp_all add: node_at_def live_def session_blocks_def tty_block_def rdv_session_def rdv_world_def)
  with rdv_undone [OF rdv_sample _ rdv_world_fds] show ?thesis
    by (auto simp: rdv_session_def)
qed

end
