(* ===== verification/Shell.thy ===== *)
theory Shell
  imports Session
begin

text \<open>
  The shell child process (\<open>jni/su_srv.c\<close>, the static functions): finding the \<open>su\<close> binary,
  forking it onto the peer socket, asking it to exit and reaping it, the signal mask around
  the creation of the handler thread, and dropping the current session.
\<close>

section \<open>The process\<close>

text \<open>
  The globals of the unit on top of those of the log. \<open>su_session\<close> is \<open>_su_session\<close>, with the
  structure it points to; \<open>blocked\<close> is the signal mask of the calling thread and \<open>threads\<close>
  the threads created, each with the block of its handle and the mask it inherited.
\<close>

record process = log_os +
  su_session :: "su_shell_session option"
  SU_SRV_SIGMASK :: "int list"
  blocked :: "int list"
  threads :: "(nat \<times> int list) list"

text \<open>
  What a function that forks may do: return, or have the process become another program,
  with its path, arguments, environment and descriptors.
\<close>

datatype ('r, 'w) run =
    Returns 'r 'w
  | Becomes string "string list" "string list" "(int \<times> fdesc) list"

section \<open>Constants\<close>

text \<open>The tables of the two builds; the array of candidates ends with a null pointer in both.\<close>

definition SU_SHELL_BINARY_CANDIDATES :: "env \<Rightarrow> string option list" where
  "SU_SHELL_BINARY_CANDIDATES E =
     (if SU_SRV_TEST_BUILD E then
        [Some ''/bin/bash'', Some ''/sbin/su'', Some ''/usr/bin/su'', Some ''/usr/sbin/su'', None]
      else
        [Some ''/sbin/su'', Some ''/system/sbin/su'', Some ''/system/bin/su'',
         Some ''/system/xbin/su'', None])"

definition SU_SHELL_ENVIRONMENT :: "env \<Rightarrow> string list" where
  "SU_SHELL_ENVIRONMENT E =
     (if SU_SRV_TEST_BUILD E then []
      else [''PATH=/sbin:/vendor/bin:/system/sbin:/system/bin:/system/xbin''])"

definition SU_SRV_EXIT_CMD :: string where "SU_SRV_EXIT_CMD = ''exit''"
definition WAIT_CHILD_MAX_RETRY :: nat where "WAIT_CHILD_MAX_RETRY = 3"
definition WAIT_CHILD_SLEEP_NSEC :: int where "WAIT_CHILD_SLEEP_NSEC = 250000000"
definition WAIT_CHILD_SLEEP_SEC :: int where "WAIT_CHILD_SLEEP_SEC = 1"
definition SIGKILL :: int where "SIGKILL = 9"
definition SIGCHLD :: int where "SIGCHLD = 17"

section \<open>Finding the binary\<close>

text \<open>\<open>stat\<close> on a pointer: the kernel answers \<open>EFAULT\<close> to the null pointer.\<close>

definition stat_ptr :: "env \<Rightarrow> string option \<Rightarrow> 'a os_scheme \<Rightarrow> int \<times> 'a os_scheme" where
  "stat_ptr E p w = (case p of None \<Rightarrow> fail EFAULT w | Some path \<Rightarrow> os_stat E path w)"

definition sizeof_candidates :: "env \<Rightarrow> nat" where
  "sizeof_candidates E = length (SU_SHELL_BINARY_CANDIDATES E) * sizeof_ptr E"

text \<open>
  The loop of \<open>find_su_binary\<close> from index \<open>c\<close>: its bound is the size of the array in bytes,
  and each pass reads the entry at \<open>c\<close>.
\<close>

function find_su_loop :: "env \<Rightarrow> nat \<Rightarrow> 'a os_scheme \<Rightarrow> (nat \<times> 'a os_scheme) c_result" where
  "find_su_loop E c w =
     (if c < sizeof_candidates E then
        if length (SU_SHELL_BINARY_CANDIDATES E) \<le> c then Inl OutOfBounds
        else
          let (missing, w) = stat_ptr E (SU_SHELL_BINARY_CANDIDATES E ! c) w
          in if missing \<noteq> 0 then find_su_loop E (Suc c) w else Inr (Suc c, w)
      else Inr (c, w))"
  by pat_completeness auto
termination by (relation "measure (\<lambda>(E, c, w). sizeof_candidates E - c)") auto

declare find_su_loop.simps [simp del]

definition find_su_binary :: "env \<Rightarrow> 'a os_scheme \<Rightarrow> (string option \<times> 'a os_scheme) c_result" where
  "find_su_binary E w =
     (case find_su_loop E 0 w of
        Inl fault \<Rightarrow> Inl fault
      | Inr (c, w) \<Rightarrow>
          if c = sizeof_candidates E then Inr (None, w)
          else Inr (SU_SHELL_BINARY_CANDIDATES E ! (c - 1), w))"

section \<open>Starting the shell\<close>

text \<open>\<open>dup2\<close> onto another open descriptor; a descriptor that is not open is left alone.\<close>

definition os_dup2 :: "int \<Rightarrow> int \<Rightarrow> 'a os_scheme \<Rightarrow> 'a os_scheme" where
  "os_dup2 old new w =
     (case map_of (fds w) old of
        None \<Rightarrow> w\<lparr>errno := EBADF\<rparr>
      | Some d \<Rightarrow> w\<lparr>fds := AList.update new d (fds w)\<rparr>)"

text \<open>\<open>fork\<close> as the calling side sees it: a negative value, 0 in the child, the PID in the parent.\<close>

definition os_fork :: "env \<Rightarrow> 'a os_scheme \<Rightarrow> int \<times> 'a os_scheme" where
  "os_fork E w =
     (let t = tick w; (e, w) = ask E Fork w
      in if e \<noteq> 0 then fail e w else (int (fork_ret E t), w))"

definition shell_start_process ::
  "env \<Rightarrow> int \<Rightarrow> su_shell_session \<Rightarrow> 'a log_os_scheme
     \<Rightarrow> (int \<times> su_shell_session, 'a log_os_scheme) run c_result" where
  "shell_start_process E fd session w =
     (case find_su_binary E w of
        Inl fault \<Rightarrow> Inl fault
      | Inr (None, w) \<Rightarrow>
          let w = su_srv_log_printf ''Failed to locate any suitable su binary'' [] w
          in Inr (Returns (SU_SRV_SYSTEM_ERR, session) w)
      | Inr (Some su_binary, w) \<Rightarrow>
          let w = su_srv_log_printf ''Found system SU binary: %s'' [FStr su_binary] w;
              (pid, w) = os_fork E w
          in if pid < 0 then
               let w = su_srv_log_perror E ''Failed to fork()'' w
               in Inr (Returns (SU_SRV_SYSTEM_ERR, session) w)
             else if pid = 0 then
               let w = os_dup2 fd 0 w;
                   w = os_dup2 0 1 w;
                   (e, w) = ask E (Execve su_binary) w
               in if e = 0
                  then Inr (Becomes su_binary [su_binary] (SU_SHELL_ENVIRONMENT E) (fds w))
                  else Inr (Returns (0, session) (w\<lparr>errno := e\<rparr>))
             else Inr (Returns (0, session\<lparr>shell_pid := pid\<rparr>) w))"

section \<open>Stopping the shell\<close>

text \<open>The parameter is a pointer; the first access follows the call that logs the command.\<close>

definition shell_try_exit_command ::
  "su_shell_session option \<Rightarrow> 'a log_os_scheme \<Rightarrow> 'a log_os_scheme c_result" where
  "shell_try_exit_command session w =
     (let w = su_srv_log_cmdstr SU_SRV_EXIT_CMD w
      in case session of
           None \<Rightarrow> Inl NullDeref
         | Some s \<Rightarrow>
             let w = os_write (afun_client_fd s) SU_SRV_EXIT_CMD w;
                 w = os_write (afun_client_fd s) [LF] w
             in Inr w)"

definition act :: "act \<Rightarrow> 'a os_scheme \<Rightarrow> 'a os_scheme" where
  "act a w = w\<lparr>acts := acts w @ [a]\<rparr>"

text \<open>\<open>waitpid(pid, _, WNOHANG)\<close>\<close>

definition os_waitpid :: "env \<Rightarrow> int \<Rightarrow> 'a os_scheme \<Rightarrow> int \<times> 'a os_scheme" where
  "os_waitpid E pid w =
     (let t = tick w; (e, w) = ask E (Waitpid pid) (act (AWaitpid pid) w)
      in if e \<noteq> 0 then fail e w else (wait_ret E pid t, w))"

text \<open>The loop of \<open>shell_stop_process\<close>, entered with \<open>waited = 0\<close>; it returns the last \<open>waited\<close>.\<close>

function stop_loop :: "env \<Rightarrow> int \<Rightarrow> nat \<Rightarrow> 'a log_os_scheme \<Rightarrow> int \<times> 'a log_os_scheme" where
  "stop_loop E pid again w =
     (if again < WAIT_CHILD_MAX_RETRY then
        let (waited, w) = os_waitpid E pid w
        in if waited = 0 then
             let w = (if again = 0 then
                        let w = su_srv_log_printf ''EAGAIN: kill(%d, SIGKILL)'' [FInt pid] w
                        in act (AKill pid SIGKILL) w
                      else w);
                 w = act (ASleep WAIT_CHILD_SLEEP_SEC) w;
                 w = su_srv_log_printf ''EAGAIN: sleep ...'' [] w
             in stop_loop E pid (Suc again) w
           else if waited < 0 then (waited, su_srv_log_perror E ''Failed to waitpid()'' w)
           else (waited, w)
      else (0, w))"
  by pat_completeness auto
termination by (relation "measure (\<lambda>(E, pid, again, w). WAIT_CHILD_MAX_RETRY - again)") auto

declare stop_loop.simps [simp del]

text \<open>The exit command goes to the current session, the wait is for the session given.\<close>

definition shell_stop_process ::
  "env \<Rightarrow> su_shell_session \<Rightarrow> 'a process_scheme \<Rightarrow> (int \<times> 'a process_scheme) c_result" where
  "shell_stop_process E session w =
     (case shell_try_exit_command (su_session w) w of
        Inl fault \<Rightarrow> Inl fault
      | Inr w \<Rightarrow>
          let w = act (ANanosleep 0 WAIT_CHILD_SLEEP_NSEC) w;
              (waited, w) = stop_loop E (shell_pid session) 0 w
          in Inr (if waited = shell_pid session then 0 else - 1, w))"

section \<open>The handler thread and the current session\<close>

definition pth_block_sigchld :: "'a process_scheme \<Rightarrow> int \<times> 'a process_scheme" where
  "pth_block_sigchld w =
     (0, w\<lparr>SU_SRV_SIGMASK := blocked w, blocked := List.insert SIGCHLD (blocked w)\<rparr>)"

definition pth_unblock_sigchld :: "'a process_scheme \<Rightarrow> int \<times> 'a process_scheme" where
  "pth_unblock_sigchld w = (0, w\<lparr>blocked := SU_SRV_SIGMASK w\<rparr>)"

text \<open>\<open>pthread_create\<close> stores the handle through its first argument.\<close>

definition os_pthread_create :: "env \<Rightarrow> nat \<Rightarrow> 'a process_scheme \<Rightarrow> (int \<times> 'a process_scheme) c_result" where
  "os_pthread_create E p w =
     (let (e, w) = ask E PthreadCreate w
      in if e \<noteq> 0 then Inr (e, w)
         else if p = 0 then Inl NullDeref
         else Inr (0, w\<lparr>threads := (p, blocked w) # threads w\<rparr>))"

definition create_handler_thread ::
  "env \<Rightarrow> su_shell_session \<Rightarrow> 'a process_scheme \<Rightarrow> (int \<times> 'a process_scheme) c_result" where
  "create_handler_thread E session w =
     (let w = snd (pth_block_sigchld w)
      in case os_pthread_create E (handler_pth session) w of
           Inl fault \<Rightarrow> Inl fault
         | Inr (pth, w) \<Rightarrow> let w = snd (pth_unblock_sigchld w) in Inr (pth, w))"

definition invalidate_current_session :: "'a process_scheme \<Rightarrow> 'a process_scheme c_result" where
  "invalidate_current_session w =
     (let session = su_session w; w = w\<lparr>su_session := None\<rparr>
      in case session of
           None \<Rightarrow> Inl NullDeref
         | Some s \<Rightarrow> su_shell_session_delete s w)"

section \<open>The search\<close>

definition su_paths :: "env \<Rightarrow> string list" where
  "su_paths E = map the (butlast (SU_SHELL_BINARY_CANDIDATES E))"

lemma candidates_paths: "SU_SHELL_BINARY_CANDIDATES E = map Some (su_paths E) @ [None]"
  by (simp add: SU_SHELL_BINARY_CANDIDATES_def su_paths_def)

lemma length_candidates [simp]:
  "length (SU_SHELL_BINARY_CANDIDATES E) = 5" "length (su_paths E) = 4"
  by (simp_all add: SU_SHELL_BINARY_CANDIDATES_def su_paths_def)

lemma sample_su_paths [simp]:
  "su_paths sample_env = [''/sbin/su'', ''/system/sbin/su'', ''/system/bin/su'', ''/system/xbin/su'']"
  by (simp add: su_paths_def SU_SHELL_BINARY_CANDIDATES_def sample_env_def)

lemma find_su_loop_cases:
  assumes "drop c (SU_SHELL_BINARY_CANDIDATES E) = map Some ps @ [None]" and "2 \<le> sizeof_ptr E"
  shows "(\<exists>i w'. i < length ps \<and> find_su_loop E c w = Inr (Suc (c + i), w') \<and> quiet w w'
      \<and> nodes w' = nodes w \<and> node_at w (ps ! i) \<noteq> None
      \<and> (healthy E \<longrightarrow> (\<forall>j < i. node_at w (ps ! j) = None)))
    \<or> (find_su_loop E c w = Inl OutOfBounds \<and> (healthy E \<longrightarrow> (\<forall>p \<in> set ps. node_at w p = None)))"
  using assms
proof (induction ps arbitrary: c w)
  case Nil
  then have "c < 5" "SU_SHELL_BINARY_CANDIDATES E ! c = None" "length (drop c (SU_SHELL_BINARY_CANDIDATES E)) = 1"
    using nth_via_drop [of c "SU_SHELL_BINARY_CANDIDATES E" None "[]"] by (cases "c < 5"; simp)+
  then have "c = 4" by simp
  have "SU_SHELL_BINARY_CANDIDATES E ! 4 = None" by (simp add: SU_SHELL_BINARY_CANDIDATES_def)
  with \<open>c = 4\<close> Nil.prems(2) show ?case
    by (simp add: find_su_loop.simps [of E 4 w] find_su_loop.simps [of E 5] stat_ptr_def fail_def
        sizeof_candidates_def)
next
  case (Cons p ps)
  from Cons.prems(1) have c: "c < 5" "SU_SHELL_BINARY_CANDIDATES E ! c = Some p"
    using nth_via_drop [of c "SU_SHELL_BINARY_CANDIDATES E" "Some p"] by (cases "c < 5"; simp)+
  obtain m w1 where st: "os_stat E p w = (m, w1)" by force
  have w1: "quiet w w1" "nodes w1 = nodes w" "node_at w1 = node_at w"
    using quiet_stat [of w E p] os_stat_nodes [of E p w] by (simp_all add: st fun_eq_iff)
  have unf: "find_su_loop E c w = (if m \<noteq> 0 then find_su_loop E (Suc c) w1 else Inr (Suc c, w1))"
    using c Cons.prems(2) by (simp add: find_su_loop.simps [of E c w] sizeof_candidates_def stat_ptr_def st)
  show ?case
  proof (cases "m = 0")
    case True
    with os_stat_present [of E p w] st unf w1 show ?thesis by (intro disjI1 exI [of _ 0]) auto
  next
    case False
    with healthy_stat [of E p w] st have missing: "healthy E \<longrightarrow> node_at w p = None" by auto
    from Cons.prems(1) have "drop (Suc c) (SU_SHELL_BINARY_CANDIDATES E) = map Some ps @ [None]"
      by (simp add: drop_Suc flip: tl_drop)
    from Cons.IH [OF this Cons.prems(2), of w1] show ?thesis
    proof (elim disjE exE conjE)
      fix i w'
      assume "i < length ps" "find_su_loop E (Suc c) w1 = Inr (Suc (Suc c + i), w')" "quiet w1 w'"
        "nodes w' = nodes w1" "node_at w1 (ps ! i) \<noteq> None"
        "healthy E \<longrightarrow> (\<forall>j < i. node_at w1 (ps ! j) = None)"
      with unf False w1 missing show ?thesis
        by (intro disjI1 exI [of _ "Suc i"] exI [of _ w'])
          (auto simp: nth_Cons less_Suc_eq_0_disj split: nat.splits intro: quiet_trans)
    qed (use unf False w1 missing in auto)
  qed
qed

lemma find_su_binary_cases:
  assumes "2 \<le> sizeof_ptr E"
  obtains (found) i w' where "i < 4" and "find_su_binary E w = Inr (Some (su_paths E ! i), w')"
      and "quiet w w'" and "nodes w' = nodes w" and "node_at w (su_paths E ! i) \<noteq> None"
      and "healthy E \<longrightarrow> (\<forall>j < i. node_at w (su_paths E ! j) = None)"
  | (none) "find_su_binary E w = Inl OutOfBounds"
      and "healthy E \<longrightarrow> (\<forall>p \<in> set (su_paths E). node_at w p = None)"
proof -
  have "drop 0 (SU_SHELL_BINARY_CANDIDATES E) = map Some (su_paths E) @ [None]"
    by (simp add: candidates_paths)
  from find_su_loop_cases [OF this assms, of w] show thesis
  proof (elim disjE exE conjE)
    fix i w'
    assume *: "i < length (su_paths E)" "find_su_loop E 0 w = Inr (Suc (0 + i), w')" "quiet w w'"
      "nodes w' = nodes w" "node_at w (su_paths E ! i) \<noteq> None"
      "healthy E \<longrightarrow> (\<forall>j < i. node_at w (su_paths E ! j) = None)"
    then have "find_su_binary E w = Inr (Some (su_paths E ! i), w')"
      using assms by (auto simp: find_su_binary_def sizeof_candidates_def candidates_paths nth_append)
    with * show thesis by (intro found [of i w']) auto
  qed (use none in \<open>auto simp: find_su_binary_def\<close>)
qed

lemma find_Some_nth:
  "i < length xs \<Longrightarrow> P (xs ! i) \<Longrightarrow> \<forall>j < i. \<not> P (xs ! j) \<Longrightarrow> List.find P xs = Some (xs ! i)"
  by (auto simp: find_Some_iff)

section \<open>The wait\<close>

text \<open>
  What the \<open>t\<close>-th request answers when it is the \<open>waitpid\<close>, the answers a loop of at most
  \<open>n\<close> polls sees from there, and what the system sees of it.
\<close>

definition poll :: "env \<Rightarrow> int \<Rightarrow> nat \<Rightarrow> int" where
  "poll E pid t = (if fails E (Waitpid pid) t \<noteq> 0 then - 1 else wait_ret E pid t)"

fun polls :: "env \<Rightarrow> int \<Rightarrow> nat \<Rightarrow> nat \<Rightarrow> int list" where
  "polls E pid t 0 = []"
| "polls E pid t (Suc n) =
     (if poll E pid t = 0 then 0 # polls E pid (Suc t) n else [poll E pid t])"

fun stop_script :: "int \<Rightarrow> nat \<Rightarrow> int list \<Rightarrow> act list" where
  "stop_script pid again [] = []"
| "stop_script pid again (x # xs) =
     AWaitpid pid #
     (if x = 0 then (if again = 0 then [AKill pid SIGKILL] else []) @ [ASleep 1] else []) @
     stop_script pid (Suc again) xs"

lemma act_frame [simp]:
  "acts (act a w) = acts w @ [a]" "fds (act a w) = fds w" "tick (act a w) = tick w"
  "heap (act a w) = heap w" "nodes (act a w) = nodes w" "os.more (act a w) = os.more w"
  by (simp_all add: act_def)

lemma log_fd_act [simp]: "log_fd (act a w) = log_fd w" "calm (act a w) = calm w"
  by (simp_all add: act_def log_fd_def calm_def)

text \<open>A run that changed the log, the clock, \<open>errno\<close> and the visible actions only.\<close>

definition waits :: "'a log_os_scheme \<Rightarrow> 'a log_os_scheme \<Rightarrow> bool" where
  "waits w w' \<longleftrightarrow> w' = w\<lparr>tick := tick w', errno := errno w', acts := acts w', nodes := nodes w',
       su_srv_log_fptr := su_srv_log_fptr w'\<rparr>
     \<and> log_fd w' = log_fd w \<and> places w' = places w"

lemma waits_refl [simp]: "waits w w"
  by (simp add: waits_def)

lemma waits_trans [trans]: "waits u v \<Longrightarrow> waits v w \<Longrightarrow> waits u w"
  unfolding waits_def by (cases u; cases v; cases w) simp

lemma waits_logs: "logs w w' \<Longrightarrow> waits w w'"
  unfolding waits_def logs_def by (cases w; cases w') simp

lemma waits_frame:
  "waits w w' \<Longrightarrow> fds w' = fds w" "waits w w' \<Longrightarrow> heap w' = heap w" "waits w w' \<Longrightarrow> log_fd w' = log_fd w"
  "waits w w' \<Longrightarrow> log_os.more w' = log_os.more w" "waits w w' \<Longrightarrow> places w' = places w"
  "waits w w' \<Longrightarrow> su_srv_log_path w' = su_srv_log_path w" "waits w w' \<Longrightarrow> brk w' = brk w"
  unfolding waits_def by (cases w; cases w'; simp)+

lemma waits_calm: "waits w w' \<Longrightarrow> calm w' = calm w"
  by (simp add: calm_def waits_frame)

lemma waits_act [simp]: "waits w (act a w)"
  using places_same [of "act a w" w] by (simp add: waits_def act_def log_fd_def)

lemma waits_waitpid [simp]: "waits w (snd (os_waitpid E pid w))"
  using places_same [of "snd (os_waitpid E pid w)" w]
  by (simp add: waits_def os_waitpid_def ask_def act_def fail_def log_fd_def split: if_splits)

lemma os_waitpid_eq:
  "fst (os_waitpid E pid w) = poll E pid (tick w)"
  "acts (snd (os_waitpid E pid w)) = acts w @ [AWaitpid pid]"
  "tick (snd (os_waitpid E pid w)) = Suc (tick w)"
  by (simp_all add: os_waitpid_def poll_def ask_def fail_def act_def)

lemma stop_loop_script:
  assumes "calm w"
  shows "waits w (snd (stop_loop E pid again w))
    \<and> acts (snd (stop_loop E pid again w)) =
       acts w @ stop_script pid again (polls E pid (tick w) (3 - again))
    \<and> fst (stop_loop E pid again w) =
       (if again < 3 then last (polls E pid (tick w) (3 - again)) else 0)"
  using assms
proof (induction "3 - again" arbitrary: again w)
  case 0
  then show ?case by (simp add: stop_loop.simps WAIT_CHILD_MAX_RETRY_def)
next
  case (Suc n)
  obtain x w1 where wp: "os_waitpid E pid w = (x, w1)" by force
  have w1: "waits w w1" "x = poll E pid (tick w)" "acts w1 = acts w @ [AWaitpid pid]"
    "tick w1 = Suc (tick w)"
    using waits_waitpid [of w E pid] os_waitpid_eq [of E pid w] by (simp_all add: wp)
  have lt: "again < 3" "3 - again = Suc (3 - Suc again)" "n = 3 - Suc again" using Suc.hyps(2) by auto
  define k where "k = (if again = 0 then
      act (AKill pid SIGKILL) (su_srv_log_printf ''EAGAIN: kill(%d, SIGKILL)'' [FInt pid] w1) else w1)"
  define w2 where "w2 = su_srv_log_printf ''EAGAIN: sleep ...'' [] (act (ASleep 1) k)"
  have unf: "stop_loop E pid again w =
     (if x = 0 then stop_loop E pid (Suc again) w2
      else if x < 0 then (x, su_srv_log_perror E ''Failed to waitpid()'' w1) else (x, w1))"
    using lt by (simp add: stop_loop.simps [of E pid again] WAIT_CHILD_MAX_RETRY_def wp k_def w2_def
        WAIT_CHILD_SLEEP_SEC_def Let_def)
  have c: "calm w" "calm w1" using Suc.prems w1(1) by (simp_all add: waits_calm)
  note lp = log_calls_logs(1) [OF c(2), of "''EAGAIN: kill(%d, SIGKILL)''" "[FInt pid]"]
  have k: "waits w1 k" "tick k = tick w1" "acts k = acts w1 @ (if again = 0 then [AKill pid SIGKILL] else [])"
    using waits_trans [OF waits_logs [OF lp] waits_act] logs_frame(2,3) [OF lp] by (simp_all add: k_def)
  have ck: "calm (act (ASleep 1) k)" using k(1) c by (simp add: waits_calm)
  note l2 = log_calls_logs(1) [OF ck, of "''EAGAIN: sleep ...''" "[]", folded w2_def]
  have w2: "waits w w2" "tick w2 = Suc (tick w)"
    "acts w2 = acts w @ AWaitpid pid # (if again = 0 then [AKill pid SIGKILL] else []) @ [ASleep 1]"
    using waits_trans [OF w1(1) waits_trans [OF k(1) waits_trans [OF waits_act waits_logs [OF l2]]]]
      logs_frame(2,3) [OF l2] k w1 by simp_all
  have c2: "calm w2" using w2(1) c by (simp add: waits_calm)
  note lx = log_calls_logs(2) [OF c(2), of E "''Failed to waitpid()''"]
  show ?case
  proof (cases "x = 0")
    case True
    moreover have "polls E pid (Suc (tick w)) (3 - Suc again) \<noteq> [] \<longleftrightarrow> Suc again < 3"
      by (cases "3 - Suc again") auto
    moreover note Suc.hyps(1) [OF lt(3) c2]
    ultimately show ?thesis
      unfolding lt(2) using unf w2 w1(2) lt(1) waits_trans [OF w2(1)] by auto
  next
    case False
    then show ?thesis
      unfolding lt(2) using unf w1 lt(1) logs_frame(2) [OF lx] waits_trans [OF w1(1) waits_logs [OF lx]]
      by auto
  qed
qed

lemma exit_command:
  assumes "calm w" and "map_of (fds w) (afun_client_fd s) = Some FConn"
  obtains w' where "shell_try_exit_command (Some s) w = Inr w'" and "waits w w'" and "tick w' = tick w"
    and "acts w' = acts w @ [ASend (afun_client_fd s) ''exit'', ASend (afun_client_fd s) [LF]]"
proof -
  let ?w1 = "su_srv_log_cmdstr ''exit'' w" and ?fd = "afun_client_fd s"
  note l = log_calls_logs(3) [OF assms(1), of "''exit''"]
  have fd: "map_of (fds ?w1) ?fd = Some FConn" using l assms(2) by (simp add: logs_frame)
  show thesis
  proof
    show "shell_try_exit_command (Some s) w = Inr (act (ASend ?fd [LF]) (act (ASend ?fd ''exit'') ?w1))"
      using fd by (simp add: shell_try_exit_command_def SU_SRV_EXIT_CMD_def os_write_def act_def Let_def)
    show "waits w (act (ASend ?fd [LF]) (act (ASend ?fd ''exit'') ?w1))"
      by (rule waits_trans [OF waits_logs [OF l] waits_trans [OF waits_act waits_act]])
  qed (simp_all add: logs_frame [OF l])
qed

lemma last_polls:
  "0 < n \<Longrightarrow> p \<noteq> 0 \<Longrightarrow>
   last (polls E pid t n) = p \<longleftrightarrow> (\<exists>i < n. poll E pid (t + i) = p \<and> (\<forall>j < i. poll E pid (t + j) = 0))"
proof (induction n arbitrary: t)
  case 0
  then show ?case by simp
next
  case (Suc n)
  show ?case
  proof (cases "poll E pid t = 0")
    case False
    then have "i = 0" if "\<forall>j < i. poll E pid (t + j) = 0" for i
      using that by (cases i) auto
    with False show ?thesis
      by (metis (no_types, lifting) add_0_right last.simps not_less_zero polls.simps(2) zero_less_Suc)
  next
    case True
    have shift: "(\<exists>i < Suc n. Q i) \<longleftrightarrow> Q 0 \<or> (\<exists>i < n. Q (Suc i))" for Q
      by (metis less_Suc_eq_0_disj)
    have all: "(\<forall>j < Suc i. Q j) \<longleftrightarrow> Q 0 \<and> (\<forall>j < i. Q (Suc j))" for i Q
      by (metis less_Suc_eq_0_disj)
    show ?thesis
    proof (cases n)
      case 0
      with True Suc.prems show ?thesis by auto
    next
      case (Suc m)
      with True Suc.IH [of "Suc t"] Suc.prems show ?thesis
        unfolding shift all by (simp add: last_ConsR)
    qed
  qed
qed

lemma stop_script_bounds:
  "length (filter (\<lambda>a. a = AWaitpid pid) (stop_script pid k xs)) = length xs"
  "length (filter (\<lambda>a. a = ASleep 1) (stop_script pid k xs)) \<le> length xs"
  "filter (\<lambda>a. case a of AKill _ _ \<Rightarrow> True | _ \<Rightarrow> False) (stop_script pid k xs) =
     (if k = 0 \<and> xs \<noteq> [] \<and> hd xs = 0 then [AKill pid SIGKILL] else [])"
  by (induction pid k xs rule: stop_script.induct) auto

lemma polls_length: "length (polls E pid t n) \<le> n"
  by (induction n arbitrary: t) (simp_all add: le_SucI)

lemma stop_process_run:
  fixes w :: "'a process_scheme"
  assumes "calm w" and "su_session w = Some cur"
    and "map_of (fds w) (afun_client_fd cur) = Some FConn"
  obtains w' where "shell_stop_process E s w =
      Inr (if last (polls E (shell_pid s) (tick w) 3) = shell_pid s then 0 else - 1, w')"
    and "waits w w'"
    and "acts w' = acts w @ [ASend (afun_client_fd cur) ''exit'', ASend (afun_client_fd cur) [LF],
         ANanosleep 0 250000000] @ stop_script (shell_pid s) 0 (polls E (shell_pid s) (tick w) 3)"
proof -
  obtain w1 where w1: "shell_try_exit_command (Some cur) w = Inr w1" "waits w w1" "tick w1 = tick w"
    "acts w1 = acts w @ [ASend (afun_client_fd cur) ''exit'', ASend (afun_client_fd cur) [LF]]"
    by (rule exit_command [OF assms(1,3)])
  let ?w2 = "act (ANanosleep 0 250000000) w1"
  have c: "calm ?w2" using assms(1) w1(2) by (simp add: waits_calm)
  note loop = stop_loop_script [OF c, of E "shell_pid s" 0]
  have "waits w (snd (stop_loop E (shell_pid s) 0 ?w2))"
    using waits_trans [OF w1(2) waits_trans [OF waits_act]] loop by blast
  with that loop w1 assms(2) show thesis
    by (simp add: shell_stop_process_def WAIT_CHILD_SLEEP_NSEC_def split_beta)
qed

text \<open>Unbinding and deleting a session that has its synchronisation objects.\<close>

lemma process_more:
  fixes w :: "'a process_scheme"
  assumes "os.more w' = os.more w"
  shows "su_session w' = su_session w" "su_srv_log_fptr w' = su_srv_log_fptr w"
    "su_srv_log_path w' = su_srv_log_path w" "threads w' = threads w"
  using assms by (cases w; cases w'; simp)+

lemma invalidate_run:
  fixes w :: "'a process_scheme"
  assumes "su_session w = Some s" and "shell_sync_mutex s \<noteq> 0" and "shell_sync_ready s \<noteq> 0"
    and "block s \<noteq> 0"
  obtains w' where "invalidate_current_session w = Inr w'" and "su_session w' = None"
    and "live w' = live w - session_blocks s"
    and "fds w' = (if afun_client_fd s > 0 then AList.delete (afun_client_fd s) (fds w) else fds w)"
    and "\<And>q. node_at w' q =
      (if afun_client_fd s > 0 \<and> q = sun_path (afun_rdv_addr s) \<and> \<not> is_dir w q then None
       else node_at w q)"
    and "acts w' = acts w" and "su_srv_log_fptr w' = su_srv_log_fptr w" and "threads w' = threads w"
proof -
  let ?w = "w\<lparr>su_session := None\<rparr>"
  have same: "live ?w = live w" "is_dir ?w q = is_dir w q" "node_at ?w q = node_at w q" for q
    by (simp_all add: live_def is_dir_def node_at_def)
  from session_delete_ok [OF assms(2-4), of ?w] obtain w' where w': "su_shell_session_delete s ?w = Inr w'"
    "live w' = live ?w - session_blocks s"
    "fds w' = (if afun_client_fd s > 0 then AList.delete (afun_client_fd s) (fds ?w) else fds ?w)"
    "\<And>q. node_at w' q =
      (if afun_client_fd s > 0 \<and> q = sun_path (afun_rdv_addr s) \<and> \<not> is_dir ?w q then None
       else node_at ?w q)"
    "os.more w' = os.more ?w" "acts w' = acts ?w" by metis
  show thesis
  proof (rule that [of w'])
    show "node_at w' q = (if afun_client_fd s > 0 \<and> q = sun_path (afun_rdv_addr s) \<and> \<not> is_dir w q
        then None else node_at w q)" for q
      using w'(4) [of q] by (simp only: same)
  qed (use w'(1-3,6) process_more [OF w'(5)] assms(1) in
      \<open>simp_all add: invalidate_current_session_def same\<close>)
qed

section \<open>Properties\<close>

text \<open>In an environment that lets every \<open>stat\<close> through, \<open>find_su_binary\<close> answers the first
  of \<open>/sbin/su\<close>, \<open>/system/sbin/su\<close>, \<open>/system/bin/su\<close>, \<open>/system/xbin/su\<close> that exists, and
  changes no file.\<close>

theorem find_su_first:
  assumes "healthy E" and "2 \<le> sizeof_ptr E" and "\<exists>p \<in> set (su_paths E). node_at w p \<noteq> None"
  shows "\<exists>w'. find_su_binary E w = Inr (List.find (\<lambda>p. node_at w p \<noteq> None) (su_paths E), w')
    \<and> nodes w' = nodes w \<and> fds w' = fds w"
proof (cases rule: find_su_binary_cases [OF assms(2), of w, case_names found none])
  case (found i w')
  moreover from this assms(1) have "List.find (\<lambda>p. node_at w p \<noteq> None) (su_paths E) = Some (su_paths E ! i)"
    by (intro find_Some_nth) auto
  ultimately show ?thesis by (auto simp: quiet_frame)
qed (use assms in auto)

text \<open>C37: When none of the candidates exists, \<open>find_su_binary\<close> does not answer the null
  pointer: its bound counts bytes, not entries, and the loop reads past the end of the
  array. On no input does it answer the null pointer.\<close>

theorem find_su_overruns:
  assumes "2 \<le> sizeof_ptr E"
  shows "((\<forall>p \<in> set (su_paths E). node_at w p = None) \<longrightarrow> find_su_binary E w = Inl OutOfBounds)
    \<and> find_su_binary E w \<noteq> Inr (None, w')"
  by (cases rule: find_su_binary_cases [OF assms, of w, case_names found none])
    (auto simp: in_set_conv_nth all_set_conv_all_nth)

text \<open>C33: The child that becomes the shell runs one of the candidates with its path as the only
  argument; its standard input and output are the peer socket, and it keeps every other
  descriptor of the process, standard error among them.\<close>

theorem shell_child_descriptors:
  assumes "shell_start_process E fd s w = Inr (Becomes path argv envp t)"
    and "map_of (fds w) fd = Some d" and "calm w" and "2 \<le> sizeof_ptr E"
  shows "path \<in> set (su_paths E) \<and> argv = [path] \<and> envp = SU_SHELL_ENVIRONMENT E
    \<and> map_of t 0 = Some d \<and> map_of t 1 = Some d \<and> (\<forall>n. n \<notin> {0, 1} \<longrightarrow> map_of t n = map_of (fds w) n)"
proof (cases rule: find_su_binary_cases [OF assms(4), of w, case_names found none])
  case (found i w1)
  define w2 where "w2 = su_srv_log_printf ''Found system SU binary: %s'' [FStr (su_paths E ! i)] w1"
  have c1: "calm w1" "fds w1 = fds w"
    using assms(3) found(3) by (simp_all add: calm_def log_fd_def quiet_frame quiet_log)
  have w2: "fds w2 = fds w" using logs_frame(1) [OF log_calls_logs(1) [OF c1(1)]] c1(2) by (simp add: w2_def)
  have fork: "fds (snd (os_fork E w2)) = fds w" using w2 by (simp add: os_fork_def ask_def fail_def)
  define w3 where "w3 = os_dup2 0 1 (os_dup2 fd 0 (snd (os_fork E w2)))"
  have eq: "path = su_paths E ! i" "argv = [path]" "envp = SU_SHELL_ENVIRONMENT E" "t = fds w3"
    using assms(1) found(2)
    by (auto simp: shell_start_process_def Let_def split_beta w3_def simp flip: w2_def split: if_splits)
  have "fds w3 = AList.update 1 d (AList.update 0 d (fds w))"
    using assms(2) fork by (simp add: w3_def os_dup2_def update_conv')
  with eq found(1) show ?thesis by (simp add: update_conv')
qed (use assms(1) in \<open>simp add: shell_start_process_def\<close>)

text \<open>C38: When \<open>execve\<close> fails, the child does not exit: \<open>shell_start_process\<close> returns 0 in it, as
  for a parent whose shell runs, with \<open>shell_pid\<close> unset.\<close>

theorem shell_child_survives:
  assumes "find_su_binary E w = Inr (Some p, w1)" and "calm w1"
    and "fails E Fork (tick w1) = 0" and "fork_ret E (tick w1) = 0"
    and "fails E (Execve p) (Suc (tick w1)) \<noteq> 0"
  shows "\<exists>w'. shell_start_process E fd s w = Inr (Returns (0, s) w')"
proof -
  let ?w2 = "su_srv_log_printf ''Found system SU binary: %s'' [FStr p] w1"
  have t: "tick ?w2 = tick w1" by (rule logs_frame(3) [OF log_calls_logs(1) [OF assms(2)]])
  have d: "tick (os_dup2 a b v) = tick v" for a b and v :: "'a log_os_scheme"
    by (simp add: os_dup2_def split: option.splits)
  show ?thesis
    using assms by (simp add: shell_start_process_def Let_def split_beta os_fork_def ask_def t d)
qed

text \<open>C19: \<open>shell_stop_process\<close> always returns. It sends the exit command to the client socket,
  sleeps a quarter of a second and polls the child at most three times, a second apart; it
  kills the child at most once, and only after a first poll that found it alive. It answers
  0 exactly when one of those polls reaped the child.\<close>

theorem stop_process_protocol:
  fixes w :: "'a process_scheme" and E :: env
  assumes "calm w" and "su_session w = Some cur" and "shell_pid s \<noteq> 0"
    and "map_of (fds w) (afun_client_fd cur) = Some FConn"
  defines "answers \<equiv> polls E (shell_pid s) (tick w) 3"
  shows "\<exists>w' r. shell_stop_process E s w = Inr (r, w') \<and> fds w' = fds w \<and> heap w' = heap w
    \<and> acts w' = acts w @ [ASend (afun_client_fd cur) ''exit'', ASend (afun_client_fd cur) [LF],
         ANanosleep 0 250000000] @ stop_script (shell_pid s) 0 answers
    \<and> length answers \<le> 3
    \<and> (r = 0 \<longleftrightarrow> (\<exists>i < 3. poll E (shell_pid s) (tick w + i) = shell_pid s
           \<and> (\<forall>j < i. poll E (shell_pid s) (tick w + j) = 0)))
    \<and> filter (\<lambda>a. case a of AKill _ _ \<Rightarrow> True | _ \<Rightarrow> False) (stop_script (shell_pid s) 0 answers) =
        (if poll E (shell_pid s) (tick w) = 0 then [AKill (shell_pid s) SIGKILL] else [])"
proof -
  have hd: "answers \<noteq> [] \<and> (hd answers = 0 \<longleftrightarrow> poll E (shell_pid s) (tick w) = 0)"
    by (simp add: answers_def numeral_3_eq_3)
  obtain w' where w': "shell_stop_process E s w = Inr (if last answers = shell_pid s then 0 else - 1, w')"
    "waits w w'" "acts w' = acts w @ [ASend (afun_client_fd cur) ''exit'', ASend (afun_client_fd cur) [LF],
         ANanosleep 0 250000000] @ stop_script (shell_pid s) 0 answers"
    unfolding answers_def by (rule stop_process_run [OF assms(1,2,4)])
  with hd assms(3) last_polls [of 3 "shell_pid s" E "shell_pid s" "tick w"]
    polls_length [of E "shell_pid s" "tick w" 3] waits_frame(1,2) [OF w'(2)]
  show ?thesis by (simp add: stop_script_bounds answers_def)
qed

text \<open>\<open>create_handler_thread\<close> leaves the signal mask of its caller as it was, and the thread
  it creates runs with \<open>SIGCHLD\<close> blocked; it is undefined exactly when the thread is
  created and the block for its handle was not allocated.\<close>

theorem handler_thread_mask:
  "case create_handler_thread E s w of
     Inl f \<Rightarrow> f = NullDeref \<and> handler_pth s = 0 \<and> fails E PthreadCreate (tick w) = 0
   | Inr (e, w') \<Rightarrow> blocked w' = blocked w \<and> fds w' = fds w \<and> heap w' = heap w
       \<and> (if e = 0 then \<exists>m. threads w' = (handler_pth s, m) # threads w \<and> SIGCHLD \<in> set m
          else threads w' = threads w)"
  by (simp add: create_handler_thread_def os_pthread_create_def pth_block_sigchld_def
      pth_unblock_sigchld_def ask_def Let_def)

text \<open>Invalidating the current session unbinds it and releases all it owns: its blocks, its
  client socket and the rendez-vous path.\<close>

theorem invalidate_releases:
  fixes w :: "'a process_scheme"
  assumes "su_session w = Some s" and "shell_sync_mutex s \<noteq> 0" and "shell_sync_ready s \<noteq> 0"
    and "block s \<noteq> 0" and "afun_client_fd s > 0"
    and "node_at w (sun_path (afun_rdv_addr s)) = Some NSock"
  shows "\<exists>w'. invalidate_current_session w = Inr w' \<and> su_session w' = None
    \<and> live w' = live w - session_blocks s \<and> fds w' = AList.delete (afun_client_fd s) (fds w)
    \<and> node_at w' (sun_path (afun_rdv_addr s)) = None"
proof -
  have "\<not> is_dir w (sun_path (afun_rdv_addr s))" using assms(6) by (simp add: is_dir_def)
  with invalidate_run [OF assms(1-4)] assms(5) show ?thesis by (smt (verit, best))
qed

section \<open>Instances\<close>

text \<open>A process with a bound session whose client socket is descriptor 5, and a \<open>su\<close> binary.\<close>

definition sample_su_session :: su_shell_session where
  "sample_su_session = \<lparr>block = 1, owner_pid = 7, pfs_root = ''/d'',
     afun_rdv_addr = \<lparr>sun_family = 1, sun_path = ''/d/var/run/su-00007''\<rparr>, afun_client_fd = 5,
     shell_pid = 77, handler_pth = 2, shell_sync_mutex = 4, shell_sync_ready = 5, handler_buf = 3,
     last_tty_read = None, tty_echo = 1, shell_cmd_exit_code = 0\<rparr>"

definition sample_proc :: process where
  "sample_proc = \<lparr>tick = 0, errno = 0, brk = 5, heap = [5, 4, 3, 2, 1],
     nodes = [(''/system/xbin/su'', NFile ''ELF''), (''/d/var/run/su-00007'', NSock)],
     fds = [(5, FConn), (6, FPeer), (0, FFile ''/dev/null'')], acts = [],
     su_srv_log_path = None, su_srv_log_fptr = None, su_session = Some sample_su_session,
     SU_SRV_SIGMASK = [], blocked = [], threads = []\<rparr>"

definition child_env :: env where
  "child_env = sample_env\<lparr>fork_ret := (\<lambda>t. 0)\<rparr>"

definition no_exec_env :: env where
  "no_exec_env = child_env\<lparr>fails := (\<lambda>c t. case c of Execve _ \<Rightarrow> 8 | _ \<Rightarrow> 0)\<rparr>"

text \<open>The child is alive at the first poll and reaped at the second.\<close>

definition slow_env :: env where
  "slow_env = sample_env\<lparr>wait_ret := (\<lambda>p t. if t = 0 then 0 else p)\<rparr>"

lemmas sample_proc_defs = sample_proc_def sample_su_session_def child_env_def no_exec_env_def slow_env_def
  sample_env_def

lemma sample_proc_calm [simp]: "calm sample_proc"
  by (simp add: calm_def log_fd_def sample_proc_def)

theorem find_su_first_witness:
  "\<exists>w'. find_su_binary sample_env sample_proc = Inr (Some ''/system/xbin/su'', w')"
  using find_su_first [of sample_env sample_proc]
  by (auto simp: node_at_def sample_proc_def)

theorem find_su_overruns_witness:
  "find_su_binary sample_env (sample_proc\<lparr>nodes := []\<rparr>) = Inl OutOfBounds"
  using find_su_overruns [of sample_env "sample_proc\<lparr>nodes := []\<rparr>"]
  by (simp add: node_at_def)

definition child_fds :: "(int \<times> fdesc) list" where
  "child_fds = [(5, FConn), (6, FPeer), (0, FPeer), (1, FPeer)]"

theorem shell_child_descriptors_witness:
  "shell_start_process child_env 6 sample_su_session sample_proc =
     Inr (Becomes ''/system/xbin/su'' [''/system/xbin/su''] (SU_SHELL_ENVIRONMENT child_env) child_fds)
   \<and> map_of child_fds 0 = Some FPeer \<and> map_of child_fds 5 = Some FConn"
proof -
  have run: "shell_start_process child_env 6 sample_su_session sample_proc =
    Inr (Becomes ''/system/xbin/su'' [''/system/xbin/su''] (SU_SHELL_ENVIRONMENT child_env) child_fds)"
    by code_simp
  from shell_child_descriptors [OF this, of FPeer] run show ?thesis
    by (simp add: sample_proc_def child_env_def sample_env_def calm_def log_fd_def)
qed

theorem shell_child_survives_witness:
  "\<exists>w'. shell_start_process no_exec_env 6 sample_su_session sample_proc =
     Inr (Returns (0, sample_su_session) w')"
proof -
  have "find_su_binary no_exec_env sample_proc = Inr (Some ''/system/xbin/su'', sample_proc\<lparr>tick := 4, errno := 2\<rparr>)"
    by code_simp
  from shell_child_survives [OF this] show ?thesis
    by (simp add: sample_proc_defs calm_def log_fd_def)
qed

theorem stop_process_protocol_witness:
  "\<exists>w'. shell_stop_process slow_env sample_su_session sample_proc = Inr (0, w')
    \<and> acts w' = [ASend 5 ''exit'', ASend 5 [LF], ANanosleep 0 250000000, AWaitpid 77, AKill 77 9,
        ASleep 1, AWaitpid 77]"
proof -
  have p: "polls slow_env 77 0 3 = [0, 77]" "stop_script 77 0 [0, 77] = [AWaitpid 77, AKill 77 9, ASleep 1, AWaitpid 77]"
    by code_simp+
  have e: "poll slow_env 77 1 = 77" "poll slow_env 77 0 = 0" by code_simp+
  have "calm sample_proc" "su_session sample_proc = Some sample_su_session"
    "shell_pid sample_su_session \<noteq> 0" "map_of (fds sample_proc) (afun_client_fd sample_su_session) = Some FConn"
    by (simp_all add: sample_proc_def sample_su_session_def calm_def log_fd_def)
  from stop_process_protocol [OF this, of slow_env] show ?thesis
    using p e by (force simp: sample_proc_def sample_su_session_def)
qed

theorem invalidate_releases_witness:
  "\<exists>w'. invalidate_current_session sample_proc = Inr w' \<and> su_session w' = None \<and> live w' = {#}"
  using invalidate_releases [of sample_proc sample_su_session]
  by (auto simp: sample_proc_def sample_su_session_def node_at_def live_def session_blocks_def tty_block_def)

end
