(* ===== verification/Handler.thy ===== *)
theory Handler
  imports Shell
begin

text \<open>
  The handler thread (\<open>session_handler_fn\<close> in \<open>jni/su_srv.c\<close>): it reads the output of the
  shell byte by byte into a buffer it grows, and treats each line as an exit code, which it
  stores and signals, or as output, which it echoes to the log and keeps as the last line
  read. Here the thread runs alone; its interleaving with the others is in theory Conc.
\<close>

section \<open>The code\<close>

definition EOC_CMD :: string where "EOC_CMD = ''echo \"<SU_SRV_EOC>\"$?'' @ [LF]"
definition EOC_TAG :: string where "EOC_TAG = ''<SU_SRV_EOC>''"
definition EOC_SSCAN :: string where "EOC_SSCAN = ''<SU_SRV_EOC>%d'' @ [LF]"

text \<open>
  \<open>handler_cells\<close> are the bytes of the block \<open>handler_buf\<close> points to, \<open>None\<close> a byte that was
  never written; \<open>signals\<close> counts the calls of \<open>pthread_cond_signal\<close>.
\<close>

record hproc = process +
  handler_cells :: "char option list"
  signals :: nat

definition c_bind :: "'a c_result \<Rightarrow> ('a \<Rightarrow> 'b c_result) \<Rightarrow> 'b c_result" where
  "c_bind r f = (case r of Inl fault \<Rightarrow> Inl fault | Inr x \<Rightarrow> f x)"

text \<open>A read of \<open>_su_session\<close> that is dereferenced, and an assignment to a field through it.\<close>

definition deref :: "'a process_scheme \<Rightarrow> su_shell_session c_result" where
  "deref w = (case su_session w of None \<Rightarrow> Inl NullDeref | Some s \<Rightarrow> Inr s)"

definition upd :: "(su_shell_session \<Rightarrow> su_shell_session) \<Rightarrow> 'a process_scheme \<Rightarrow> 'a process_scheme" where
  "upd f w = w\<lparr>su_session := map_option f (su_session w)\<rparr>"

text \<open>The C string in a block, and a store to one of its bytes.\<close>

fun cells_str :: "char option list \<Rightarrow> string c_result" where
  "cells_str [] = Inl OutOfBounds"
| "cells_str (None # cs) = Inl UninitRead"
| "cells_str (Some c # cs) =
     (if c = NUL then Inr [] else c_bind (cells_str cs) (\<lambda>s. Inr (c # s)))"

definition put_cell :: "int \<Rightarrow> char \<Rightarrow> 'a hproc_scheme \<Rightarrow> 'a hproc_scheme c_result" where
  "put_cell i c w =
     c_bind (deref w) (\<lambda>s.
       if handler_buf s = 0 then Inl NullDeref
       else if i < 0 \<or> int (length (handler_cells w)) \<le> i then Inl OutOfBounds
       else Inr (w\<lparr>handler_cells := (handler_cells w)[nat i := Some c]\<rparr>))"

text \<open>The \<open>realloc\<close>: its guard compares the offset with the size of the pointer.\<close>

definition grow_buf :: "env \<Rightarrow> int \<Rightarrow> 'a hproc_scheme \<Rightarrow> 'a hproc_scheme c_result" where
  "grow_buf E off w =
     (if c_size (sizeof_ptr E) off > int (sizeof_ptr E) - 1 - 1 then
        c_bind (deref w) (\<lambda>s.
          if off + 32 > INT_MAX then Inl SignedOverflow
          else
            let n = nat (off + 32);
                (p, w) = c_realloc E (handler_buf s) (c_size (sizeof_ptr E) (off + 32)) w;
                w = upd (\<lambda>s. s\<lparr>handler_buf := p\<rparr>) w
            in Inr (w\<lparr>handler_cells := (if p = 0 then []
                 else take n (handler_cells w) @ replicate (n - length (handler_cells w)) None)\<rparr>))
      else Inr w)"

definition signal_ready :: "'a hproc_scheme \<Rightarrow> 'a hproc_scheme c_result" where
  "signal_ready w =
     c_bind (deref w) (\<lambda>s.
       if shell_sync_ready s = 0 then Inl NullDeref else Inr (w\<lparr>signals := Suc (signals w)\<rparr>))"

text \<open>The branch of a line that holds the tag, and the branch of a line of output.\<close>

definition handle_eoc :: "string \<Rightarrow> 'a hproc_scheme \<Rightarrow> 'a hproc_scheme c_result" where
  "handle_eoc line w =
     (case c_sscanf EOC_SSCAN line of
        ScanEOF \<Rightarrow> Inr w
      | ScanNone \<Rightarrow> signal_ready w
      | ScanInt n \<Rightarrow> signal_ready (upd (\<lambda>s. s\<lparr>shell_cmd_exit_code := n\<rparr>) w))"

definition handle_output :: "env \<Rightarrow> int \<Rightarrow> string \<Rightarrow> 'a hproc_scheme \<Rightarrow> 'a hproc_scheme c_result" where
  "handle_output E fd line w =
     c_bind (deref w) (\<lambda>s.
       let w = (if tty_echo s \<noteq> 0 then os_write fd line w else w);
           tmp = last_tty_read s;
           sz = c_int (int (c_strlen line) + 1);
           (p, w) = c_malloc E (c_size (sizeof_ptr E) sz) w;
           w = upd (\<lambda>s. s\<lparr>last_tty_read := (if p = 0 then None else Some (p, line))\<rparr>) w
       in Inr (case tmp of Some (b, _) \<Rightarrow> free_if b w | None \<Rightarrow> w))"

definition handler_byte ::
  "env \<Rightarrow> int \<Rightarrow> char \<Rightarrow> int \<Rightarrow> 'a hproc_scheme \<Rightarrow> (int \<times> 'a hproc_scheme) c_result" where
  "handler_byte E fd curr_byte off w =
     c_bind (grow_buf E off w) (\<lambda>w.
     c_bind (put_cell off curr_byte w) (\<lambda>w.
       if off = INT_MAX then Inl SignedOverflow
       else if curr_byte = LF then
         c_bind (put_cell (off + 1) NUL w) (\<lambda>w.
         c_bind (cells_str (handler_cells w)) (\<lambda>line.
           if c_strstr line EOC_TAG
           then c_bind (handle_eoc line w) (\<lambda>w. Inr (0, w))
           else c_bind (handle_output E fd line w) (\<lambda>w. Inr (0, w))))
       else Inr (off + 1, w)))"

text \<open>The read loop over what the shell sends until the end of the stream.\<close>

fun handler_loop ::
  "env \<Rightarrow> int \<Rightarrow> string \<Rightarrow> int \<Rightarrow> 'a hproc_scheme \<Rightarrow> (int \<times> 'a hproc_scheme) c_result" where
  "handler_loop E fd [] off w = c_bind (deref w) (\<lambda>s. Inr (off, w))"
| "handler_loop E fd (c # cs) off w =
     c_bind (deref w) (\<lambda>s.
     c_bind (handler_byte E fd c off w) (\<lambda>(off, w). handler_loop E fd cs off w))"

text \<open>
  After the loop: \<open>busy1\<close> and \<open>busy2\<close> are the answers of the two \<open>pthread_mutex_trylock\<close>
  (true when another thread holds the mutex).
\<close>

definition handler_exit :: "env \<Rightarrow> bool \<Rightarrow> bool \<Rightarrow> 'a hproc_scheme \<Rightarrow> 'a hproc_scheme c_result" where
  "handler_exit E busy1 busy2 w =
     c_bind (deref w) (\<lambda>s.
     if shell_sync_mutex s = 0 then Inl NullDeref
     else
     c_bind (if busy1 then signal_ready w else Inr w) (\<lambda>w.
       let exit_request = (busy1 \<and> busy2)
       in if exit_request then Inr w
          else
            c_bind (shell_stop_process E s w) (\<lambda>(r, w).
            c_bind (invalidate_current_session w) (\<lambda>w.
              Inr (su_srv_log_printf ''Shell session invalidated, shell proces died !'' [] w)))))"

definition handler_start :: "'a hproc_scheme \<Rightarrow> int c_result" where
  "handler_start w = (case su_srv_log_fptr w of None \<Rightarrow> Inl NullDeref | Some f \<Rightarrow> Inr (cf_fd f))"

text \<open>The whole thread, alone with the mutex free at its end.\<close>

definition session_handler_fn :: "env \<Rightarrow> string \<Rightarrow> 'a hproc_scheme \<Rightarrow> 'a hproc_scheme c_result" where
  "session_handler_fn E input w =
     c_bind (handler_start w) (\<lambda>fd.
     c_bind (handler_loop E fd input 0 w) (\<lambda>(off, w). handler_exit E False False w))"

section \<open>The line discipline\<close>

text \<open>
  What the rest of the library sees of the handler, and what one line of the shell's output
  does to it. A line counts up to its first NUL.
\<close>

record tty =
  v_code :: int
  v_last :: "string option"
  v_echo :: int
  v_signals :: nat
  v_log :: string

definition line_step :: "string \<Rightarrow> tty \<Rightarrow> tty" where
  "line_step l v =
     (let s = cstr l
      in if \<exists>a b. s = a @ EOC_TAG @ b then
           (case c_sscanf EOC_SSCAN s of
              ScanEOF \<Rightarrow> v
            | ScanNone \<Rightarrow> v\<lparr>v_signals := Suc (v_signals v)\<rparr>
            | ScanInt n \<Rightarrow> v\<lparr>v_code := n, v_signals := Suc (v_signals v)\<rparr>)
         else v\<lparr>v_last := Some s, v_log := v_log v @ (if v_echo v \<noteq> 0 then s else [])\<rparr>)"

text \<open>The complete lines of a stream, each with its line feed, after a started line \<open>pre\<close>.\<close>

fun split_lines :: "string \<Rightarrow> string \<Rightarrow> string list \<times> string" where
  "split_lines pre [] = ([], pre)"
| "split_lines pre (c # cs) =
     (if c = LF then (case split_lines [] cs of (ls, r) \<Rightarrow> ((pre @ [c]) # ls, r))
      else split_lines (pre @ [c]) cs)"

lemma split_lines_concat: "split_lines pre s = (ls, r) \<Longrightarrow> concat ls @ r = pre @ s"
  by (induction pre s arbitrary: ls r rule: split_lines.induct) (auto split: if_splits prod.splits)

lemma split_lines_LF:
  assumes "split_lines pre s = (ls, r)" and "LF \<notin> set pre"
  shows "LF \<notin> set r \<and> (\<forall>l \<in> set ls. \<exists>t. l = t @ [LF] \<and> LF \<notin> set t)"
  using assms
  by (induction pre s arbitrary: ls r rule: split_lines.induct) (auto split: if_splits prod.splits)

section \<open>The abstraction\<close>

definition hview :: "'a hproc_scheme \<Rightarrow> tty" where
  "hview w = (let s = the (su_session w) in
     \<lparr>v_code = shell_cmd_exit_code s, v_last = map_option snd (last_tty_read s), v_echo = tty_echo s,
      v_signals = signals w, v_log = log_text w\<rparr>)"

text \<open>The handler is within a line of which it has stored \<open>pre\<close>.\<close>

definition reading :: "string \<Rightarrow> 'a hproc_scheme \<Rightarrow> bool" where
  "reading pre w \<longleftrightarrow> (\<exists>s. su_session w = Some s \<and> handler_buf s \<noteq> 0 \<and> shell_sync_ready s \<noteq> 0)
     \<and> 32 \<le> length (handler_cells w) \<and> length pre \<le> length (handler_cells w)
     \<and> take (length pre) (handler_cells w) = map Some pre"

text \<open>Runs that leave the log and its descriptor alone.\<close>

definition same_log :: "'a log_os_scheme \<Rightarrow> 'a log_os_scheme \<Rightarrow> bool" where
  "same_log w w' \<longleftrightarrow> su_srv_log_fptr w' = su_srv_log_fptr w \<and> fds w' = fds w \<and> nodes w' = nodes w"

lemma same_log_trans [trans]: "same_log u v \<Longrightarrow> same_log v w \<Longrightarrow> same_log u w"
  by (simp add: same_log_def)

lemma same_log_text:
  "same_log w w' \<Longrightarrow> log_text w' = log_text w" "same_log w w' \<Longrightarrow> log_ready w' = log_ready w"
  "same_log w w' \<Longrightarrow> log_fd w' = log_fd w"
  by (simp_all add: same_log_def log_text_def log_ready_def log_file_def node_at_def log_fd_def
      cong: option.case_cong fdesc.case_cong)

lemma c_bind_simps [simp]: "c_bind (Inl e) f = Inl e" "c_bind (Inr x) f = f x"
  by (simp_all add: c_bind_def)

lemma upd_simps [simp]:
  "su_session (upd f w) = map_option f (su_session w)" "fds (upd f w) = fds w" "nodes (upd f w) = nodes w"
  "su_srv_log_fptr (upd f w) = su_srv_log_fptr w" "heap (upd f w) = heap w" "acts (upd f w) = acts w"
  "tick (upd f w) = tick w"
  by (simp_all add: upd_def)

lemma upd_hproc [simp]:
  "handler_cells (upd f w) = handler_cells w" "signals (upd f w) = signals w"
  for w :: "'a hproc_scheme"
  by (simp_all add: upd_def)

lemma cells_str_prefix:
  "take (length pre + 1) cs = map Some (pre @ [NUL]) \<Longrightarrow> cells_str cs = Inr (cstr pre)"
proof (induction pre arbitrary: cs)
  case Nil
  then show ?case by (cases cs) (simp_all add: cstr_def)
next
  case (Cons c pre)
  then obtain cs' where "cs = Some c # cs'" "take (length pre + 1) cs' = map Some (pre @ [NUL])"
    by (cases cs) auto
  with Cons.IH show ?case by (simp add: cstr_def)
qed

lemma put_cell_ok:
  assumes "reading pre w" and "length pre < length (handler_cells w)"
  shows "put_cell (int (length pre)) c w =
      Inr (w\<lparr>handler_cells := (handler_cells w)[length pre := Some c]\<rparr>)"
    and "reading (pre @ [c]) (w\<lparr>handler_cells := (handler_cells w)[length pre := Some c]\<rparr>)"
  using assms
  by (auto simp: put_cell_def reading_def deref_def take_Suc_conv_app_nth)

section \<open>One byte\<close>

text \<open>Pointers of 4 to 16 bytes: every platform of the build.\<close>

definition ptr_ok :: "env \<Rightarrow> bool" where
  "ptr_ok E \<longleftrightarrow> 4 \<le> sizeof_ptr E \<and> sizeof_ptr E \<le> 16"

definition reallocs :: "env \<Rightarrow> bool" where
  "reallocs E \<longleftrightarrow> (\<forall>n t. fails E (Realloc n) t = 0)"

definition mallocs :: "env \<Rightarrow> bool" where
  "mallocs E \<longleftrightarrow> (\<forall>n t. fails E (Malloc n) t = 0)"

lemma ptr_ok_size:
  assumes "ptr_ok E"
  shows "0 \<le> i \<Longrightarrow> i \<le> INT_MAX \<Longrightarrow> c_size (sizeof_ptr E) i = i" and "INT_MAX \<le> PTRDIFF_MAX E"
proof -
  have "(2::int) ^ 31 \<le> 2 ^ (8 * sizeof_ptr E - 1)"
    using assms by (intro power_increasing) (auto simp: ptr_ok_def)
  then show "INT_MAX \<le> PTRDIFF_MAX E" by (simp add: INT_MAX_def PTRDIFF_MAX_def)
  have "(2::int) ^ 32 \<le> 2 ^ (8 * sizeof_ptr E)"
    using assms by (intro power_increasing) (auto simp: ptr_ok_def)
  then show "0 \<le> i \<Longrightarrow> i \<le> INT_MAX \<Longrightarrow> c_size (sizeof_ptr E) i = i"
    by (intro c_size_id) (auto simp: INT_MAX_def)
qed

lemma c_realloc_ok:
  assumes "reallocs E" and "n \<le> PTRDIFF_MAX E"
  shows "fst (c_realloc E a n w) = Suc (brk w)" and "same_log w (snd (c_realloc E a n w))"
    and "os.more (snd (c_realloc E a n w)) = os.more w"
  using assms by (simp_all add: c_realloc_def reallocs_def ask_def same_log_def)

lemma more_fields:
  fixes w :: "'a hproc_scheme"
  assumes "os.more w' = os.more w"
  shows "su_session w' = su_session w" "handler_cells w' = handler_cells w" "signals w' = signals w"
    "su_srv_log_fptr w' = su_srv_log_fptr w" "su_srv_log_path w' = su_srv_log_path w"
  using assms by (cases w; cases w'; simp)+

text \<open>
  \<open>grow_buf\<close> at the head of the loop: room for two more bytes, and nothing visible changed.
\<close>

lemma grow_buf_ok:
  fixes w :: "'a hproc_scheme"
  assumes r: "reading pre w" and len: "int (length pre) + 32 \<le> INT_MAX" and E: "ptr_ok E" "reallocs E"
  obtains w' where "grow_buf E (int (length pre)) w = Inr w'" and "reading pre w'"
    and "length pre + 1 < length (handler_cells w')" and "hview w' = hview w" and "same_log w w'"
proof (cases "int (length pre) \<le> int (sizeof_ptr E) - 2")
  case True
  then have "grow_buf E (int (length pre)) w = Inr w"
    using len ptr_ok_size(1) [OF E(1), of "int (length pre)"] by (simp add: grow_buf_def)
  moreover have "length pre + 1 < length (handler_cells w)"
    using True r E(1) by (auto simp: reading_def ptr_ok_def)
  ultimately show thesis using that [of w] r by (simp add: same_log_def)
next
  case False
  from r obtain s where s: "su_session w = Some s" by (auto simp: reading_def)
  let ?n = "int (length pre) + 32" and ?m = "length pre + 32"
  obtain p w1 where ra: "c_realloc E (handler_buf s) ?n w = (p, w1)" by force
  have "?n \<le> PTRDIFF_MAX E" using len ptr_ok_size(2) [OF E(1)] by simp
  note ok = c_realloc_ok [OF E(2) this, where a = "handler_buf s" and w = w, unfolded ra, simplified]
  define w2 where "w2 = (upd (\<lambda>s. s\<lparr>handler_buf := p\<rparr>) w1)
    \<lparr>handler_cells := take ?m (handler_cells w1) @ replicate (?m - length (handler_cells w1)) None\<rparr>"
  have run: "grow_buf E (int (length pre)) w = Inr w2"
    using False len ptr_ok_size(1) [OF E(1), of "int (length pre)"] ptr_ok_size(1) [OF E(1), of ?n] s ra
      ok(1) nat_int [of ?m]
    by (simp add: grow_buf_def deref_def w2_def INT_MAX_def Let_def del: nat_int)
  have same: "same_log w1 w2" by (simp add: w2_def same_log_def)
  have len2: "length (handler_cells w2) = ?m" by (simp add: w2_def)
  have f: "su_session w1 = su_session w" "handler_cells w1 = handler_cells w" "signals w1 = signals w"
    using more_fields [OF ok(3)] by simp_all
  have "reading pre w2"
    unfolding reading_def len2
    using r s f ok(1) by (auto simp: reading_def w2_def min_def)
  moreover have "hview w2 = hview w"
    using s f same_log_text(1) [OF same_log_trans [OF ok(2) same]]
    by (simp add: hview_def w2_def)
  ultimately show thesis
    using that [OF run] len2 same_log_trans [OF ok(2) same] by simp
qed

text \<open>What the two branches of a line do, and that they leave the buffer alone.\<close>

lemma reading_Nil:
  "reading [] w \<longleftrightarrow> (\<exists>s. su_session w = Some s \<and> handler_buf s \<noteq> 0 \<and> shell_sync_ready s \<noteq> 0)
     \<and> 32 \<le> length (handler_cells w)"
  by (auto simp: reading_def)

lemma signal_ready_ok:
  assumes "reading [] w"
  obtains w' where "signal_ready w = Inr w'" and "reading [] w'" and "same_log w w'"
    and "hview w' = (hview w)\<lparr>v_signals := Suc (v_signals (hview w))\<rparr>"
proof -
  have same: "same_log w (w\<lparr>signals := Suc (signals w)\<rparr>)" by (simp add: same_log_def)
  show thesis
    by (rule that [of "w\<lparr>signals := Suc (signals w)\<rparr>"])
      (use assms same_log_text(1) [OF same] in
        \<open>auto simp: signal_ready_def deref_def reading_Nil hview_def same_log_def Let_def\<close>)
qed

lemma handle_eoc_ok:
  assumes "reading [] w" and "\<exists>a b. line = a @ EOC_TAG @ b" and "NUL \<notin> set line"
  obtains w' where "handle_eoc line w = Inr w'" and "reading [] w'" and "same_log w w'"
    and "hview w' = line_step line (hview w)"
proof (cases "c_sscanf EOC_SSCAN line")
  case ScanEOF
  with assms show thesis
    by (intro that [of w]) (simp_all add: handle_eoc_def same_log_def line_step_def)
next
  case ScanNone
  from signal_ready_ok [OF assms(1)] obtain w' where "signal_ready w = Inr w'" "reading [] w'"
    "same_log w w'" "hview w' = (hview w)\<lparr>v_signals := Suc (v_signals (hview w))\<rparr>" by blast
  with ScanNone assms(2,3) show thesis
    by (intro that [of w']) (simp_all add: handle_eoc_def line_step_def)
next
  case (ScanInt n)
  let ?w = "upd (\<lambda>s. s\<lparr>shell_cmd_exit_code := n\<rparr>) w"
  have same: "same_log w ?w" by (simp add: same_log_def)
  have r: "reading [] ?w" using assms(1) by (auto simp: reading_Nil)
  have v: "hview ?w = (hview w)\<lparr>v_code := n\<rparr>"
    using assms(1) same_log_text(1) [OF same] by (auto simp: hview_def reading_Nil)
  from signal_ready_ok [OF r] obtain w' where "signal_ready ?w = Inr w'" "reading [] w'"
    "same_log ?w w'" "hview w' = (hview ?w)\<lparr>v_signals := Suc (v_signals (hview ?w))\<rparr>" by blast
  with ScanInt assms(2,3) v same_log_trans [OF same] show thesis
    by (intro that [of w']) (simp_all add: handle_eoc_def line_step_def)
qed

lemma os_write_more [simp]: "os.more (os_write fd s w) = os.more w"
  by (auto simp: os_write_def set_node_def split: option.splits fdesc.splits node.splits)

lemma c_malloc_more [simp]: "os.more (snd (c_malloc E n w)) = os.more w"
  by (simp add: c_malloc_def ask_def)

lemma free_if_frame [simp]:
  "os.more (free_if a w) = os.more w" "fds (free_if a w) = fds w" "nodes (free_if a w) = nodes w"
  by (simp_all add: free_if_def)

text \<open>
  A line of output. What it does to the view is exact when no \<open>malloc\<close> fails and the
  descriptor is that of a ready log.
\<close>

lemma handle_output_ok:
  fixes w :: "'a hproc_scheme"
  assumes r: "reading [] w" and E: "ptr_ok E" and len: "int (length line) + 1 \<le> INT_MAX"
    and line: "\<nexists>a b. line = a @ EOC_TAG @ b" "NUL \<notin> set line"
  obtains w' where "handle_output E fd line w = Inr w'" and "reading [] w'"
    and "mallocs E \<Longrightarrow> log_ready w \<Longrightarrow> log_fd w = Some fd \<Longrightarrow>
      hview w' = line_step line (hview w) \<and> log_ready w' \<and> log_fd w' = Some fd"
proof -
  from r obtain s where s: "su_session w = Some s" "handler_buf s \<noteq> 0" "shell_sync_ready s \<noteq> 0"
    by (auto simp: reading_Nil)
  define w1 where "w1 = (if tty_echo s \<noteq> 0 then os_write fd line w else w)"
  obtain p w2 where m: "c_malloc E (int (length line) + 1) w1 = (p, w2)" by force
  define w3 where "w3 = upd (\<lambda>s. s\<lparr>last_tty_read := (if p = 0 then None else Some (p, line))\<rparr>) w2"
  define w4 where "w4 = (case last_tty_read s of Some (b, _) \<Rightarrow> free_if b w3 | None \<Rightarrow> w3)"
  have size: "c_size (sizeof_ptr E) (c_int (int (c_strlen line) + 1)) = int (length line) + 1"
    using line(2) len ptr_ok_size(1) [OF E] by (simp add: INT_MAX_def)
  have run: "handle_output E fd line w = Inr w4"
    using s by (simp add: handle_output_def deref_def size m Let_def w4_def w3_def flip: w1_def
        split: option.splits)
  have m1: "os.more w1 = os.more w" by (simp add: w1_def)
  have m2: "os.more w2 = os.more w1" using c_malloc_more [of E "int (length line) + 1" w1] by (simp add: m)
  have m4: "os.more w4 = os.more w3" by (simp add: w4_def split: option.splits)
  note f = more_fields [OF m1] more_fields [OF m2] more_fields [OF m4]
  have sess: "su_session w4 = Some (s\<lparr>last_tty_read := (if p = 0 then None else Some (p, line))\<rparr>)"
    and cells: "handler_cells w4 = handler_cells w" and sig: "signals w4 = signals w"
    using f s by (simp_all add: w3_def)
  show thesis
  proof (rule that [OF run])
    show "reading [] w4" using r s sess cells by (simp add: reading_Nil)
    assume M: "mallocs E" and ready: "log_ready w" and fd: "log_fd w = Some fd"
    have raw: "os_write fd line w = log_raw line w"
      using fd by (auto simp: log_raw_def log_fd_def)
    have w1: "log_ready w1" "log_text w1 = log_text w @ (if tty_echo s \<noteq> 0 then line else [])"
      using log_writes [OF ready, of line] ready by (simp_all add: w1_def raw)
    have same: "same_log w1 w4"
      using c_malloc_nodes(1) [of E "int (length line) + 1" w1] c_malloc_fds(1) [of E "int (length line) + 1" w1] f
      by (simp add: m same_log_def w3_def w4_def split: option.splits)
    have "int (length line) + 1 \<le> PTRDIFF_MAX E" using len ptr_ok_size(2) [OF E] by simp
    then have "p \<noteq> 0" using M m by (auto simp: c_malloc_def ask_def mallocs_def split: if_splits)
    with sess sig s(1) same_log_text(1) [OF same] w1(2) line(2) line(1)
    have "hview w4 = line_step line (hview w)"
      by (simp add: hview_def line_step_def)
    moreover have "log_fd w1 = log_fd w" using f(4) by (simp add: log_fd_def)
    ultimately show "hview w4 = line_step line (hview w) \<and> log_ready w4 \<and> log_fd w4 = Some fd"
      using same_log_text(2,3) [OF same] w1(1) fd by simp
  qed
qed

lemma reading_LF: "reading pre w \<Longrightarrow> reading [] w"
  by (auto simp: reading_def)

lemma line_step_cstr [simp]: "line_step (cstr l) v = line_step l v"
  by (simp add: line_step_def)

text \<open>One line, given to the branch it belongs to.\<close>

lemma handle_line_ok:
  fixes w :: "'a hproc_scheme"
  assumes "reading [] w" and "ptr_ok E" and "int (length line) + 1 \<le> INT_MAX" and "NUL \<notin> set line"
  obtains w' where
    "(if c_strstr line EOC_TAG then handle_eoc line w else handle_output E fd line w) = Inr w'"
    and "reading [] w'"
    and "mallocs E \<Longrightarrow> log_ready w \<Longrightarrow> log_fd w = Some fd \<Longrightarrow>
      hview w' = line_step line (hview w) \<and> log_ready w' \<and> log_fd w' = Some fd"
proof (cases "\<exists>a b. line = a @ EOC_TAG @ b")
  case True
  with handle_eoc_ok [OF assms(1) True assms(4)] obtain w' where
    "handle_eoc line w = Inr w'" "reading [] w'" "same_log w w'" "hview w' = line_step line (hview w)"
    by blast
  with True show thesis
    by (intro that [of w']) (simp_all add: c_strstr_iff same_log_text)
next
  case False
  with handle_output_ok [OF assms(1-3) False assms(4), of fd] that show thesis
    by (auto simp: c_strstr_iff)
qed

lemma handler_byte_ok:
  fixes w :: "'a hproc_scheme"
  assumes r: "reading pre w" and len: "int (length pre) + 32 \<le> INT_MAX" and E: "ptr_ok E" "reallocs E"
  obtains (inside) w' where "c \<noteq> LF"
      and "handler_byte E fd c (int (length pre)) w = Inr (int (length (pre @ [c])), w')"
      and "reading (pre @ [c]) w'" and "hview w' = hview w" and "same_log w w'"
  | (line) w' where "c = LF" and "handler_byte E fd c (int (length pre)) w = Inr (0, w')"
      and "reading [] w'"
      and "mallocs E \<Longrightarrow> log_ready w \<Longrightarrow> log_fd w = Some fd \<Longrightarrow>
        hview w' = line_step (pre @ [LF]) (hview w) \<and> log_ready w' \<and> log_fd w' = Some fd"
proof -
  from grow_buf_ok [OF r len E] obtain w1 where w1: "grow_buf E (int (length pre)) w = Inr w1"
    "reading pre w1" "length pre + 1 < length (handler_cells w1)" "hview w1 = hview w" "same_log w w1"
    by blast
  let ?w2 = "w1\<lparr>handler_cells := (handler_cells w1)[length pre := Some c]\<rparr>"
  have lt: "length pre < length (handler_cells w1)" using w1(3) by simp
  note p = put_cell_ok [OF w1(2) lt, of c]
  have s2: "same_log w1 ?w2" by (simp add: same_log_def)
  have v2: "hview ?w2 = hview w1" using same_log_text(1) [OF s2] by (simp add: hview_def)
  have nmax: "int (length pre) \<noteq> INT_MAX" using len by (simp add: INT_MAX_def)
  show thesis
  proof (cases "c = LF")
    case False
    then have "handler_byte E fd c (int (length pre)) w = Inr (int (length (pre @ [c])), ?w2)"
      using w1(1) p(1) nmax by (simp add: handler_byte_def)
    with inside [OF False, of ?w2] p(2) v2 w1(4) same_log_trans [OF w1(5) s2] show thesis by simp
  next
    case True
    let ?w3 = "?w2\<lparr>handler_cells := (handler_cells ?w2)[length (pre @ [c]) := Some NUL]\<rparr>"
    have lt2: "length (pre @ [c]) < length (handler_cells ?w2)" using w1(3) by simp
    note q = put_cell_ok [OF p(2) lt2, of NUL]
    have s3: "same_log ?w2 ?w3" by (simp add: same_log_def)
    have v3: "hview ?w3 = hview w"
      using same_log_text(1) [OF s3] v2 w1(4) by (simp add: hview_def)
    let ?line = "cstr (pre @ [c])"
    have str: "cells_str (handler_cells ?w3) = Inr ?line"
      by (rule cells_str_prefix) (use q(2) in \<open>simp add: reading_def\<close>)
    have len': "int (length ?line) + 1 \<le> INT_MAX"
      using length_takeWhile_le [of "\<lambda>c. c \<noteq> NUL" "pre @ [c]"] len by (simp add: cstr_def)
    obtain w' where w': "(if c_strstr ?line EOC_TAG then handle_eoc ?line ?w3 else handle_output E fd ?line ?w3) = Inr w'"
      "reading [] w'" "mallocs E \<Longrightarrow> log_ready ?w3 \<Longrightarrow> log_fd ?w3 = Some fd \<Longrightarrow>
      hview w' = line_step ?line (hview ?w3) \<and> log_ready w' \<and> log_fd w' = Some fd"
      using handle_line_ok [OF reading_LF [OF q(2)] E(1) len' cstr_no_NUL, of fd] by blast
    have run: "handler_byte E fd c (int (length pre)) w = Inr (0, w')"
      using w1(1) p(1) nmax True q(1) str w'(1)
      by (simp add: handler_byte_def add.commute split: if_splits)
    have same: "same_log w ?w3" by (rule same_log_trans [OF w1(5) same_log_trans [OF s2 s3]])
    show thesis
      by (rule line [OF True run w'(2)])
        (use w'(3) v3 True same_log_text(2,3) [OF same] in auto)
  qed
qed

section \<open>The loop\<close>

text \<open>No line of the stream, the unfinished one included, is longer than an offset can count.\<close>

definition short_lines :: "string \<Rightarrow> string \<Rightarrow> bool" where
  "short_lines pre s \<longleftrightarrow>
     (case split_lines pre s of (ls, r) \<Rightarrow> \<forall>l \<in> set (r # ls). int (length l) + 32 \<le> INT_MAX)"

lemma split_lines_longer:
  "split_lines pre s = (ls, r) \<Longrightarrow> \<exists>l \<in> set (r # ls). length pre \<le> length l"
proof (induction pre s arbitrary: ls r rule: split_lines.induct)
  case (2 pre c cs)
  show ?case
  proof (cases "c = LF")
    case True
    with 2 show ?thesis by (auto split: prod.splits)
  next
    case False
    with 2 show ?thesis by fastforce
  qed
qed auto

lemma short_lines_head: "short_lines pre s \<Longrightarrow> int (length pre) + 32 \<le> INT_MAX"
  using split_lines_longer [of pre s] by (cases "split_lines pre s") (fastforce simp: short_lines_def)

lemma short_lines_step:
  "short_lines pre (c # s) \<Longrightarrow> short_lines (if c = LF then [] else pre @ [c]) s"
  by (auto simp: short_lines_def split: prod.splits if_splits)

lemma handler_loop_ok:
  fixes w :: "'a hproc_scheme"
  assumes "reading pre w" and "short_lines pre s" and E: "ptr_ok E" "reallocs E"
    and "split_lines pre s = (ls, r)"
  obtains w' where "handler_loop E fd s (int (length pre)) w = Inr (int (length r), w')"
    and "reading r w'"
    and "mallocs E \<Longrightarrow> log_ready w \<Longrightarrow> log_fd w = Some fd \<Longrightarrow>
      hview w' = fold line_step ls (hview w) \<and> log_ready w' \<and> log_fd w' = Some fd"
proof -
  have "\<exists>w'. handler_loop E fd s (int (length pre)) w = Inr (int (length r), w') \<and> reading r w'
    \<and> (mallocs E \<longrightarrow> log_ready w \<longrightarrow> log_fd w = Some fd \<longrightarrow>
      hview w' = fold line_step ls (hview w) \<and> log_ready w' \<and> log_fd w' = Some fd)"
    using assms(1,2,5)
  proof (induction s arbitrary: pre w ls)
    case Nil
    then show ?case by (auto simp: reading_def deref_def)
  next
    case (Cons c s)
    from Cons.prems(1) obtain se where se: "deref w = Inr se" by (auto simp: reading_def deref_def)
    show ?case
    proof (cases rule: handler_byte_ok [OF Cons.prems(1) short_lines_head [OF Cons.prems(2)] E,
          of c fd, case_names inside line])
      case (inside w1)
      then have sp: "split_lines (pre @ [c]) s = (ls, r)" "short_lines (pre @ [c]) s"
        using Cons.prems(3) short_lines_step [OF Cons.prems(2)] by simp_all
      from Cons.IH [OF inside(3) sp(2,1)] inside(4) same_log_text(2,3) [OF inside(5)] inside(2)
      show ?thesis by (simp add: se)
    next
      case (line w1)
      from line(1) Cons.prems(3) obtain ls' where ls: "split_lines [] s = (ls', r)" "ls = (pre @ [LF]) # ls'"
        by (auto split: prod.splits)
      have sh: "short_lines [] s" using short_lines_step [OF Cons.prems(2)] line(1) by simp
      from Cons.IH [OF line(3) sh ls(1)] line(2,4) ls(2) show ?thesis
        by (auto simp: se)
    qed
  qed
  with that show thesis by blast
qed

section \<open>Lines that carry an exit code\<close>

lemma c_sscanf_literal:
  assumes "\<forall>c \<in> set f. c \<noteq> CHR ''%'' \<and> \<not> c_isspace c"
  shows "c_sscanf (f @ g) s =
    (if take (length f) s = f then c_sscanf g (drop (length f) s)
     else if s = take (length s) f then ScanEOF else ScanNone)"
  using assms
proof (induction f arbitrary: s)
  case Nil
  then show ?case by simp
next
  case (Cons c f)
  then show ?case by (cases s) auto
qed

lemma EOC_SSCAN_tag: "EOC_SSCAN = EOC_TAG @ ''%d'' @ [LF]"
  by (simp add: EOC_SSCAN_def EOC_TAG_def)

lemma EOC_TAG_chars: "\<forall>c \<in> set EOC_TAG. c \<noteq> CHR ''%'' \<and> \<not> c_isspace c"
  by (simp add: EOC_TAG_def c_isspace_def)

lemma length_EOC_TAG [simp]: "length EOC_TAG = 12"
  by (simp add: EOC_TAG_def)

text \<open>The line the shell prints for the command that reports its exit code.\<close>

definition eoc_line :: "nat \<Rightarrow> string" where
  "eoc_line n = EOC_TAG @ dec n @ [LF]"

lemma eoc_line_scan:
  assumes "n < 2 ^ 31"
  shows "c_sscanf EOC_SSCAN (eoc_line n) = ScanInt (int n)"
proof -
  have "c_sscanf EOC_SSCAN (eoc_line n) = c_sscanf (''%d'' @ [LF]) (dec n @ [LF])"
    unfolding EOC_SSCAN_tag eoc_line_def by (subst c_sscanf_literal [OF EOC_TAG_chars]) simp
  also have "\<dots> = ScanInt (int n)"
    using read_int_dec [of "[LF]" n] assms by (simp add: is_digit_def)
  finally show ?thesis .
qed

lemma not_in_EOC_TAG [simp]: "NUL \<notin> set EOC_TAG" "LF \<notin> set EOC_TAG"
  by (simp_all add: EOC_TAG_def)

lemma eoc_line_step:
  assumes "n < 2 ^ 31"
  shows "line_step (eoc_line n) v = v\<lparr>v_code := int n, v_signals := Suc (v_signals v)\<rparr>"
proof -
  have "NUL \<notin> set (eoc_line n)" "\<exists>a b. eoc_line n = a @ EOC_TAG @ b"
    by (simp_all add: eoc_line_def is_digit_def) (metis append_Nil)
  with eoc_line_scan [OF assms] show ?thesis by (simp add: line_step_def)
qed

text \<open>Text before the tag on its line: the tag is found, the scan is not at its start.\<close>

lemma late_tag_step:
  assumes "NUL \<notin> set out" and "take 12 (out @ EOC_TAG) \<noteq> EOC_TAG"
  shows "line_step (out @ eoc_line n) v = v\<lparr>v_signals := Suc (v_signals v)\<rparr>"
proof -
  let ?l = "out @ eoc_line n"
  have tk: "take 12 ?l = take 12 (out @ EOC_TAG)" by (simp add: eoc_line_def)
  have "?l \<noteq> take (length ?l) EOC_TAG"
    by (rule notI, drule arg_cong [of _ _ length]) (simp add: eoc_line_def)
  with assms(2) tk have "c_sscanf EOC_SSCAN ?l = ScanNone"
    unfolding EOC_SSCAN_tag by (subst c_sscanf_literal [OF EOC_TAG_chars]) auto
  moreover have "NUL \<notin> set ?l" using assms(1) by (simp add: eoc_line_def is_digit_def)
  moreover have "\<exists>a b. ?l = a @ EOC_TAG @ b" by (auto simp: eoc_line_def)
  ultimately show ?thesis by (simp add: line_step_def)
qed

lemma split_lines_no_LF:
  "LF \<notin> set t \<Longrightarrow> split_lines pre (t @ LF # s) =
     (case split_lines [] s of (ls, r) \<Rightarrow> ((pre @ t @ [LF]) # ls, r))"
  by (induction t arbitrary: pre) auto

definition output_line :: "string \<Rightarrow> bool" where
  "output_line l \<longleftrightarrow> (\<exists>t. l = t @ [LF] \<and> LF \<notin> set t \<and> NUL \<notin> set t) \<and> (\<nexists>a b. l = a @ EOC_TAG @ b)"

lemma split_lines_outputs:
  assumes "\<forall>l \<in> set ls. output_line l" and "split_lines [] s = (ms, r)"
  shows "split_lines [] (concat ls @ s) = (ls @ ms, r)"
  using assms(1)
proof (induction ls)
  case Nil
  with assms(2) show ?case by simp
next
  case (Cons l ls)
  then obtain t where "l = t @ [LF]" "LF \<notin> set t" by (auto simp: output_line_def)
  with Cons split_lines_no_LF [of t "[]" "concat ls @ s"] show ?case by simp
qed

lemma output_lines_fold:
  assumes "\<forall>l \<in> set ls. output_line l"
  shows "fold line_step ls v = v\<lparr>v_last := (if ls = [] then v_last v else Some (last ls)),
    v_log := v_log v @ (if v_echo v \<noteq> 0 then concat ls else [])\<rparr>"
  using assms
proof (induction ls arbitrary: v)
  case Nil
  then show ?case by simp
next
  case (Cons l ls)
  then obtain t where "l = t @ [LF]" "NUL \<notin> set t" "\<nexists>a b. l = a @ EOC_TAG @ b"
    by (auto simp: output_line_def)
  then have "line_step l v = v\<lparr>v_last := Some l, v_log := v_log v @ (if v_echo v \<noteq> 0 then l else [])\<rparr>"
    by (simp add: line_step_def Let_def)
  with Cons show ?case by simp
qed

lemma split_eoc_line:
  "LF \<notin> set out \<Longrightarrow> split_lines [] (out @ eoc_line n) = ([out @ eoc_line n], [])"
  using split_lines_no_LF [of "out @ EOC_TAG @ dec n" "[]" "[]"]
  by (simp add: eoc_line_def is_digit_def)

section \<open>What the handler leaves alone\<close>

text \<open>The fields of the session that are set once and never by the handler.\<close>

definition ptrs :: "su_shell_session \<Rightarrow> nat \<times> int \<times> int \<times> nat \<times> nat \<times> nat \<times> string" where
  "ptrs s = (block s, afun_client_fd s, shell_pid s, handler_pth s, shell_sync_mutex s, shell_sync_ready s,
     sun_path (afun_rdv_addr s))"

definition hframe :: "'a hproc_scheme \<Rightarrow> 'a hproc_scheme \<Rightarrow> bool" where
  "hframe w w' \<longleftrightarrow> fds w' = fds w \<and> acts w' = acts w \<and> log_fd w' = log_fd w
     \<and> places w' = places w \<and> map_option ptrs (su_session w') = map_option ptrs (su_session w)"

lemma hframe_refl [simp]: "hframe w w"
  by (simp add: hframe_def)

lemma hframe_trans: "hframe u v \<Longrightarrow> hframe v w \<Longrightarrow> hframe u w"
  by (simp add: hframe_def)

lemma hframe_cells [simp]: "hframe w (w\<lparr>handler_cells := cs\<rparr>)" "hframe w (w\<lparr>signals := n\<rparr>)"
  by (simp_all add: hframe_def log_fd_def places_eq)

lemma hframe_upd [simp]:
  "hframe w (upd (\<lambda>s. s\<lparr>handler_buf := p\<rparr>) w)" "hframe w (upd (\<lambda>s. s\<lparr>shell_cmd_exit_code := n\<rparr>) w)"
  "hframe w (upd (\<lambda>s. s\<lparr>last_tty_read := t\<rparr>) w)"
  by (cases "su_session w"; simp add: hframe_def log_fd_def ptrs_def places_eq)+

lemma hframe_os:
  "fds w' = fds w \<Longrightarrow> acts w' = acts w \<Longrightarrow> places w' = places w \<Longrightarrow> os.more w' = os.more w \<Longrightarrow> hframe w w'"
  using more_fields [of w' w] by (simp add: hframe_def log_fd_def)

lemma c_realloc_frame:
  "fds (snd (c_realloc E a n w)) = fds w" "acts (snd (c_realloc E a n w)) = acts w"
  "os.more (snd (c_realloc E a n w)) = os.more w" "nodes (snd (c_realloc E a n w)) = nodes w"
  by (simp_all add: c_realloc_def ask_def)

lemma free_if_acts [simp]: "acts (free_if a w) = acts w"
  by (simp add: free_if_def)

lemma hframe_alloc [simp]:
  "hframe w (snd (c_realloc E a n w))" "hframe w (snd (c_malloc E n w))" "hframe w (free_if a w)"
  by (auto intro!: hframe_os simp: c_realloc_frame intro: places_same)

lemma hframe_write:
  assumes "map_of (fds w) fd \<noteq> Some FConn"
  shows "hframe w (os_write fd s w)"
proof -
  have eq: "os_write fd s w = w\<lparr>nodes := nodes (os_write fd s w)\<rparr>"
    using os_write_log [OF assms, of s] by blast
  have "fds (os_write fd s w) = fds w" "acts (os_write fd s w) = acts w" by (subst eq; simp)+
  then show ?thesis by (intro hframe_os) simp_all
qed

lemma c_bind_Inr: "c_bind r f = Inr y \<longleftrightarrow> (\<exists>x. r = Inr x \<and> f x = Inr y)"
  by (cases r) auto

lemma grow_buf_frame:
  assumes "grow_buf E off w = Inr w'"
  shows "hframe w w'"
proof -
  have "hframe w ((upd (\<lambda>s. s\<lparr>handler_buf := p\<rparr>) (snd (c_realloc E a n w)))\<lparr>handler_cells := cs\<rparr>)" for p a n cs
    by (rule hframe_trans [OF hframe_trans [OF hframe_alloc(1) hframe_upd(1)] hframe_cells(1)])
  with assms show ?thesis
    by (auto simp: grow_buf_def c_bind_Inr Let_def split_beta split: if_splits)
qed

lemma put_cell_frame: "put_cell i c w = Inr w' \<Longrightarrow> hframe w w'"
  by (auto simp: put_cell_def c_bind_Inr split: if_splits)

lemma signal_ready_frame: "signal_ready w = Inr w' \<Longrightarrow> hframe w w'"
  by (auto simp: signal_ready_def c_bind_Inr split: if_splits)

lemma handle_eoc_frame: "handle_eoc l w = Inr w' \<Longrightarrow> hframe w w'"
  by (auto simp: handle_eoc_def split: scan_result.splits
      dest: signal_ready_frame hframe_trans [OF hframe_upd(2)])

lemma handle_output_frame:
  assumes "handle_output E fd l w = Inr w'" and fd: "map_of (fds w) fd \<noteq> Some FConn"
  shows "hframe w w'"
proof -
  obtain s where s: "deref w = Inr s" using assms(1) by (auto simp: handle_output_def c_bind_Inr)
  define v where "v = (if tty_echo s \<noteq> 0 then os_write fd l w else w)"
  define m where "m = c_malloc E (c_size (sizeof_ptr E) (c_int (int (c_strlen l) + 1))) v"
  define x where "x = upd (\<lambda>s. s\<lparr>last_tty_read := (if fst m = 0 then None else Some (fst m, l))\<rparr>) (snd m)"
  have "hframe w v" by (simp add: v_def hframe_write [OF fd])
  then have "hframe w (snd m)" unfolding m_def by (rule hframe_trans [OF _ hframe_alloc(2)])
  then have x: "hframe w x" unfolding x_def by (rule hframe_trans [OF _ hframe_upd(3)])
  have "w' = (case last_tty_read s of Some (b, _) \<Rightarrow> free_if b x | None \<Rightarrow> x)"
    unfolding x_def m_def v_def using assms(1) s by (simp add: handle_output_def Let_def split_beta)
  with x hframe_trans [OF x hframe_alloc(3)] show ?thesis by (auto split: option.splits)
qed

lemma handler_byte_frame:
  assumes "handler_byte E fd c off w = Inr (off', w')" and fd: "map_of (fds w) fd \<noteq> Some FConn"
  shows "hframe w w'"
proof -
  from assms(1) obtain w1 w2 where 1: "grow_buf E off w = Inr w1" "put_cell off c w1 = Inr w2"
    by (auto simp: handler_byte_def c_bind_Inr)
  have 2: "hframe w w2" using grow_buf_frame [OF 1(1)] put_cell_frame [OF 1(2)] by (rule hframe_trans)
  show ?thesis
  proof (cases "c = LF")
    case False
    with assms(1) 1 2 show ?thesis by (auto simp: handler_byte_def split: if_splits)
  next
    case True
    with assms(1) 1 obtain w3 l where 3: "put_cell (off + 1) NUL w2 = Inr w3"
      and l: "handle_eoc l w3 = Inr w' \<or> handle_output E fd l w3 = Inr w'"
      by (simp add: handler_byte_def c_bind_Inr split: if_splits) blast
    have 4: "hframe w w3" using 2 put_cell_frame [OF 3] by (rule hframe_trans)
    then have "map_of (fds w3) fd \<noteq> Some FConn" using fd by (simp add: hframe_def)
    with l have "hframe w3 w'"
      by (auto intro: handle_eoc_frame handle_output_frame)
    with 4 show ?thesis by (rule hframe_trans)
  qed
qed

lemma handler_loop_frame:
  "handler_loop E fd s off w = Inr (off', w') \<Longrightarrow> map_of (fds w) fd \<noteq> Some FConn \<Longrightarrow> hframe w w'"
proof (induction E fd s off w rule: handler_loop.induct)
  case (2 E fd c cs off w)
  from "2.prems"(1) obtain b where d: "handler_byte E fd c off w = Inr b"
    "handler_loop E fd cs (fst b) (snd b) = Inr (off', w')"
    by (auto simp: c_bind_Inr)
  have fr: "hframe w (snd b)" using handler_byte_frame [of E fd c off w "fst b" "snd b"] d(1) "2.prems"(2) by simp
  then have "map_of (fds (snd b)) fd \<noteq> Some FConn" using "2.prems"(2) by (simp add: hframe_def)
  with "2.IH" [OF d(2)] fr show ?case by (blast intro: hframe_trans)
qed (auto simp: c_bind_Inr)

section \<open>Properties\<close>

text \<open>C6: The loop is memory safe on every byte stream whose lines are shorter than 2 GB, although
  the guard of its \<open>realloc\<close> compares the offset with the size of a pointer: while
  \<open>realloc\<close> succeeds, no byte is written outside the block, no unwritten byte is read, and
  the loop ends with the offset at the length of the unfinished line.\<close>

theorem handler_memory_safe:
  fixes w :: "'a hproc_scheme"
  assumes "reading pre w" and "short_lines pre input" and "ptr_ok E" and "reallocs E"
  shows "\<exists>w'. handler_loop E fd input (int (length pre)) w =
    Inr (int (length (snd (split_lines pre input))), w') \<and> reading (snd (split_lines pre input)) w'"
  by (rule handler_loop_ok [OF assms, of "fst (split_lines pre input)" "snd (split_lines pre input)" fd])
    auto

text \<open>C7: The byte loop with its growing buffer refines the line discipline: what it stores,
  signals and logs for a stream is the fold of the effect of one line over the complete
  lines of the stream, while no allocation fails and the log is open.\<close>

theorem handler_refines_lines:
  fixes w :: "'a hproc_scheme"
  assumes "reading pre w" and "short_lines pre input" and "ptr_ok E" and "reallocs E" and "mallocs E"
    and "log_ready w" and "log_fd w = Some fd"
  shows "\<exists>off w'. handler_loop E fd input (int (length pre)) w = Inr (off, w')
    \<and> hview w' = fold line_step (fst (split_lines pre input)) (hview w) \<and> log_ready w'"
  by (rule handler_loop_ok [OF assms(1-4), of "fst (split_lines pre input)" "snd (split_lines pre input)" fd])
    (use assms(5-7) in auto)

text \<open>The result of \<open>realloc\<close> is stored unchecked: when it fails at the first byte of a line
  that does not fit in the size of a pointer less one, that byte is written through the null
  pointer.\<close>

theorem handler_realloc_failure:
  fixes w :: "'a hproc_scheme"
  assumes "reading pre w" and "int (sizeof_ptr E) - 2 < int (length pre)"
    and "int (length pre) + 32 \<le> INT_MAX" and "ptr_ok E"
    and "fails E (Realloc (int (length pre) + 32)) (tick w) \<noteq> 0"
  shows "handler_loop E fd (c # input) (int (length pre)) w = Inl NullDeref"
proof -
  from assms(1) obtain s where s: "su_session w = Some s" by (auto simp: reading_def)
  have n: "c_size (sizeof_ptr E) (int (length pre)) = int (length pre)"
    "c_size (sizeof_ptr E) (int (length pre) + 32) = int (length pre) + 32"
    using assms(3) ptr_ok_size(1) [OF assms(4)] by simp_all
  have "c_realloc E (handler_buf s) (int (length pre) + 32) w =
      (0, w\<lparr>tick := Suc (tick w), errno := ENOMEM\<rparr>)"
    using assms(5) by (simp add: c_realloc_def ask_def)
  with s n assms(2,3) show ?thesis
    by (simp add: handler_byte_def grow_buf_def put_cell_def deref_def upd_def Let_def)
qed

text \<open>C8: When a command prints complete lines and its exit code is reported on a line of its own,
  the code arrives exactly, one signal is raised, the lines are echoed in order if echo is
  on, and the last of them is the last line read.\<close>

theorem handler_command:
  fixes w :: "'a hproc_scheme"
  assumes "reading [] w" and "\<forall>l \<in> set outs. output_line l" and "n < 2 ^ 31"
    and "short_lines [] (concat outs @ eoc_line n)"
    and "ptr_ok E" and "reallocs E" and "mallocs E" and "log_ready w" and "log_fd w = Some fd"
  shows "\<exists>w'. handler_loop E fd (concat outs @ eoc_line n) 0 w = Inr (0, w')
    \<and> hview w' = (hview w)\<lparr>v_code := int n, v_signals := Suc (v_signals (hview w)),
        v_last := (if outs = [] then v_last (hview w) else Some (last outs)),
        v_log := v_log (hview w) @ (if v_echo (hview w) \<noteq> 0 then concat outs else [])\<rparr>"
proof -
  have sp: "split_lines [] (concat outs @ eoc_line n) = (outs @ [eoc_line n], [])"
    using split_lines_outputs [OF assms(2)] split_eoc_line [of "[]" n] by simp
  obtain w' where "handler_loop E fd (concat outs @ eoc_line n) (int (length [])) w = Inr (int (length []), w')"
    "hview w' = fold line_step (outs @ [eoc_line n]) (hview w)"
    by (rule handler_loop_ok [OF assms(1,4-6) sp, of fd]) (use assms(7-9) in fastforce)
  then show ?thesis
    using output_lines_fold [OF assms(2)] eoc_line_step [OF assms(3)] by simp
qed

text \<open>C34: When the output of a command does not end with a line feed, its last text and the exit
  code share a line: the signal is raised, but the exit code is not stored, and the text is
  neither logged nor kept.\<close>

theorem handler_unterminated:
  fixes w :: "'a hproc_scheme"
  assumes "reading [] w" and "LF \<notin> set out" and "NUL \<notin> set out" and "take 12 (out @ EOC_TAG) \<noteq> EOC_TAG"
    and "short_lines [] (out @ eoc_line n)"
    and "ptr_ok E" and "reallocs E" and "mallocs E" and "log_ready w" and "log_fd w = Some fd"
  shows "\<exists>w'. handler_loop E fd (out @ eoc_line n) 0 w = Inr (0, w')
    \<and> hview w' = (hview w)\<lparr>v_signals := Suc (v_signals (hview w))\<rparr>"
proof -
  obtain w' where "handler_loop E fd (out @ eoc_line n) (int (length [])) w = Inr (int (length []), w')"
    "hview w' = fold line_step [out @ eoc_line n] (hview w)"
    by (rule handler_loop_ok [OF assms(1,5-7) split_eoc_line [OF assms(2)], of fd])
      (use assms(8-10) in fastforce)
  then show ?thesis using late_tag_step [OF assms(3,4)] by simp
qed

section \<open>Instances\<close>

text \<open>The handler of the sample session, its log open on descriptor 3.\<close>

definition sample_hproc :: hproc where
  "sample_hproc = \<lparr>tick = 0, errno = 0, brk = 5, heap = [5, 4, 3, 2, 1],
     nodes = [(''/l'', NFile ''log:''), (''/d/var/run/su-00007'', NSock)],
     fds = [(5, FConn), (3, FFile ''/l'')], acts = [],
     su_srv_log_path = Some (9, ''/l''), su_srv_log_fptr = Some \<lparr>cf_fd = 3, cf_buf = []\<rparr>,
     su_session = Some sample_su_session, SU_SRV_SIGMASK = [], blocked = [], threads = [],
     handler_cells = replicate 32 None, signals = 0\<rparr>"

definition no_realloc_env :: env where
  "no_realloc_env = sample_env\<lparr>fails := (\<lambda>c t. case c of Realloc _ \<Rightarrow> 12 | _ \<Rightarrow> 0)\<rparr>"

lemma sample_reading: "reading [] sample_hproc"
  by (simp add: reading_def sample_hproc_def sample_su_session_def)

lemma sample_log_open: "log_ready sample_hproc" "log_fd sample_hproc = Some 3"
  by (simp_all add: log_ready_def log_fd_def sample_hproc_def node_at_def)

lemma sample_env_ok: "ptr_ok sample_env" "reallocs sample_env" "mallocs sample_env"
  by (simp_all add: ptr_ok_def reallocs_def mallocs_def sample_env_def)

lemma sample_short:
  "short_lines [] (concat [''uid=0'' @ [LF]] @ eoc_line 3)" "short_lines [] (''uid'' @ eoc_line 3)"
  by code_simp+

lemma no_tag_in:
  assumes "\<forall>i \<le> length s. take 12 (drop i s) \<noteq> EOC_TAG"
  shows "\<nexists>a b. s = a @ EOC_TAG @ b"
proof (safe)
  fix a b
  assume s: "s = a @ EOC_TAG @ b"
  then have "length a \<le> length s" by simp
  with assms have "take 12 (drop (length a) s) \<noteq> EOC_TAG" by blast
  with s show False by simp
qed

lemma sample_output: "output_line (''uid=0'' @ [LF])"
proof -
  have "\<forall>i \<le> length (''uid=0'' @ [LF]). take 12 (drop i (''uid=0'' @ [LF])) \<noteq> EOC_TAG"
    by (auto simp: le_Suc_eq EOC_TAG_def)
  then show ?thesis
    unfolding output_line_def using no_tag_in by fastforce
qed

theorem handler_memory_safe_witness:
  "\<exists>w'. handler_loop sample_env 3 (''uid'' @ eoc_line 3) 0 sample_hproc = Inr (0, w')"
  using handler_memory_safe [OF sample_reading sample_short(2) sample_env_ok(1,2), of 3]
    split_eoc_line [of "''uid''" 3]
  by auto

theorem handler_refines_lines_witness:
  "\<exists>off w'. handler_loop sample_env 3 (concat [''uid=0'' @ [LF]] @ eoc_line 3) 0 sample_hproc = Inr (off, w')
     \<and> v_log (hview w') = ''log:uid=0'' @ [LF]"
proof -
  have "split_lines [] (concat [''uid=0'' @ [LF]] @ eoc_line 3) = ([''uid=0'' @ [LF], eoc_line 3], [])"
    using split_lines_outputs [of "[''uid=0'' @ [LF]]" "eoc_line 3"] split_eoc_line [of "[]" 3] sample_output
    by simp
  moreover have "v_log (hview sample_hproc) = ''log:''" "v_echo (hview sample_hproc) = 1"
    by (simp_all add: hview_def log_text_def log_file_def node_at_def sample_hproc_def sample_su_session_def)
  ultimately show ?thesis
    using handler_refines_lines [OF sample_reading sample_short(1) sample_env_ok sample_log_open]
      output_lines_fold [of "[''uid=0'' @ [LF]]" "hview sample_hproc"] eoc_line_step [of 3] sample_output
    by auto
qed

theorem handler_realloc_failure_witness:
  "handler_loop no_realloc_env 3 ''8'' 7
     (sample_hproc\<lparr>handler_cells := map Some ''1234567'' @ replicate 25 None\<rparr>) = Inl NullDeref"
  using handler_realloc_failure [of "''1234567''" "sample_hproc\<lparr>handler_cells := map Some ''1234567'' @ replicate 25 None\<rparr>"
      no_realloc_env 3 "CHR ''8''" "[]"]
  by (simp add: reading_def sample_hproc_def sample_su_session_def no_realloc_env_def sample_env_def
      INT_MAX_def ptr_ok_def)

theorem handler_command_witness:
  "\<exists>w'. handler_loop sample_env 3 (concat [''uid=0'' @ [LF]] @ eoc_line 3) 0 sample_hproc = Inr (0, w')
     \<and> v_code (hview w') = 3 \<and> v_signals (hview w') = 1 \<and> v_last (hview w') = Some (''uid=0'' @ [LF])"
  using handler_command [OF sample_reading _ _ sample_short(1) sample_env_ok sample_log_open] sample_output
  by (auto simp: hview_def sample_hproc_def)

theorem handler_unterminated_witness:
  "\<exists>w'. handler_loop sample_env 3 (''uid'' @ eoc_line 3) 0 sample_hproc = Inr (0, w')
     \<and> v_code (hview w') = v_code (hview sample_hproc) \<and> v_last (hview w') = None"
  using handler_unterminated [OF sample_reading _ _ _ sample_short(2) sample_env_ok sample_log_open]
  by (auto simp: hview_def sample_hproc_def sample_su_session_def EOC_TAG_def)

end
