(* ===== verification/Api.thy ===== *)
theory Api
  imports Handler
begin

text \<open>
  The public calls of \<open>jni/su_srv.c\<close>: opening a session, and the calls that read or set a
  field of the bound one. \<open>su_srv_exec\<close> and \<open>su_srv_exit_shell_session\<close> block on other
  threads; their straight-line parts are here, their steps are in theory Conc.
\<close>

section \<open>Opening a session\<close>

text \<open>What follows a rendez-vous that gave a peer: the shell, the handler, the peer closed.\<close>

definition open_shell ::
  "env \<Rightarrow> int \<Rightarrow> su_shell_session \<Rightarrow> 'a process_scheme
     \<Rightarrow> (int \<times> su_shell_session, 'a process_scheme) run c_result" where
  "open_shell E peer_fd session w =
     (let w = su_srv_log_printf ''AF UNIX rendez-vous completed'' [] w
      in case shell_start_process E peer_fd session w of
           Inl fault \<Rightarrow> Inl fault
         | Inr (Becomes path argv envp t) \<Rightarrow> Inr (Becomes path argv envp t)
         | Inr (Returns (last_err, session) w) \<Rightarrow>
             if last_err \<noteq> 0 then
               let w = su_srv_log_printf ''Failed to create SU shell process !'' [] w
               in Inr (Returns (last_err, session) (os_close peer_fd w))
             else
               let w = su_srv_log_printf ''Created SU shell child process (PID: %d)''
                         [FInt (shell_pid session)] w
               in case create_handler_thread E session w of
                    Inl fault \<Rightarrow> Inl fault
                  | Inr (last_err, w) \<Rightarrow>
                      if last_err \<noteq> 0 then
                        let w = su_srv_log_printf ''Failed to create handler thread !'' [] w
                        in case shell_stop_process E session w of
                             Inl fault \<Rightarrow> Inl fault
                           | Inr (_, w) \<Rightarrow> Inr (Returns (last_err, session) (os_close peer_fd w))
                      else Inr (Returns (0, session) (os_close peer_fd w)))"

text \<open>The last part: the session is deleted on an error and bound otherwise.\<close>

definition open_finish ::
  "int \<Rightarrow> su_shell_session \<Rightarrow> 'a process_scheme \<Rightarrow> (int, 'a process_scheme) run c_result" where
  "open_finish last_err session w =
     (if last_err \<noteq> 0 then
        case su_shell_session_delete session w of
          Inl fault \<Rightarrow> Inl fault
        | Inr w \<Rightarrow> Inr (Returns last_err w)
      else Inr (Returns last_err (w\<lparr>su_session := Some session\<rparr>)))"

definition su_srv_open_shell_session ::
  "env \<Rightarrow> string \<Rightarrow> 'a process_scheme \<Rightarrow> (int, 'a process_scheme) run c_result" where
  "su_srv_open_shell_session E root w =
     (if su_session w \<noteq> None then Inr (Returns SU_SRV_SESSION_EXISTS_ERR w)
      else
        let (e, w) = su_srv_pfs_init E root w
        in if e \<noteq> 0 then Inr (Returns SU_SRV_SYSTEM_ERR w)
           else
             let pid = self_pid E;
                 w = snd (su_srv_log_init E root pid w);
                 last_err = SU_SRV_SYSTEM_ERR
             in case su_shell_session_new E root pid w of
                  Inl fault \<Rightarrow> Inl fault
                | Inr (None, w) \<Rightarrow> Inr (Returns last_err w)
                | Inr (Some session, w) \<Rightarrow>
                    let path = sun_path (afun_rdv_addr session);
                        w = su_srv_log_printf ''Initializing SU shell session:'' [] w;
                        w = su_srv_log_printf ''owner PID: %d'' [FInt (owner_pid session)] w;
                        w = su_srv_log_printf ''AF UNIX path: %s (%d)''
                              [FStr path, FInt (int (c_strlen path) + 1)] w;
                        (peer_fd, session, w) = su_shell_session_af_un_rdv E session w
                    in if peer_fd > 0 then
                         case open_shell E peer_fd session w of
                           Inl fault \<Rightarrow> Inl fault
                         | Inr (Becomes path argv envp t) \<Rightarrow> Inr (Becomes path argv envp t)
                         | Inr (Returns (last_err, session) w) \<Rightarrow> open_finish last_err session w
                       else open_finish last_err session w)"

section \<open>Reading and setting the bound session\<close>

text \<open>A string result is a pointer into the session or the log: its text, \<open>None\<close> when null.\<close>

definition su_srv_last_tty_read :: "'a process_scheme \<Rightarrow> string option" where
  "su_srv_last_tty_read w =
     (case su_session w of None \<Rightarrow> None | Some s \<Rightarrow> map_option snd (last_tty_read s))"

definition su_srv_set_tty_echo :: "int \<Rightarrow> 'a process_scheme \<Rightarrow> 'a process_scheme" where
  "su_srv_set_tty_echo echo w =
     (case su_session w of
        None \<Rightarrow> w
      | Some s \<Rightarrow> w\<lparr>su_session := Some (s\<lparr>tty_echo := (if echo \<noteq> 0 then 1 else 0)\<rparr>)\<rparr>)"

definition su_srv_get_tty_echo :: "'a process_scheme \<Rightarrow> int" where
  "su_srv_get_tty_echo w = (case su_session w of None \<Rightarrow> - 1 | Some s \<Rightarrow> tty_echo s)"

definition su_srv_ping_shell_session :: "'a process_scheme \<Rightarrow> int" where
  "su_srv_ping_shell_session w = (if su_session w \<noteq> None then 1 else 0)"

definition su_srv_tty_path :: "'a process_scheme \<Rightarrow> string option" where
  "su_srv_tty_path w =
     (if su_session w \<noteq> None then map_option snd (su_srv_log_path w) else None)"

section \<open>The straight-line parts of exec\<close>

text \<open>The writes of \<open>su_srv_exec\<close>, in order; each goes to the client socket in one call.\<close>

definition exec_writes :: "string \<Rightarrow> string list" where
  "exec_writes cmd_str = [cstr cmd_str, [LF], EOC_CMD, [LF]]"

definition exec_no_session :: "string \<Rightarrow> 'a process_scheme \<Rightarrow> int \<times> 'a process_scheme" where
  "exec_no_session cmd_str w =
     (SU_SRV_NO_SESSION_ERR, su_srv_log_printf ''Ignored exec(%s): no session'' [FStr cmd_str] w)"

text \<open>One of the writes, and the reset of the exit code after them.\<close>

definition exec_write :: "string \<Rightarrow> 'a process_scheme \<Rightarrow> 'a process_scheme c_result" where
  "exec_write s w = c_bind (deref w) (\<lambda>se. Inr (os_write (afun_client_fd se) s w))"

definition exec_reset :: "'a process_scheme \<Rightarrow> 'a process_scheme c_result" where
  "exec_reset w =
     c_bind (deref w) (\<lambda>se. Inr (upd (\<lambda>s. s\<lparr>shell_cmd_exit_code := SU_SRV_INVALID_RESULT_ERR\<rparr>) w))"

definition exec_result :: "'a process_scheme \<Rightarrow> int c_result" where
  "exec_result w = c_bind (deref w) (\<lambda>se. Inr (shell_cmd_exit_code se))"

section \<open>Frames of opening\<close>

text \<open>What the calls leave alone: the blocks, and the globals of the unit.\<close>

definition same_bound :: "'a process_scheme \<Rightarrow> 'a process_scheme \<Rightarrow> bool" where
  "same_bound w w' \<longleftrightarrow> heap w' = heap w \<and> log_os.more w' = log_os.more w"

lemma same_bound_trans [trans]: "same_bound u v \<Longrightarrow> same_bound v w \<Longrightarrow> same_bound u w"
  by (simp add: same_bound_def)

lemma same_bound_session:
  "same_bound w w' \<Longrightarrow> su_session w' = su_session w" "same_bound w w' \<Longrightarrow> threads w' = threads w"
  "same_bound w w' \<Longrightarrow> live w' = live w"
  unfolding same_bound_def by (cases w; cases w'; simp add: live_def)+

lemma os_write_bound: "heap (os_write fd s w) = heap w" "log_os.more (os_write fd s w) = log_os.more w"
  by (auto simp: os_write_def set_node_def split: option.splits fdesc.splits node.splits)

lemma log_calls_bound [intro]:
  "same_bound w (su_srv_log_printf fmt args w)" "same_bound w (su_srv_log_perror E msg w)"
  by (auto simp: same_bound_def su_srv_log_printf_def su_srv_log_perror_def su_srv_log_print_header_def
      su_srv_log_print_footer_def c_fprintf_def c_fflush_def Let_def os_write_bound split: option.splits)

lemma os_calls_bound:
  "same_bound w (snd (os_socket E w))" "same_bound w (snd (os_bind E fd p w))"
  "same_bound w (snd (os_listen E fd w))" "same_bound w (snd (os_connect E fd p w))"
  "same_bound w (snd (os_accept E fd w))" "same_bound w (os_close fd w)"
  "same_bound w (snd (os_fork E w))" "same_bound w (os_dup2 a b w)"
  by (auto simp: same_bound_def os_defs fail_def set_node_def Let_def os_fork_def os_dup2_def
      split: option.splits fdesc.splits)

lemma rdv_bound:
  assumes "su_shell_session_af_un_rdv E s w = (p, s', w')"
  shows "same_bound w w' \<and> s' = s\<lparr>afun_client_fd := afun_client_fd s'\<rparr>"
proof -
  note step = os_calls_bound(1-6) log_calls_bound
  have s: "same_bound w v \<Longrightarrow> same_bound w (snd (os_socket E v))"
    "same_bound w v \<Longrightarrow> same_bound w (snd (os_bind E fd q v))"
    "same_bound w v \<Longrightarrow> same_bound w (snd (os_listen E fd v))"
    "same_bound w v \<Longrightarrow> same_bound w (snd (os_connect E fd q v))"
    "same_bound w v \<Longrightarrow> same_bound w (snd (os_accept E fd v))"
    "same_bound w v \<Longrightarrow> same_bound w (os_close fd v)"
    "same_bound w v \<Longrightarrow> same_bound w (su_srv_log_perror E msg v)" for v fd q msg
    by (blast intro: same_bound_trans step)+
  have r: "same_bound w w" by (simp add: same_bound_def)
  show ?thesis
    using assms by (auto simp: su_shell_session_af_un_rdv_def Let_def split_beta s r split: if_splits)
qed

lemma find_su_bound:
  assumes "find_su_binary E w = Inr (p, w')" and "2 \<le> sizeof_ptr E"
  shows "same_bound w w'"
proof (cases rule: find_su_binary_cases [OF assms(2), of w, case_names found none])
  case (found i v)
  have "same_bound w v" using found(3) unfolding quiet_def same_bound_def by (cases w; cases v) simp
  with found(2) assms(1) show ?thesis by simp
qed (use assms(1) in simp)

lemma start_bound:
  assumes "shell_start_process E fd s w = Inr (Returns (e, s') w')" and "2 \<le> sizeof_ptr E"
  shows "same_bound w w' \<and> s' = s\<lparr>shell_pid := shell_pid s'\<rparr> \<and> (e = 0 \<or> e = SU_SRV_SYSTEM_ERR)"
proof -
  obtain p v where p: "find_su_binary E w = Inr (p, v)"
    using assms(1) by (auto simp: shell_start_process_def split: sum.splits)
  note b = find_su_bound [OF p assms(2)]
  have t: "same_bound v u \<Longrightarrow> same_bound w u" for u by (rule same_bound_trans [OF b])
  have c: "same_bound v u \<Longrightarrow> same_bound v (su_srv_log_printf fmt args u)"
    "same_bound v u \<Longrightarrow> same_bound v (su_srv_log_perror E msg u)"
    "same_bound v u \<Longrightarrow> same_bound v (snd (os_fork E u))"
    "same_bound v u \<Longrightarrow> same_bound v (os_dup2 a d u)" for u fmt args msg a d
    by ((erule same_bound_trans, rule log_calls_bound os_calls_bound)+)
  have m: "same_bound v u \<Longrightarrow> same_bound v (u\<lparr>tick := k, errno := n\<rparr>)" for u k n
    by (simp add: same_bound_def)
  have r: "same_bound v v" by (simp add: same_bound_def)
  show ?thesis
    using assms(1) p
    by (auto simp: shell_start_process_def Let_def split_beta ask_def t c m r split: option.splits if_splits)
qed

lemma create_thread_frame:
  assumes "create_handler_thread E s w = Inr (e, w')"
  shows "su_session w' = su_session w \<and> live w' = live w
    \<and> threads w' = (if e = 0 then (handler_pth s, List.insert SIGCHLD (blocked w)) # threads w else threads w)"
  using assms
  by (auto simp: create_handler_thread_def os_pthread_create_def pth_block_sigchld_def
      pth_unblock_sigchld_def ask_def Let_def live_def split: if_splits)

lemma stop_unbound: "su_session w = None \<Longrightarrow> shell_stop_process E s w = Inl NullDeref"
  by (simp add: shell_stop_process_def shell_try_exit_command_def Let_def)

lemma log_init_frame:
  shows "\<exists>b. live (snd (su_srv_log_init E r pid w)) = live w + blk b"
    and "log_os.more (snd (su_srv_log_init E r pid w)) = log_os.more w"
proof -
  have "live (snd (c_fopen_append E p v)) = live v" "log_os.more (snd (c_fopen_append E p v)) = log_os.more v"
    for p and v :: "'a log_os_scheme"
    by (auto simp: c_fopen_append_def os_open_append_def ask_def fail_def new_fd_def set_node_def live_def
        split_beta split: option.splits node.splits)
  moreover have "live (v\<lparr>su_srv_log_path := p\<rparr>) = live v" "live (v\<lparr>su_srv_log_fptr := f\<rparr>) = live v"
    for v :: "'a log_os_scheme" and p f by (simp_all add: live_def)
  moreover have "log_os.more (snd (c_malloc E n v)) = log_os.more v" for n and v :: "'a log_os_scheme"
    by (simp add: c_malloc_def ask_def)
  ultimately have "live (snd (su_srv_log_init E r pid w)) = live w + blk
        (fst (c_malloc E (c_size (sizeof_ptr E) (c_int (int (c_strlen r) + SU_SRV_LOG_WLEN + 1))) w))"
    and "log_os.more (snd (su_srv_log_init E r pid w)) = log_os.more w"
    by (auto simp: su_srv_log_init_def Let_def split_beta)
  then show "\<exists>b. live (snd (su_srv_log_init E r pid w)) = live w + blk b"
    and "log_os.more (snd (su_srv_log_init E r pid w)) = log_os.more w" by auto
qed

text \<open>
  A failed thread creation is met with \<open>shell_stop_process\<close>, which sends the exit command to
  the bound session; none is bound yet.
\<close>

lemma open_shell_result:
  assumes run: "open_shell E p s w = Inr (Returns (e, s') w')" and "su_session w = None"
    and "2 \<le> sizeof_ptr E"
  shows "su_session w' = None \<and> live w' = live w \<and> s' = s\<lparr>shell_pid := shell_pid s'\<rparr>
    \<and> (e = 0 \<and> (\<exists>m. SIGCHLD \<in> set m \<and> threads w' = (handler_pth s, m) # threads w)
       \<or> e = SU_SRV_SYSTEM_ERR \<and> threads w' = threads w)"
proof -
  define w1 where "w1 = su_srv_log_printf ''AF UNIX rendez-vous completed'' [] w"
  have b1: "same_bound w w1" by (auto simp: w1_def)
  from run obtain e2 s2 w2 where st: "shell_start_process E p s w1 = Inr (Returns (e2, s2) w2)"
    by (auto simp: open_shell_def Let_def w1_def split: sum.splits run.splits)
  note start = start_bound [OF st assms(3)]
  have b2: "same_bound w w2" using same_bound_trans [OF b1] start by blast
  have cl: "live (os_close p v) = live v" "su_session (os_close p v) = su_session v"
    "threads (os_close p v) = threads v" for v :: "'a process_scheme"
    by (simp_all add: os_close_def)
  show ?thesis
  proof (cases "e2 = 0")
    case False
    define w3 where "w3 = su_srv_log_printf ''Failed to create SU shell process !'' [] w2"
    have b3: "same_bound w w3" unfolding w3_def by (rule same_bound_trans [OF b2]) auto
    have "e = e2" "s' = s2" "w' = os_close p w3"
      using run False by (simp_all add: open_shell_def Let_def st w3_def flip: w1_def)
    with start False same_bound_session [OF b3] assms(2) show ?thesis by (simp add: cl)
  next
    case True
    define w3 where "w3 = su_srv_log_printf ''Created SU shell child process (PID: %d)'' [FInt (shell_pid s2)] w2"
    have b3: "same_bound w w3" unfolding w3_def by (rule same_bound_trans [OF b2]) auto
    from run True obtain e4 w4 where th: "create_handler_thread E s2 w3 = Inr (e4, w4)"
      by (auto simp: open_shell_def Let_def st w3_def simp flip: w1_def split: sum.splits)
    note fr = create_thread_frame [OF th]
    define w5 where "w5 = su_srv_log_printf ''Failed to create handler thread !'' [] w4"
    have "su_session w5 = None"
      using same_bound_session(1) [OF log_calls_bound(1), where w = w4] fr same_bound_session [OF b3] assms(2)
      by (simp add: w5_def)
    from stop_unbound [OF this] run True have "e4 = 0" "e = 0" "s' = s2" "w' = os_close p w4"
      by (auto simp: open_shell_def Let_def st th simp flip: w1_def w3_def w5_def split: if_splits)
    moreover have "handler_pth s2 = handler_pth s" using start by (cases s; cases s2) auto
    ultimately show ?thesis
      using fr same_bound_session [OF b3] assms(2) start
      by (auto simp: cl intro!: exI [of _ "List.insert SIGCHLD (blocked w3)"])
  qed
qed

lemma open_finish_result:
  assumes "open_finish e s w = Inr (Returns e' w')" and "su_session w = None" and "block s \<noteq> 0"
  shows "e' = e \<and> (if e = 0 then su_session w' = Some s \<and> live w' = live w \<and> threads w' = threads w
    else su_session w' = None \<and> live w' = live w - session_blocks s)"
proof (cases "e = 0")
  case True
  with assms show ?thesis by (auto simp: open_finish_def live_def)
next
  case False
  with assms(1) have d: "su_shell_session_delete s w = Inr w'" "e' = e"
    by (auto simp: open_finish_def split: sum.splits)
  then have "shell_sync_mutex s \<noteq> 0" "shell_sync_ready s \<noteq> 0"
    by (auto simp: su_shell_session_delete_def destroy_mutexes_def split: if_splits)
  from session_delete_ok [OF this assms(3), of w] d obtain
    "live w' = live w - session_blocks s" "os.more w' = os.more w" by (metis sum.inject(2))
  with False d(2) process_more [of w' w] assms(2) show ?thesis by simp
qed

text \<open>From the rendez-vous to the end, for a session just created.\<close>

lemma open_rest:
  fixes w :: "'a process_scheme"
  assumes rdv: "su_shell_session_af_un_rdv E s w = (p, s4, w4)" and un: "su_session w = None" and bl: "block s \<noteq> 0"
    and fin: "(if p > 0 then case open_shell E p s4 w4 of Inl f \<Rightarrow> Inl f
        | Inr (Becomes path argv envp t) \<Rightarrow> Inr (Becomes path argv envp t)
        | Inr (Returns (e, s) w) \<Rightarrow> open_finish e s w
      else open_finish SU_SRV_SYSTEM_ERR s4 w4) = Inr (Returns e w')"
    and two: "2 \<le> sizeof_ptr E"
  shows "if e = 0 then \<exists>s' m. su_session w' = Some s' \<and> pfs_root s' = pfs_root s \<and> owner_pid s' = owner_pid s
        \<and> afun_client_fd s' > 0 \<and> SIGCHLD \<in> set m \<and> threads w' = (handler_pth s', m) # threads w
        \<and> live w' = live w \<and> session_blocks s' = session_blocks s
      else e = SU_SRV_SYSTEM_ERR \<and> su_session w' = None \<and> live w' = live w - session_blocks s"
proof -
  note r4 = rdv_bound [OF rdv]
  then have w4: "su_session w4 = None" "threads w4 = threads w" "live w4 = live w"
    using same_bound_session [of w w4] un by simp_all
  have blocks: "session_blocks s4 = session_blocks s" "block s4 \<noteq> 0" "pfs_root s4 = pfs_root s"
    "owner_pid s4 = owner_pid s"
    using r4 bl by (cases s; cases s4; auto simp: session_blocks_def tty_block_def)+
  show ?thesis
  proof (cases "p > 0")
    case False
    with fin have "open_finish SU_SRV_SYSTEM_ERR s4 w4 = Inr (Returns e w')" by simp
    from open_finish_result [OF this w4(1) blocks(2)] w4(3) blocks(1) show ?thesis by (auto simp: SU_SRV_SYSTEM_ERR_def)
  next
    case True
    with fin obtain e5 s5 w5 where sh: "open_shell E p s4 w4 = Inr (Returns (e5, s5) w5)"
      and fin: "open_finish e5 s5 w5 = Inr (Returns e w')"
      by (auto split: sum.splits run.splits)
    note res = open_shell_result [OF sh w4(1) two]
    have s5: "block s5 \<noteq> 0" "session_blocks s5 = session_blocks s" "pfs_root s5 = pfs_root s"
      "owner_pid s5 = owner_pid s" "handler_pth s5 = handler_pth s4" "afun_client_fd s5 = afun_client_fd s4"
      using res blocks by (cases s4; cases s5; auto simp: session_blocks_def tty_block_def)+
    have "0 \<le> p" using True by simp
    then have "afun_client_fd s4 > 0" by (rule rdv_stages [OF rdv]) simp
    with open_finish_result [OF fin _ s5(1)] res w4 s5 show ?thesis by (auto simp: SU_SRV_SYSTEM_ERR_def)
  qed
qed

section \<open>Properties\<close>


text \<open>C35: When the handler thread cannot be created, \<open>su_srv_open_shell_session\<close> does not return
  the error: it stops the shell through the bound session, and none is bound yet, so the
  null pointer is dereferenced.\<close>

theorem open_thread_failure:
  assumes "su_session w = None" and "2 \<le> sizeof_ptr E" and "\<forall>t. fails E PthreadCreate t \<noteq> 0"
    and "shell_start_process E p s (su_srv_log_printf ''AF UNIX rendez-vous completed'' [] w) =
      Inr (Returns (0, s') w1)"
  shows "open_shell E p s w = Inl NullDeref"
proof -
  define w2 where "w2 = su_srv_log_printf ''Created SU shell child process (PID: %d)'' [FInt (shell_pid s')] w1"
  have "same_bound (su_srv_log_printf ''AF UNIX rendez-vous completed'' [] w) w1"
    using start_bound [OF assms(4,2)] by blast
  then have b: "same_bound w w2"
    unfolding w2_def
    by (rule same_bound_trans [OF log_calls_bound(1) same_bound_trans [OF _ log_calls_bound(1)]])
  obtain e w3 where th: "create_handler_thread E s' w2 = Inr (e, w3)" and "e \<noteq> 0"
    using assms(3) by (auto simp: create_handler_thread_def os_pthread_create_def ask_def Let_def)
  define w4 where "w4 = su_srv_log_printf ''Failed to create handler thread !'' [] w3"
  have "su_session w4 = None"
    using same_bound_session(1) [OF log_calls_bound(1), where w = w3] create_thread_frame [OF th]
      same_bound_session(1) [OF b] assms(1) by (simp add: w4_def)
  from stop_unbound [OF this] \<open>e \<noteq> 0\<close> show ?thesis
    by (simp add: open_shell_def Let_def assms(4) th flip: w2_def w4_def)
qed

text \<open>Echo is a switch of the bound session: what was set is read back as 0 or 1, a negative
  value without a session, and with echo off no stream of lines reaches the log, while with
  echo on exactly the lines without the tag do.\<close>

theorem tty_echo_switch:
  fixes w :: "'a hproc_scheme"
  defines "shown \<equiv> \<lambda>ls. concat (filter (\<lambda>s. \<nexists>a b. s = a @ EOC_TAG @ b) (map cstr ls))"
  shows "su_srv_get_tty_echo (su_srv_set_tty_echo e w) =
      (if su_session w = None then - 1 else if e \<noteq> 0 then 1 else 0)
    \<and> (su_session w \<noteq> None \<longrightarrow> v_log (fold line_step ls (hview (su_srv_set_tty_echo e w))) =
      log_text w @ (if e \<noteq> 0 then shown ls else []))"
proof -
  have fold: "v_log (fold line_step ls v) = v_log v @ (if v_echo v \<noteq> 0 then shown ls else [])" for v
  proof (induction ls arbitrary: v)
    case Nil
    then show ?case by (simp add: shown_def)
  next
    case (Cons l ls)
    have "v_echo (line_step l v) = v_echo v"
      by (simp add: line_step_def Let_def split: scan_result.splits)
    moreover have "v_log (line_step l v) = v_log v @ (if v_echo v \<noteq> 0 then shown [l] else [])"
      by (auto simp: line_step_def Let_def shown_def split: scan_result.splits)
    moreover have "shown (l # ls) = shown [l] @ shown ls" by (simp add: shown_def)
    ultimately show ?case using Cons by simp
  qed
  have "hview (su_srv_set_tty_echo e w) = (hview w)\<lparr>v_echo := (if e \<noteq> 0 then 1 else 0)\<rparr>"
    and "v_log (hview w) = log_text w" if "su_session w \<noteq> None"
    using that by (auto simp: su_srv_set_tty_echo_def hview_def log_text_def log_file_def node_at_def
        cong: option.case_cong fdesc.case_cong)
  with fold show ?thesis
    by (auto simp: su_srv_set_tty_echo_def su_srv_get_tty_echo_def split: option.splits)
qed

section \<open>Instances\<close>

text \<open>An opening that succeeds, stage by stage, in a system where the log cannot be opened.\<close>

definition no_log_env :: env where
  "no_log_env = sample_env\<lparr>fails := (\<lambda>c t. case c of Fopen _ \<Rightarrow> 13 | _ \<Rightarrow> 0)\<rparr>"

definition open_nodes :: "(string \<times> node) list" where
  "open_nodes = map (\<lambda>p. (p, NDir 448)) [''/d/var'', ''/d/var/run'', ''/d/var/log'', ''/d/bin'', ''/d/lib'',
      ''/d/tmp'', ''/d/tmp/f'', ''/sbin/su'']"

definition open_world :: hproc where
  "open_world = \<lparr>tick = 0, errno = 0, brk = 0, heap = [], nodes = open_nodes, fds = sample_fds,
     acts = [], su_srv_log_path = None, su_srv_log_fptr = None, su_session = None,
     SU_SRV_SIGMASK = [], blocked = [], threads = [], handler_cells = [], signals = 0\<rparr>"

definition open_pfs :: hproc where "open_pfs = open_world\<lparr>tick := 19, errno := 39, brk := 6\<rparr>"

definition open_log :: hproc where "open_log = open_pfs\<lparr>tick := 21, errno := 13, brk := 7, heap := [7],
   su_srv_log_path := Some (7, ''/d/var/log/su-00007.log'')\<rparr>"

lemma open_pfs_run:
  "su_srv_pfs_init no_log_env ''/d'' open_world = (0, open_pfs)"
  by code_simp

lemma open_log_run:
  "su_srv_log_init no_log_env ''/d'' 7 open_pfs = (13, open_log)"
  by code_simp

definition open_sess :: su_shell_session where
  "open_sess = \<lparr>block = 8, owner_pid = 7, pfs_root = ''/d'',
     afun_rdv_addr = \<lparr>sun_family = 1, sun_path = ''/d/var/run/su-00007''\<rparr>, afun_client_fd = 0, shell_pid = 0,
     handler_pth = 9, shell_sync_mutex = 12, shell_sync_ready = 13, handler_buf = 10,
     last_tty_read = None, tty_echo = 1, shell_cmd_exit_code = 0\<rparr>"

definition open_new :: hproc where "open_new = open_log\<lparr>tick := 29, brk := 13, heap := [13, 12, 10, 9, 8, 7]\<rparr>"

lemma open_new_run:
  "su_shell_session_new no_log_env ''/d'' 7 open_log = Inr (Some open_sess, open_new)"
proof -
  have a: "init_af_un_address no_log_env (open_sess\<lparr>afun_rdv_addr := \<lparr>sun_family = 0, sun_path = []\<rparr>, shell_sync_mutex := 0, shell_sync_ready := 0\<rparr>)
     (open_log\<lparr>tick := 24, brk := 10, heap := [10,9,8,7]\<rparr>) = Inr (0, open_sess\<lparr>shell_sync_mutex := 0, shell_sync_ready := 0\<rparr>, 
     open_log\<lparr>tick := 25, brk := 11, heap := [10,9,8,7]\<rparr>)" by code_simp
  have b: "init_mutexes no_log_env (open_sess\<lparr>shell_sync_mutex := 0, shell_sync_ready := 0\<rparr>)
     (open_log\<lparr>tick := 25, brk := 11, heap := [10,9,8,7]\<rparr>) = (0, open_sess, open_new)" by code_simp
  show ?thesis 
    using a b by (simp add: su_shell_session_new_def c_malloc_def ask_def open_log_def open_pfs_def open_world_def no_log_env_def sample_env_def
     PTRDIFF_MAX_def open_sess_def BUF_INITIAL_SIZE_def)
qed

definition open_rdv :: hproc where
  "open_rdv = open_new\<lparr>tick := 35, nodes := open_nodes @ [(''/d/var/run/su-00007'', NSock)],
     fds := [(5, FPeer), (4, FConn), (0, FPeer), (1, FPeer), (2, FPeer)]\<rparr>"

lemma open_rdv_run:
  "su_shell_session_af_un_rdv no_log_env open_sess open_new = (5, open_sess\<lparr>afun_client_fd := 4\<rparr>, open_rdv)"
  by code_simp

definition open_run :: hproc where
  "open_run = open_rdv\<lparr>tick := 38, fds := [(4, FConn), (0, FPeer), (1, FPeer), (2, FPeer)],
     threads := [(9, [17])]\<rparr>"

lemma open_shell_run:
  "open_shell no_log_env 5 (open_sess\<lparr>afun_client_fd := 4\<rparr>) open_rdv =
   Inr (Returns (0, open_sess\<lparr>afun_client_fd := 4, shell_pid := 77\<rparr>) open_run)"
  by code_simp

lemma open_sample:
  "su_srv_open_shell_session no_log_env ''/d'' open_world =
     Inr (Returns 0 (open_run\<lparr>su_session := Some (open_sess\<lparr>afun_client_fd := 4, shell_pid := 77\<rparr>)\<rparr>))"
proof -
  have pid: "self_pid no_log_env = 7" "su_session open_world = None"
    by (simp_all add: no_log_env_def sample_env_def open_world_def)
  have quiet: "su_srv_log_printf fmt args open_new = open_new" for fmt args
    by (simp add: su_srv_log_printf_def open_new_def open_log_def open_pfs_def open_world_def)
  show ?thesis
    by (simp add: su_srv_open_shell_session_def pid open_pfs_run open_log_run open_new_run quiet open_rdv_run
        open_shell_run open_finish_def)
qed


definition no_thread_env :: env where
  "no_thread_env = sample_env\<lparr>fails := (\<lambda>c t. case c of PthreadCreate \<Rightarrow> 11 | _ \<Rightarrow> 0)\<rparr>"

theorem open_thread_failure_witness:
  "open_shell no_thread_env 6 sample_su_session (sample_proc\<lparr>su_session := None\<rparr>) = Inl NullDeref"
proof -
  let ?w = "sample_proc\<lparr>su_session := None\<rparr>"
  have "shell_start_process no_thread_env 6 sample_su_session
      (su_srv_log_printf ''AF UNIX rendez-vous completed'' [] ?w) =
    Inr (Returns (0, sample_su_session) (?w\<lparr>tick := 5, errno := 2\<rparr>))"
    by code_simp
  from open_thread_failure [OF _ _ _ this] show ?thesis
    by (simp add: no_thread_env_def sample_env_def sample_proc_def)
qed

theorem tty_echo_switch_witness:
  "su_srv_get_tty_echo (su_srv_set_tty_echo 5 sample_hproc) = 1
   \<and> v_log (fold line_step [eoc_line 3] (hview (su_srv_set_tty_echo 0 sample_hproc))) = log_text sample_hproc"
  using tty_echo_switch [of 5 sample_hproc "[]"] tty_echo_switch [of 0 sample_hproc "[eoc_line 3]"]
  by (simp add: sample_hproc_def)

end
