(* ===== verification/Conc.thy ===== *)
theory Conc
  imports Api
begin

text \<open>
  The threads of a process with a bound session: any number of callers of \<open>su_srv_exec\<close>, the
  handler, and a caller of \<open>su_srv_exit_shell_session\<close> (\<open>jni/su_srv.c\<close>), interleaved one call
  at a time over the shared state, the mutex and the condition variable of the session. The
  shell is an environment that may write any byte at any time and may end. The default
  mutex is assumed, whose lock fails for no valid object.
\<close>

section \<open>State\<close>

text \<open>
  Where a caller of \<open>su_srv_exec\<close> is. \<open>XEnter\<close> reads the pointer to the mutex, \<open>XLock\<close> is
  within \<open>pthread_mutex_lock\<close>, \<open>XSend k\<close> before the write number \<open>k\<close>, \<open>XSleep\<close> and
  \<open>XReacq\<close> within \<open>pthread_cond_wait\<close>: waiting, and woken but without the mutex.
\<close>

datatype xpc =
    XStart | XEnter | XLock | XLog | XSend nat | XReset | XWait | XSleep | XReacq | XUnlock | XRead
  | XDone int

datatype hpc = HStart | HRead | HTry | HSignal | HTry2 | HStop | HInval | HLog | HDone

datatype epc = EIdle | EStart | ETry | ESignal | ELock | EStop | EJoin | EInval | EDone int

datatype tid = TExec nat | THandler | TExit

record conc =
  world :: hproc
  owner :: "tid option"
  waiters :: "nat list"
  xs :: "(string \<times> xpc) list"
  hp :: hpc
  hfd :: int
  hoff :: int
  ep :: epc
  inp :: string
  eof :: bool
  fault :: "fault option"

definition xpc_of :: "conc \<Rightarrow> nat \<Rightarrow> xpc" where "xpc_of c i = snd (xs c ! i)"
definition cmd_of :: "conc \<Rightarrow> nat \<Rightarrow> string" where "cmd_of c i = fst (xs c ! i)"

definition set_xpc :: "nat \<Rightarrow> xpc \<Rightarrow> conc \<Rightarrow> conc" where
  "set_xpc i pc c = c\<lparr>xs := (xs c)[i := (cmd_of c i, pc)]\<rparr>"

text \<open>A call on the shared state: a fault stops the process.\<close>

definition run :: "'a c_result \<Rightarrow> ('a \<Rightarrow> conc) \<Rightarrow> conc \<Rightarrow> conc" where
  "run r k c = (case r of Inl f \<Rightarrow> c\<lparr>fault := Some f\<rparr> | Inr x \<Rightarrow> k x)"

text \<open>The waiter at position \<open>n\<close> is woken: it leaves the condition variable.\<close>

definition wake :: "nat \<Rightarrow> conc \<Rightarrow> conc" where
  "wake n c =
     (if n < length (waiters c) then
        set_xpc (waiters c ! n) XReacq (c\<lparr>waiters := remove1 (waiters c ! n) (waiters c)\<rparr>)
      else c)"

section \<open>The steps of exec\<close>

text \<open>The mutex and the condition variable of the bound session, read through the pointer.\<close>

definition the_mutex :: "conc \<Rightarrow> nat c_result" where
  "the_mutex c = c_bind (deref (world c)) (\<lambda>s.
     if shell_sync_mutex s = 0 then Inl NullDeref else Inr (shell_sync_mutex s))"

definition the_ready :: "conc \<Rightarrow> nat c_result" where
  "the_ready c = c_bind (deref (world c)) (\<lambda>s.
     if shell_sync_ready s = 0 then Inl NullDeref else Inr (shell_sync_ready s))"

text \<open>A thread within a lock call takes the mutex when it is free and waits otherwise.\<close>

definition acquire :: "tid \<Rightarrow> (conc \<Rightarrow> conc) \<Rightarrow> conc \<Rightarrow> conc option" where
  "acquire t k c =
     (if su_session (world c) = None then Some (c\<lparr>fault := Some UseAfterFree\<rparr>)
      else if owner c = None then Some (k (c\<lparr>owner := Some t\<rparr>))
      else None)"

definition exec_step :: "nat \<Rightarrow> conc \<Rightarrow> conc option" where
  "exec_step i c =
     (case xpc_of c i of
        XStart \<Rightarrow>
          if su_session (world c) = None then
            let (r, w) = exec_no_session (cmd_of c i) (world c)
            in Some (set_xpc i (XDone r) (c\<lparr>world := w\<rparr>))
          else Some (set_xpc i XEnter c)
      | XEnter \<Rightarrow> Some (run (the_mutex c) (\<lambda>_. set_xpc i XLock c) c)
      | XLock \<Rightarrow> acquire (TExec i) (set_xpc i XLog) c
      | XLog \<Rightarrow> Some (set_xpc i (XSend 0) (c\<lparr>world := su_srv_log_cmdstr (cmd_of c i) (world c)\<rparr>))
      | XSend k \<Rightarrow>
          Some (run (exec_write (exec_writes (cmd_of c i) ! k) (world c))
            (\<lambda>w. set_xpc i (if k < 3 then XSend (Suc k) else XReset) (c\<lparr>world := w\<rparr>)) c)
      | XReset \<Rightarrow> Some (run (exec_reset (world c)) (\<lambda>w. set_xpc i XWait (c\<lparr>world := w\<rparr>)) c)
      | XWait \<Rightarrow>
          Some (run (c_bind (the_mutex c) (\<lambda>_. the_ready c))
            (\<lambda>_. set_xpc i XSleep (c\<lparr>owner := None, waiters := waiters c @ [i]\<rparr>)) c)
      | XSleep \<Rightarrow> None
      | XReacq \<Rightarrow> acquire (TExec i) (set_xpc i XUnlock) c
      | XUnlock \<Rightarrow> Some (run (the_mutex c) (\<lambda>_. set_xpc i XRead (c\<lparr>owner := None\<rparr>)) c)
      | XRead \<Rightarrow> Some (run (exec_result (world c)) (\<lambda>r. set_xpc i (XDone r) c) c)
      | XDone r \<Rightarrow> None)"

section \<open>The steps of the handler\<close>

text \<open>\<open>n\<close> is the position of the waiter that a signal wakes, if there is any.\<close>

definition handler_step :: "env \<Rightarrow> nat \<Rightarrow> conc \<Rightarrow> conc option" where
  "handler_step E n c =
     (case hp c of
        HStart \<Rightarrow> Some (run (handler_start (world c)) (\<lambda>fd. c\<lparr>hp := HRead, hfd := fd, hoff := 0\<rparr>) c)
      | HRead \<Rightarrow>
          (case deref (world c) of
             Inl f \<Rightarrow> Some (c\<lparr>fault := Some f\<rparr>)
           | Inr s \<Rightarrow>
              (case inp c of
                 b # bs \<Rightarrow>
                   Some (run (handler_byte E (hfd c) b (hoff c) (world c))
                     (\<lambda>(off, w). (if signals w > signals (world c) then wake n else id)
                        (c\<lparr>world := w, hoff := off, inp := bs\<rparr>)) c)
               | [] \<Rightarrow> if eof c then Some (c\<lparr>hp := HTry\<rparr>) else None))
      | HTry \<Rightarrow>
          Some (run (the_mutex c)
            (\<lambda>_. if owner c = None then c\<lparr>owner := Some THandler, hp := HStop\<rparr> else c\<lparr>hp := HSignal\<rparr>) c)
      | HSignal \<Rightarrow>
          Some (run (signal_ready (world c)) (\<lambda>w. wake n (c\<lparr>world := w, hp := HTry2\<rparr>)) c)
      | HTry2 \<Rightarrow>
          Some (run (the_mutex c)
            (\<lambda>_. if owner c = None then c\<lparr>owner := Some THandler, hp := HStop\<rparr> else c\<lparr>hp := HDone\<rparr>) c)
      | HStop \<Rightarrow>
          Some (run (c_bind (deref (world c)) (\<lambda>s. shell_stop_process E s (world c)))
            (\<lambda>(r, w). c\<lparr>world := w, hp := HInval\<rparr>) c)
      | HInval \<Rightarrow>
          Some (run (invalidate_current_session (world c)) (\<lambda>w. c\<lparr>world := w, hp := HLog\<rparr>) c)
      | HLog \<Rightarrow>
          Some (c\<lparr>world := su_srv_log_printf ''Shell session invalidated, shell proces died !'' [] (world c),
                  hp := HDone\<rparr>)
      | HDone \<Rightarrow> None)"

section \<open>The steps of exit\<close>

definition exit_step :: "env \<Rightarrow> nat \<Rightarrow> conc \<Rightarrow> conc option" where
  "exit_step E n c =
     (case ep c of
        EIdle \<Rightarrow> None
      | EStart \<Rightarrow>
          if su_session (world c) = None then
            Some (c\<lparr>world := su_srv_log_printf ''Ignored exit(): no session'' [] (world c),
                    ep := EDone SU_SRV_NO_SESSION_ERR\<rparr>)
          else Some (c\<lparr>ep := ETry\<rparr>)
      | ETry \<Rightarrow>
          Some (run (the_mutex c)
            (\<lambda>_. if owner c = None then c\<lparr>owner := Some TExit, ep := EStop\<rparr> else c\<lparr>ep := ESignal\<rparr>) c)
      | ESignal \<Rightarrow>
          Some (run (signal_ready (world c)) (\<lambda>w. wake n (c\<lparr>world := w, ep := ELock\<rparr>)) c)
      | ELock \<Rightarrow> acquire TExit (\<lambda>c. c\<lparr>ep := EStop\<rparr>) c
      | EStop \<Rightarrow>
          (let w = su_srv_log_printf ''SU shell sesion shutdown request'' [] (world c)
           in Some (run (c_bind (deref w) (\<lambda>s. shell_stop_process E s w))
                (\<lambda>(r, w).
                   if r \<noteq> 0 then
                     let w = su_srv_log_printf ''Failed to stop SU shell, expect zombies !'' [] w;
                         w = su_srv_log_printf ''SU shell session closed'' [] w
                     in c\<lparr>world := w, ep := EDone r\<rparr>
                   else c\<lparr>world := w, ep := EJoin\<rparr>) c))
      | EJoin \<Rightarrow>
          (case deref (world c) of
             Inl f \<Rightarrow> Some (c\<lparr>fault := Some f\<rparr>)
           | Inr s \<Rightarrow>
               if handler_pth s = 0 then Some (c\<lparr>fault := Some NullDeref\<rparr>)
               else
                 let (e, w) = ask E PthreadJoin (world c)
                 in if e \<noteq> 0 then
                      let w = su_srv_log_printf ''Failed to join handler, expect zombies !'' [] w;
                          w = su_srv_log_printf ''SU shell session closed'' [] w
                      in Some (c\<lparr>world := w, ep := EDone e\<rparr>)
                    else if hp c = HDone then Some (c\<lparr>world := w, ep := EInval\<rparr>) else None)
      | EInval \<Rightarrow>
          Some (run (invalidate_current_session (world c))
            (\<lambda>w. c\<lparr>world := su_srv_log_printf ''SU shell session closed'' [] w, ep := EDone 0\<rparr>) c)
      | EDone r \<Rightarrow> None)"

section \<open>The system\<close>

inductive cstep :: "env \<Rightarrow> conc \<Rightarrow> conc \<Rightarrow> bool" for E where
  Exec: "fault c = None \<Longrightarrow> i < length (xs c) \<Longrightarrow> exec_step i c = Some c' \<Longrightarrow> cstep E c c'"
| Handler: "fault c = None \<Longrightarrow> waiters c = [] \<or> n < length (waiters c) \<Longrightarrow>
    handler_step E n c = Some c' \<Longrightarrow> cstep E c c'"
| Exit: "fault c = None \<Longrightarrow> waiters c = [] \<or> n < length (waiters c) \<Longrightarrow>
    exit_step E n c = Some c' \<Longrightarrow> cstep E c c'"
| Call_exec: "fault c = None \<Longrightarrow> cstep E c (c\<lparr>xs := xs c @ [(cmd, XStart)]\<rparr>)"
| Call_exit: "fault c = None \<Longrightarrow> ep c = EIdle \<Longrightarrow> cstep E c (c\<lparr>ep := EStart\<rparr>)"
| Shell_writes: "fault c = None \<Longrightarrow> \<not> eof c \<Longrightarrow> cstep E c (c\<lparr>inp := inp c @ [b]\<rparr>)"
| Shell_ends: "fault c = None \<Longrightarrow> cstep E c (c\<lparr>eof := True\<rparr>)"
| Spurious: "fault c = None \<Longrightarrow> n < length (waiters c) \<Longrightarrow> cstep E c (wake n c)"

inductive_cases cstepE: "cstep E c c'"

text \<open>
  The contract of an invariant of a transition system: it holds at the start and every step
  keeps it.
\<close>

locale invariant_of =
  fixes start :: "'s \<Rightarrow> bool" and step :: "'s \<Rightarrow> 's \<Rightarrow> bool" and inv :: "'s \<Rightarrow> bool"
  assumes start_inv: "start s \<Longrightarrow> inv s"
    and step_inv: "inv s \<Longrightarrow> step s s' \<Longrightarrow> inv s'"
begin

lemma steps_inv: "step\<^sup>*\<^sup>* s s' \<Longrightarrow> inv s \<Longrightarrow> inv s'"
  by (induction rule: rtranclp_induct) (auto intro: step_inv)

lemma reach_inv: "start s \<Longrightarrow> step\<^sup>*\<^sup>* s s' \<Longrightarrow> inv s'"
  using steps_inv start_inv by blast

end

text \<open>
  The contract of a refinement: every step is, through \<open>view\<close>, a step of the specification or
  none. Then so is every run.
\<close>

locale simulation = invariant_of start step inv
  for start :: "'s \<Rightarrow> bool" and step :: "'s \<Rightarrow> 's \<Rightarrow> bool" and inv :: "'s \<Rightarrow> bool" +
  fixes view :: "'s \<Rightarrow> 'a" and spec :: "'a \<Rightarrow> 'a \<Rightarrow> bool"
  assumes simulates: "inv s \<Longrightarrow> step s s' \<Longrightarrow> view s' = view s \<or> spec (view s) (view s')"
begin

lemma steps_refine: "step\<^sup>*\<^sup>* s s' \<Longrightarrow> inv s \<Longrightarrow> spec\<^sup>*\<^sup>* (view s) (view s')"
proof (induction rule: rtranclp_induct)
  case (step t u)
  then have "inv t" using steps_inv by blast
  from simulates [OF this step(2)] step show ?case by (metis rtranclp.rtrancl_into_rtrancl)
qed simp

end

text \<open>
  The contract of a system whose runs end: every step is progress in a well-founded order, and
  only a final state has none.
\<close>

locale ending = invariant_of start step inv
  for start :: "'s \<Rightarrow> bool" and step :: "'s \<Rightarrow> 's \<Rightarrow> bool" and inv :: "'s \<Rightarrow> bool" +
  fixes less :: "('s \<times> 's) set" and final :: "'s \<Rightarrow> bool"
  assumes less_wf: "wf less"
    and progress: "inv s \<Longrightarrow> step s s' \<Longrightarrow> (s', s) \<in> less"
    and moves: "inv s \<Longrightarrow> \<not> final s \<Longrightarrow> \<exists>s'. step s s'"
begin

lemma no_endless_run:
  assumes "inv s"
  shows "\<nexists>f. f 0 = s \<and> (\<forall>n. step (f n) (f (Suc n)))"
proof (intro notI, elim exE conjE)
  fix f assume f: "f 0 = s" "\<forall>n. step (f n) (f (Suc n))"
  have "inv (f n)" for n
    by (induction n) (use f assms step_inv in auto)
  then have "\<forall>n. (f (Suc n), f n) \<in> less" using progress f(2) by blast
  then show False using less_wf unfolding wf_iff_no_infinite_down_chain by blast
qed

lemma stuck_final: "inv s \<Longrightarrow> (\<And>s'. \<not> step s s') \<Longrightarrow> final s"
  using moves by blast

lemma ends: "inv s \<Longrightarrow> \<exists>s'. step\<^sup>*\<^sup>* s s' \<and> final s'"
proof (induction s rule: wf_induct [OF less_wf])
  case (1 s)
  show ?case
  proof (cases "final s")
    case False
    then obtain s1 where s1: "step s s1" using moves "1.prems" by blast
    then have "inv s1" "(s1, s) \<in> less" using step_inv progress "1.prems" by blast+
    with "1.IH" s1 show ?thesis by (meson converse_rtranclp_into_rtranclp)
  qed blast
qed

end

section \<open>The lock\<close>

fun holds :: "xpc \<Rightarrow> bool" where
  "holds XLog = True"
| "holds (XSend k) = True"
| "holds XReset = True"
| "holds XWait = True"
| "holds XUnlock = True"
| "holds _ = False"

text \<open>The callers in a critical section, and those that wait for the condition variable.\<close>

definition holders :: "conc \<Rightarrow> nat set" where
  "holders c = {i. i < length (xs c) \<and> holds (xpc_of c i)}"

definition sleepers :: "conc \<Rightarrow> nat set" where
  "sleepers c = {i. i < length (xs c) \<and> xpc_of c i = XSleep}"

fun exec_owner :: "tid option \<Rightarrow> nat set" where
  "exec_owner (Some (TExec i)) = {i}"
| "exec_owner _ = {}"

text \<open>Who holds the mutex and who waits, by the program counters.\<close>

definition lock_ok :: "conc \<Rightarrow> bool" where
  "lock_ok c \<longleftrightarrow>
     holders c = exec_owner (owner c)
     \<and> sleepers c = set (waiters c) \<and> distinct (waiters c)
     \<and> (hp c \<in> {HStop, HInval, HLog} \<longrightarrow> owner c = Some THandler)
     \<and> (ep c \<in> {EStop, EJoin, EInval} \<longrightarrow> owner c = Some TExit)"

lemma set_xpc_simps [simp]:
  "world (set_xpc i pc c) = world c" "owner (set_xpc i pc c) = owner c"
  "waiters (set_xpc i pc c) = waiters c" "hp (set_xpc i pc c) = hp c" "ep (set_xpc i pc c) = ep c"
  "inp (set_xpc i pc c) = inp c" "eof (set_xpc i pc c) = eof c" "fault (set_xpc i pc c) = fault c"
  "hfd (set_xpc i pc c) = hfd c" "hoff (set_xpc i pc c) = hoff c"
  "length (xs (set_xpc i pc c)) = length (xs c)"
  by (simp_all add: set_xpc_def)

lemma xpc_of_set [simp]:
  "i < length (xs c) \<Longrightarrow> xpc_of (set_xpc i pc c) j = (if j = i then pc else xpc_of c j)"
  by (simp add: set_xpc_def xpc_of_def)

lemma cmd_of_set [simp]: "cmd_of (set_xpc i pc c) j = cmd_of c j"
  by (cases "i < length (xs c)") (simp_all add: set_xpc_def cmd_of_def nth_list_update list_update_beyond not_less)

lemma xpc_of_upd [simp]:
  "xpc_of (c\<lparr>world := w\<rparr>) j = xpc_of c j" "xpc_of (c\<lparr>owner := q\<rparr>) j = xpc_of c j"
  "xpc_of (c\<lparr>waiters := ws\<rparr>) j = xpc_of c j" "xpc_of (c\<lparr>hp := h\<rparr>) j = xpc_of c j"
  "xpc_of (c\<lparr>hfd := k\<rparr>) j = xpc_of c j" "xpc_of (c\<lparr>hoff := k\<rparr>) j = xpc_of c j"
  "xpc_of (c\<lparr>ep := e\<rparr>) j = xpc_of c j" "xpc_of (c\<lparr>inp := b\<rparr>) j = xpc_of c j"
  "xpc_of (c\<lparr>eof := d\<rparr>) j = xpc_of c j" "xpc_of (c\<lparr>fault := f\<rparr>) j = xpc_of c j"
  by (simp_all add: xpc_of_def)

lemma cmd_of_upd [simp]:
  "cmd_of (c\<lparr>world := w\<rparr>) j = cmd_of c j" "cmd_of (c\<lparr>owner := q\<rparr>) j = cmd_of c j"
  "cmd_of (c\<lparr>waiters := ws\<rparr>) j = cmd_of c j" "cmd_of (c\<lparr>hp := h\<rparr>) j = cmd_of c j"
  "cmd_of (c\<lparr>hfd := k\<rparr>) j = cmd_of c j" "cmd_of (c\<lparr>hoff := k\<rparr>) j = cmd_of c j"
  "cmd_of (c\<lparr>ep := e\<rparr>) j = cmd_of c j" "cmd_of (c\<lparr>inp := b\<rparr>) j = cmd_of c j"
  "cmd_of (c\<lparr>eof := d\<rparr>) j = cmd_of c j" "cmd_of (c\<lparr>fault := f\<rparr>) j = cmd_of c j"
  by (simp_all add: cmd_of_def)

lemma xpc_of_call:
  "j \<le> length (xs c) \<Longrightarrow> xpc_of (c\<lparr>xs := xs c @ [(cmd, pc)]\<rparr>) j =
     (if j = length (xs c) then pc else xpc_of c j)"
  by (auto simp: xpc_of_def nth_append)

lemma wake_simps [simp]:
  "world (wake n c) = world c" "owner (wake n c) = owner c" "hp (wake n c) = hp c" "ep (wake n c) = ep c"
  "inp (wake n c) = inp c" "eof (wake n c) = eof c" "fault (wake n c) = fault c"
  "hfd (wake n c) = hfd c" "hoff (wake n c) = hoff c" "length (xs (wake n c)) = length (xs c)"
  "cmd_of (wake n c) j = cmd_of c j"
  by (simp_all add: wake_def)

lemma holders_set [simp]:
  "i < length (xs c) \<Longrightarrow>
   holders (set_xpc i pc c) = (if holds pc then insert i (holders c) else holders c - {i})"
  "i < length (xs c) \<Longrightarrow>
   sleepers (set_xpc i pc c) = (if pc = XSleep then insert i (sleepers c) else sleepers c - {i})"
  by (auto simp: holders_def sleepers_def)

lemma holders_upd [simp]:
  "holders (c\<lparr>world := w\<rparr>) = holders c" "holders (c\<lparr>owner := q\<rparr>) = holders c"
  "holders (c\<lparr>waiters := ws\<rparr>) = holders c" "holders (c\<lparr>hp := h\<rparr>) = holders c"
  "holders (c\<lparr>hfd := k\<rparr>) = holders c" "holders (c\<lparr>hoff := k\<rparr>) = holders c"
  "holders (c\<lparr>ep := e\<rparr>) = holders c" "holders (c\<lparr>inp := b\<rparr>) = holders c"
  "holders (c\<lparr>eof := d\<rparr>) = holders c" "holders (c\<lparr>fault := f\<rparr>) = holders c"
  "sleepers (c\<lparr>world := w\<rparr>) = sleepers c" "sleepers (c\<lparr>owner := q\<rparr>) = sleepers c"
  "sleepers (c\<lparr>waiters := ws\<rparr>) = sleepers c" "sleepers (c\<lparr>hp := h\<rparr>) = sleepers c"
  "sleepers (c\<lparr>hfd := k\<rparr>) = sleepers c" "sleepers (c\<lparr>hoff := k\<rparr>) = sleepers c"
  "sleepers (c\<lparr>ep := e\<rparr>) = sleepers c" "sleepers (c\<lparr>inp := b\<rparr>) = sleepers c"
  "sleepers (c\<lparr>eof := d\<rparr>) = sleepers c" "sleepers (c\<lparr>fault := f\<rparr>) = sleepers c"
  by (simp_all add: holders_def sleepers_def)

lemma lock_ok_upd [simp]:
  "lock_ok (c\<lparr>world := w\<rparr>) = lock_ok c" "lock_ok (c\<lparr>fault := f\<rparr>) = lock_ok c"
  "lock_ok (c\<lparr>inp := b\<rparr>) = lock_ok c" "lock_ok (c\<lparr>eof := d\<rparr>) = lock_ok c"
  "lock_ok (c\<lparr>hoff := k\<rparr>) = lock_ok c" "lock_ok (c\<lparr>hfd := k\<rparr>) = lock_ok c"
  by (simp_all add: lock_ok_def)

lemma lock_ok_wake:
  assumes "lock_ok c"
  shows "lock_ok (wake n c)"
proof (cases "n < length (waiters c)")
  case True
  let ?i = "waiters c ! n"
  have "?i \<in> sleepers c" using True assms by (simp add: lock_ok_def)
  then have "?i < length (xs c)" "?i \<notin> holders c" by (auto simp: sleepers_def holders_def)
  with assms True show ?thesis by (simp add: lock_ok_def wake_def)
qed (use assms in \<open>simp add: wake_def\<close>)

text \<open>A thread that moves without touching the mutex or the condition variable.\<close>

lemma lock_ok_set:
  assumes "lock_ok c" and "i < length (xs c)" and "holds pc = holds (xpc_of c i)" and "pc \<noteq> XSleep"
    and "xpc_of c i \<noteq> XSleep"
  shows "lock_ok (set_xpc i pc c)"
proof -
  have "i \<notin> sleepers c" "i \<in> holders c \<longleftrightarrow> holds pc"
    using assms(2,3,5) by (simp_all add: sleepers_def holders_def)
  then have "sleepers (set_xpc i pc c) = sleepers c" "holders (set_xpc i pc c) = holders c"
    using assms(2,4) by auto
  with assms(1) show ?thesis by (simp add: lock_ok_def)
qed

lemma acquire_cases:
  assumes "acquire t k c = Some c'"
  obtains "su_session (world c) = None" and "c' = c\<lparr>fault := Some UseAfterFree\<rparr>"
  | "owner c = None" and "c' = k (c\<lparr>owner := Some t\<rparr>)"
  using assms by (auto simp: acquire_def split: if_splits)

lemma lock_ok_acquire:
  assumes "lock_ok c" and "i < length (xs c)" and "acquire (TExec i) (set_xpc i pc) c = Some c'"
    and "holds pc" and "xpc_of c i \<noteq> XSleep"
  shows "lock_ok c'"
  using assms(3)
proof (cases rule: acquire_cases)
  case 1
  with assms(1) show ?thesis by simp
next
  case 2
  have "i \<notin> sleepers c" "pc \<noteq> XSleep" using assms(5,4) by (auto simp: sleepers_def)
  moreover have "holders c = {}" "hp c \<notin> {HStop, HInval, HLog}" "ep c \<notin> {EStop, EJoin, EInval}"
    using 2(1) assms(1) by (auto simp: lock_ok_def)
  ultimately show ?thesis
    unfolding 2(2) lock_ok_def using assms(1,2,4) by (simp add: lock_ok_def)
qed

lemma run_cases:
  "P (run r k c) \<longleftrightarrow> (case r of Inl f \<Rightarrow> P (c\<lparr>fault := Some f\<rparr>) | Inr x \<Rightarrow> P (k x))"
  by (simp add: run_def split: sum.splits)

lemma lock_ok_exec:
  assumes "lock_ok c" and "i < length (xs c)" and "exec_step i c = Some c'"
  shows "lock_ok c'"
proof -
  note set = lock_ok_set [OF assms(1,2)]
  have set': "lock_ok (set_xpc i pc (c\<lparr>world := w\<rparr>))"
    if "holds pc = holds (xpc_of c i)" "pc \<noteq> XSleep" "xpc_of c i \<noteq> XSleep" for pc w
    by (rule lock_ok_set) (use that assms(1,2) in simp_all)
  show ?thesis
  proof (cases "xpc_of c i")
    case XLock
    with assms lock_ok_acquire [of c i XLog c'] show ?thesis by (simp add: exec_step_def)
  next
    case XReacq
    with assms lock_ok_acquire [of c i XUnlock c'] show ?thesis by (simp add: exec_step_def)
  next
    case XWait
    then have i: "i \<in> holders c" "i \<notin> sleepers c" using assms(2) by (simp_all add: holders_def sleepers_def)
    with assms(1) have "owner c = Some (TExec i)"
      by (cases "owner c" rule: exec_owner.cases) (auto simp: lock_ok_def)
    with XWait assms i show ?thesis
      by (simp add: exec_step_def run_def split: sum.splits) (clarsimp simp: lock_ok_def)+
  next
    case XUnlock
    then have i: "i \<in> holders c" "i \<notin> sleepers c" using assms(2) by (simp_all add: holders_def sleepers_def)
    with assms(1) have "owner c = Some (TExec i)"
      by (cases "owner c" rule: exec_owner.cases) (auto simp: lock_ok_def)
    with XUnlock assms i show ?thesis
      by (simp add: exec_step_def run_def split: sum.splits) (clarsimp simp: lock_ok_def)+
  qed (use assms(3) assms(1) in \<open>auto simp: exec_step_def run_def Let_def split_beta set set'
      split: sum.splits if_splits\<close>)
qed

text \<open>The handler and the caller of exit move between phases; only four moves take the mutex.\<close>

lemma lock_ok_phase:
  assumes "lock_ok c"
  shows "h \<notin> {HStop, HInval, HLog} \<or> owner c = Some THandler \<Longrightarrow> lock_ok (c\<lparr>hp := h\<rparr>)"
    and "e \<notin> {EStop, EJoin, EInval} \<or> owner c = Some TExit \<Longrightarrow> lock_ok (c\<lparr>ep := e\<rparr>)"
    and "owner c = None \<Longrightarrow> lock_ok (c\<lparr>owner := Some THandler, hp := h\<rparr>)"
    and "owner c = None \<Longrightarrow> lock_ok (c\<lparr>owner := Some TExit, ep := e\<rparr>)"
  using assms by (auto simp: lock_ok_def)

lemma conc_commute [simp]:
  "c\<lparr>world := w, hp := h\<rparr> = c\<lparr>hp := h, world := w\<rparr>" "c\<lparr>world := w, ep := e\<rparr> = c\<lparr>ep := e, world := w\<rparr>"
  by simp_all

lemma lock_ok_handler:
  assumes "lock_ok c" and "handler_step E n c = Some c'"
  shows "lock_ok c'"
proof -
  have owned: "hp c \<in> {HStop, HInval, HLog} \<Longrightarrow> owner c = Some THandler"
    using assms(1) by (simp add: lock_ok_def)
  show ?thesis
    by (cases "hp c")
      (use assms owned in \<open>auto simp: handler_step_def run_def lock_ok_wake lock_ok_phase
        split: sum.splits list.splits if_splits\<close>)
qed

lemma lock_ok_exit:
  assumes "lock_ok c" and "exit_step E n c = Some c'"
  shows "lock_ok c'"
proof -
  have owned: "ep c \<in> {EStop, EJoin, EInval} \<Longrightarrow> owner c = Some TExit"
    using assms(1) by (simp add: lock_ok_def)
  show ?thesis
    by (cases "ep c")
      (use assms owned in \<open>auto simp: exit_step_def run_def acquire_def ask_def Let_def lock_ok_wake lock_ok_phase
        split: sum.splits if_splits\<close>)
qed

lemma lock_ok_call:
  assumes "lock_ok c"
  shows "lock_ok (c\<lparr>xs := xs c @ [(cmd, XStart)]\<rparr>)"
proof -
  let ?c = "c\<lparr>xs := xs c @ [(cmd, XStart)]\<rparr>"
  have "holders ?c = holders c" "sleepers ?c = sleepers c"
    by (auto simp: holders_def sleepers_def xpc_of_call less_Suc_eq split: if_splits)
  with assms show ?thesis by (simp add: lock_ok_def)
qed

lemma lock_ok_step:
  assumes "lock_ok c" and "cstep E c c'"
  shows "lock_ok c'"
  using assms(2)
proof cases
  case (Exec i)
  then show ?thesis by (intro lock_ok_exec [OF assms(1)])
next
  case (Handler n)
  then show ?thesis by (intro lock_ok_handler [OF assms(1)])
next
  case (Exit n)
  then show ?thesis by (intro lock_ok_exit [OF assms(1)])
next
  case Call_exit
  with lock_ok_phase(2) [OF assms(1), of EStart] show ?thesis by simp
qed (use assms(1) lock_ok_wake [OF assms(1)] lock_ok_call [OF assms(1)] in simp_all)

text \<open>The state in which the threads of a bound session start.\<close>

definition idle :: "conc \<Rightarrow> bool" where
  "idle c \<longleftrightarrow> owner c = None \<and> waiters c = [] \<and> xs c = [] \<and> hp c = HStart \<and> ep c = EIdle
     \<and> inp c = [] \<and> \<not> eof c \<and> fault c = None"

interpretation lock: invariant_of idle "cstep E" lock_ok for E
proof
  show "lock_ok c" if "idle c" for c
    using that by (simp add: idle_def lock_ok_def holders_def sleepers_def)
  show "lock_ok c'" if "lock_ok c" "cstep E c c'" for c c'
    using that by (rule lock_ok_step)
qed

section \<open>An executable step\<close>

text \<open>Who moves, and for a step that signals which waiter is woken.\<close>

datatype event =
    Do_exec nat | Do_handler nat | Do_exit nat | Do_call string | Do_call_exit
  | Do_write char | Do_end | Do_spurious nat

definition wakes :: "nat \<Rightarrow> conc \<Rightarrow> bool" where
  "wakes n c \<longleftrightarrow> waiters c = [] \<or> n < length (waiters c)"

fun fire :: "env \<Rightarrow> event \<Rightarrow> conc \<Rightarrow> conc option" where
  "fire E (Do_exec i) c = (if fault c = None \<and> i < length (xs c) then exec_step i c else None)"
| "fire E (Do_handler n) c = (if fault c = None \<and> wakes n c then handler_step E n c else None)"
| "fire E (Do_exit n) c = (if fault c = None \<and> wakes n c then exit_step E n c else None)"
| "fire E (Do_call cmd) c = (if fault c = None then Some (c\<lparr>xs := xs c @ [(cmd, XStart)]\<rparr>) else None)"
| "fire E Do_call_exit c = (if fault c = None \<and> ep c = EIdle then Some (c\<lparr>ep := EStart\<rparr>) else None)"
| "fire E (Do_write b) c = (if fault c = None \<and> \<not> eof c then Some (c\<lparr>inp := inp c @ [b]\<rparr>) else None)"
| "fire E Do_end c = (if fault c = None then Some (c\<lparr>eof := True\<rparr>) else None)"
| "fire E (Do_spurious n) c = (if fault c = None \<and> n < length (waiters c) then Some (wake n c) else None)"

fun play :: "env \<Rightarrow> event list \<Rightarrow> conc \<Rightarrow> conc option" where
  "play E [] c = Some c"
| "play E (e # es) c = (case fire E e c of None \<Rightarrow> None | Some c' \<Rightarrow> play E es c')"

lemma fire_step: "fire E e c = Some c' \<Longrightarrow> cstep E c c'"
  by (cases e) (auto simp: wakes_def intro: cstep.intros split: if_splits)

lemma step_fires: "cstep E c c' \<Longrightarrow> \<exists>e. fire E e c = Some c'"
  by (erule cstep.cases)
    (fastforce intro: exI [of _ "Do_exec i" for i] exI [of _ "Do_handler n" for n] exI [of _ "Do_exit n" for n]
      exI [of _ "Do_call cmd" for cmd] exI [of _ Do_call_exit] exI [of _ "Do_write b" for b]
      exI [of _ Do_end] exI [of _ "Do_spurious n" for n] simp: wakes_def)+

lemma play_steps: "play E es c = Some c' \<Longrightarrow> (cstep E)\<^sup>*\<^sup>* c c'"
proof (induction es arbitrary: c)
  case Nil
  then show ?case by simp
next
  case (Cons e es)
  then obtain c1 where "fire E e c = Some c1" "play E es c1 = Some c'" by (auto split: option.splits)
  with Cons.IH fire_step show ?case by (meson converse_rtranclp_into_rtranclp)
qed

lemma play_append: "play E (es @ fs) c = Option.bind (play E es c) (play E fs)"
  by (induction es arbitrary: c) (auto split: option.splits)

end
