(* ===== verification/Serial.thy ===== *)
theory Serial
  imports Conc
begin

text \<open>
  What the shell receives: as long as no thread has begun to stop the session, the bytes on
  the client socket are whole commands, one after the other, each caller's exactly once,
  whatever the interleaving of the threads.
\<close>

section \<open>The stream of the client socket\<close>

definition sends :: "int \<Rightarrow> act list \<Rightarrow> string list" where
  "sends fd as = concat (map (\<lambda>a. case a of ASend n s \<Rightarrow> if n = fd then [s] else [] | _ \<Rightarrow> []) as)"

lemma sends_simps [simp]:
  "sends fd [] = []" "sends fd (as @ bs) = sends fd as @ sends fd bs" "sends fd [ASend fd s] = [s]"
  by (simp_all add: sends_def)

text \<open>A bound session with its client socket, a log elsewhere, and its two objects.\<close>

definition bound :: "int \<Rightarrow> hproc \<Rightarrow> bool" where
  "bound fd w \<longleftrightarrow> (\<exists>s. su_session w = Some s \<and> afun_client_fd s = fd
     \<and> shell_sync_mutex s \<noteq> 0 \<and> shell_sync_ready s \<noteq> 0) \<and> map_of (fds w) fd = Some FConn \<and> calm w"

lemma bound_deref: "bound fd w \<Longrightarrow> \<exists>s. deref w = Inr s \<and> afun_client_fd s = fd"
  by (auto simp: bound_def deref_def)

lemma hframe_bound:
  assumes "hframe w w'" and "bound fd w"
  shows "bound fd w'" and "acts w' = acts w"
proof -
  from assms(2) obtain s where s: "su_session w = Some s" by (auto simp: bound_def)
  with assms(1) obtain s' where s': "su_session w' = Some s'" "ptrs s' = ptrs s"
    by (auto simp: hframe_def)
  then show "bound fd w'"
    using assms s by (auto simp: bound_def hframe_def calm_def ptrs_def)
  show "acts w' = acts w" using assms(1) by (simp add: hframe_def)
qed

lemma logs_hframe:
  fixes w :: "'a hproc_scheme"
  assumes "logs w w'"
  shows "hframe w w'"
proof -
  have "log_os.more w' = log_os.more w" using logs_frame(7) [OF assms] .
  then have "su_session w' = su_session w" by (cases w; cases w') simp
  with logs_frame(1,2,8) [OF assms] logs_places(1) [OF assms] show ?thesis by (simp add: hframe_def)
qed

lemma exec_write_bound:
  assumes "exec_write s w = Inr w'" and "bound fd w"
  shows "bound fd w'" and "sends fd (acts w') = sends fd (acts w) @ [s]"
  using assms by (auto simp: exec_write_def c_bind_Inr deref_def os_write_def bound_def calm_def log_fd_def
      split: option.splits)

lemma exec_reset_bound:
  assumes "exec_reset w = Inr w'" and "bound fd w"
  shows "bound fd w'" and "acts w' = acts w"
  using assms by (auto simp: exec_reset_def c_bind_Inr deref_def upd_def bound_def calm_def log_fd_def)

section \<open>The invariant\<close>

fun sent :: "xpc \<Rightarrow> bool" where
  "sent XStart = False"
| "sent XEnter = False"
| "sent XLock = False"
| "sent XLog = False"
| "sent (XSend k) = False"
| "sent _ = True"

definition senders :: "conc \<Rightarrow> nat set" where
  "senders c = {i. i < length (xs c) \<and> sent (xpc_of c i)}"

text \<open>What the caller in the middle of its writes has sent of its command.\<close>

definition partial :: "conc \<Rightarrow> string list" where
  "partial c =
     (case owner c of
        Some (TExec i) \<Rightarrow> (case xpc_of c i of XSend k \<Rightarrow> take k (exec_writes (cmd_of c i)) | _ \<Rightarrow> [])
      | _ \<Rightarrow> [])"

definition stream :: "conc \<Rightarrow> nat list \<Rightarrow> string list" where
  "stream c order = concat (map (\<lambda>i. exec_writes (cmd_of c i)) order) @ partial c"

definition before_stop :: "conc \<Rightarrow> bool" where
  "before_stop c \<longleftrightarrow> hp c \<in> {HStart, HRead, HTry, HSignal, HTry2}
     \<and> ep c \<in> {EIdle, EStart, ETry, ESignal, ELock}"

definition serial :: "int \<Rightarrow> string list \<Rightarrow> conc \<Rightarrow> bool" where
  "serial fd base c \<longleftrightarrow> bound fd (world c)
     \<and> (hp c \<noteq> HStart \<longrightarrow> log_fd (world c) = Some (hfd c))
     \<and> (\<forall>i k. i < length (xs c) \<longrightarrow> xpc_of c i = XSend k \<longrightarrow> k \<le> 3)
     \<and> (\<exists>order. distinct order \<and> set order = senders c
          \<and> sends fd (acts (world c)) = base @ stream c order)"

lemma serial_same:
  assumes "serial fd base c" and "bound fd (world c')"
    and "sends fd (acts (world c')) = sends fd (acts (world c))"
    and "senders c' = senders c" and "partial c' = partial c"
    and "\<And>i. i \<in> senders c \<Longrightarrow> cmd_of c' i = cmd_of c i"
    and "hp c' \<noteq> HStart \<Longrightarrow> log_fd (world c') = Some (hfd c')"
    and "\<And>i k. i < length (xs c') \<Longrightarrow> xpc_of c' i = XSend k \<Longrightarrow> k \<le> 3"
  shows "serial fd base c'"
proof -
  from assms(1) obtain order where order: "distinct order" "set order = senders c"
    "sends fd (acts (world c)) = base @ stream c order" by (auto simp: serial_def)
  have "map (\<lambda>i. exec_writes (cmd_of c' i)) order = map (\<lambda>i. exec_writes (cmd_of c i)) order"
    using order(2) assms(6) by simp
  then have "stream c' order = stream c order" using assms(5) by (simp add: stream_def del: map_eq_conv)
  with order assms show ?thesis by (auto simp: serial_def)
qed

lemma senders_set [simp]:
  "i < length (xs c) \<Longrightarrow>
   senders (set_xpc i pc c) = (if sent pc then insert i (senders c) else senders c - {i})"
  by (auto simp: senders_def)

lemma senders_upd [simp]:
  "senders (c\<lparr>world := w\<rparr>) = senders c" "senders (c\<lparr>owner := q\<rparr>) = senders c"
  "senders (c\<lparr>waiters := ws\<rparr>) = senders c" "senders (c\<lparr>hp := h\<rparr>) = senders c"
  "senders (c\<lparr>hfd := k\<rparr>) = senders c" "senders (c\<lparr>hoff := k\<rparr>) = senders c"
  "senders (c\<lparr>ep := e\<rparr>) = senders c" "senders (c\<lparr>inp := b\<rparr>) = senders c"
  "senders (c\<lparr>eof := d\<rparr>) = senders c" "senders (c\<lparr>fault := f\<rparr>) = senders c"
  by (simp_all add: senders_def)

lemma partial_upd [simp]:
  "partial (c\<lparr>world := w\<rparr>) = partial c" "partial (c\<lparr>hp := h\<rparr>) = partial c"
  "partial (c\<lparr>waiters := ws\<rparr>) = partial c"
  "partial (c\<lparr>hfd := k\<rparr>) = partial c" "partial (c\<lparr>hoff := k\<rparr>) = partial c"
  "partial (c\<lparr>ep := e\<rparr>) = partial c" "partial (c\<lparr>inp := b\<rparr>) = partial c"
  "partial (c\<lparr>eof := d\<rparr>) = partial c" "partial (c\<lparr>fault := f\<rparr>) = partial c"
  by (auto simp: partial_def split: option.splits tid.splits xpc.splits)

lemma partial_None [simp]: "owner c = None \<Longrightarrow> partial c = []"
  by (simp add: partial_def)

lemma partial_owner:
  "owner c = Some (TExec i) \<Longrightarrow>
   partial c = (case xpc_of c i of XSend k \<Rightarrow> take k (exec_writes (cmd_of c i)) | _ \<Rightarrow> [])"
  by (simp add: partial_def)

lemma lock_owner:
  "lock_ok c \<Longrightarrow> i < length (xs c) \<Longrightarrow> holds (xpc_of c i) \<Longrightarrow> owner c = Some (TExec i)"
proof -
  assume "lock_ok c" "i < length (xs c)" "holds (xpc_of c i)"
  then have "i \<in> exec_owner (owner c)" by (auto simp: lock_ok_def holders_def)
  then show ?thesis by (cases "owner c" rule: exec_owner.cases) auto
qed

text \<open>A caller outside its critical section does not hold the mutex.\<close>

lemma lock_not_owner:
  "lock_ok c \<Longrightarrow> \<not> holds (xpc_of c i) \<Longrightarrow> owner c \<noteq> Some (TExec i)"
  unfolding lock_ok_def holders_def by (auto dest: equalityD2)

lemma partial_other:
  "owner c \<noteq> Some (TExec i) \<Longrightarrow> i < length (xs c) \<Longrightarrow> partial (set_xpc i pc c) = partial c"
  by (auto simp: partial_def split: option.splits tid.splits xpc.splits)

text \<open>A caller that moves without sending.\<close>

lemma serial_move:
  assumes "serial fd base c" and "lock_ok c" and i: "i < length (xs c)"
    and "sent pc = sent (xpc_of c i)" and "\<nexists>k. xpc_of c i = XSend k" and "\<nexists>k. pc = XSend k"
    and "bound fd w" and "acts w = acts (world c)" and "log_fd w = log_fd (world c)"
  shows "serial fd base (set_xpc i pc (c\<lparr>world := w\<rparr>))"
proof (rule serial_same [OF assms(1)])
  have "i \<in> senders c \<longleftrightarrow> sent (xpc_of c i)" using i by (simp add: senders_def)
  then show "senders (set_xpc i pc (c\<lparr>world := w\<rparr>)) = senders c"
    using i assms(4) by auto
  show "partial (set_xpc i pc (c\<lparr>world := w\<rparr>)) = partial c"
  proof (cases "owner c = Some (TExec i)")
    case True
    with assms(5,6) i show ?thesis
      by (simp add: partial_owner split: xpc.splits)
  next
    case False
    with i show ?thesis by (simp add: partial_other)
  qed
qed (use assms in \<open>auto simp: serial_def split: if_splits\<close>)

section \<open>Every step\<close>

lemma serial_fault [simp]: "serial fd base (c\<lparr>fault := f\<rparr>) = serial fd base c"
  by (simp add: serial_def stream_def)

lemma serial_bound: "serial fd base c \<Longrightarrow> bound fd (world c)"
  by (simp add: serial_def)

text \<open>Taking and releasing the mutex outside the writes.\<close>

lemma serial_owner:
  assumes "serial fd base c" and "i < length (xs c)" and "sent pc = sent (xpc_of c i)"
    and "\<nexists>k. xpc_of c i = XSend k" and "\<nexists>k. pc = XSend k"
    and "owner c = None \<and> q = Some (TExec i) \<or> owner c = Some (TExec i) \<and> q = None"
  shows "serial fd base (set_xpc i pc (c\<lparr>owner := q, waiters := ws\<rparr>))"
proof (rule serial_same [OF assms(1)])
  have "i \<in> senders c \<longleftrightarrow> sent (xpc_of c i)" using assms(2) by (simp add: senders_def)
  then show "senders (set_xpc i pc (c\<lparr>owner := q, waiters := ws\<rparr>)) = senders c"
    using assms(2,3) by auto
  show "partial (set_xpc i pc (c\<lparr>owner := q, waiters := ws\<rparr>)) = partial c"
    using assms(2,4-6) by (auto simp: partial_def split: xpc.splits)
qed (use assms in \<open>auto simp: serial_def split: if_splits\<close>)

lemma serial_acquire:
  assumes "serial fd base c" and "i < length (xs c)" and "sent pc = sent (xpc_of c i)"
    and "\<nexists>k. xpc_of c i = XSend k" and "\<nexists>k. pc = XSend k"
    and "acquire (TExec i) (set_xpc i pc) c = Some c'"
  shows "serial fd base c'"
  using assms(6)
proof (cases rule: acquire_cases)
  case 2
  have "c\<lparr>owner := Some (TExec i), waiters := waiters c\<rparr> = c\<lparr>owner := Some (TExec i)\<rparr>" by simp
  with serial_owner [OF assms(1-5), of "Some (TExec i)" "waiters c"] 2 show ?thesis by simp
qed (use assms(1) in simp)

text \<open>One write: the stream grows by it, and with the last one the command is complete.\<close>

lemma serial_send:
  assumes s: "serial fd base c" and l: "lock_ok c" and i: "i < length (xs c)" and pc: "xpc_of c i = XSend k"
    and run: "exec_write (exec_writes (cmd_of c i) ! k) (world c) = Inr w"
  shows "serial fd base (set_xpc i (if k < 3 then XSend (Suc k) else XReset) (c\<lparr>world := w\<rparr>))"
proof -
  let ?ws = "exec_writes (cmd_of c i)"
  let ?c = "set_xpc i (if k < 3 then XSend (Suc k) else XReset) (c\<lparr>world := w\<rparr>)"
  have k: "k \<le> 3" using s i pc by (simp add: serial_def)
  have len: "length ?ws = 4" by (simp add: exec_writes_def)
  have own: "owner c = Some (TExec i)" using lock_owner [OF l i] pc by simp
  have w: "bound fd w" "sends fd (acts w) = sends fd (acts (world c)) @ [?ws ! k]"
    using exec_write_bound [OF run serial_bound [OF s]] by simp_all
  from s obtain order where order: "distinct order" "set order = senders c"
    "sends fd (acts (world c)) = base @ stream c order" by (auto simp: serial_def)
  have p: "partial c = take k ?ws" using own pc by (simp add: partial_owner)
  have i_new: "i \<notin> senders c" using pc by (simp add: senders_def)
  have tk: "take k ?ws @ [?ws ! k] = take (Suc k) ?ws"
    using k len by (simp add: take_Suc_conv_app_nth)
  have more: "os.more w = os.more (world c)" using run by (auto simp: exec_write_def c_bind_Inr)
  have log: "log_fd w = log_fd (world c)" using more_fields(4) [OF more] by (simp add: log_fd_def)
  have send: "j < length (xs ?c) \<Longrightarrow> xpc_of ?c j = XSend m \<Longrightarrow> m \<le> 3" for j m
    using s i by (auto simp: serial_def split: if_splits)
  show ?thesis
  proof (cases "k < 3")
    case True
    have "partial ?c = take (Suc k) ?ws" using True own i by (simp add: partial_owner)
    then have "sends fd (acts w) = base @ stream ?c order"
      using w(2) order(3) p tk by (simp add: stream_def)
    moreover have "senders ?c = senders c" using True i i_new by simp
    ultimately show ?thesis
      unfolding serial_def using w(1) s log send order(1,2) True by (auto simp: serial_def)
  next
    case False
    with k have k3: "k = 3" by simp
    have "partial ?c = []" using False own i by (simp add: partial_owner)
    moreover have "take (Suc k) ?ws = ?ws" using k3 len by simp
    ultimately have "sends fd (acts w) = base @ stream ?c (order @ [i])"
      using w(2) order(3) p tk by (simp add: stream_def)
    moreover have "distinct (order @ [i])" "set (order @ [i]) = senders ?c"
      using False order(1,2) i i_new by auto
    ultimately show ?thesis
      unfolding serial_def using w(1) s log send False
      by (auto simp: serial_def intro!: exI [of _ "order @ [i]"])
  qed
qed

lemma serial_wake:
  assumes "serial fd base c" and "lock_ok c"
  shows "serial fd base (wake n c)"
proof (cases "n < length (waiters c)")
  case True
  let ?i = "waiters c ! n"
  have "?i \<in> sleepers c" using True assms(2) by (simp add: lock_ok_def)
  then have i: "?i < length (xs c)" "xpc_of c ?i = XSleep" by (auto simp: sleepers_def)
  let ?c = "c\<lparr>waiters := remove1 ?i (waiters c)\<rparr>"
  have w: "wake n c = set_xpc ?i XReacq ?c" using True by (simp add: wake_def)
  have "?i \<in> senders c" using i by (simp add: senders_def)
  then show ?thesis
    unfolding w using assms lock_not_owner [OF assms(2), of ?i] i
    by (intro serial_same [OF assms(1)])
      (auto simp: serial_def partial_other split: if_splits)
qed (use assms in \<open>simp add: wake_def\<close>)

text \<open>The steps of a caller of exec.\<close>

lemma serial_log:
  assumes s: "serial fd base c" and l: "lock_ok c" and i: "i < length (xs c)" and pc: "xpc_of c i = XLog"
  shows "serial fd base (set_xpc i (XSend 0) (c\<lparr>world := su_srv_log_cmdstr (cmd_of c i) (world c)\<rparr>))"
proof -
  note b = serial_bound [OF s]
  have calm: "calm (world c)" using b by (simp add: bound_def)
  note lg = log_calls_logs(3) [OF calm, of "cmd_of c i"]
  note fr = hframe_bound [OF logs_hframe [OF lg] b] logs_frame(8) [OF lg]
  have "i \<notin> senders c" "owner c = Some (TExec i)"
    using pc lock_owner [OF l i] by (simp_all add: senders_def)
  with i pc s fr show ?thesis
    by (intro serial_same [OF s]) (auto simp: serial_def partial_owner split: if_splits)
qed

lemma serial_reset:
  assumes s: "serial fd base c" and l: "lock_ok c" and i: "i < length (xs c)" and pc: "xpc_of c i = XReset"
    and run: "exec_step i c = Some c'"
  shows "serial fd base c'"
proof (cases "exec_reset (world c)")
  case (Inl f)
  with pc run s show ?thesis by (auto simp: exec_step_def run_def)
next
  case (Inr w)
  note fr = exec_reset_bound [OF Inr serial_bound [OF s]]
  have "log_fd w = log_fd (world c)" using Inr by (auto simp: exec_reset_def c_bind_Inr log_fd_def)
  with fr pc run Inr serial_move [OF s l i, of XWait w] show ?thesis by (auto simp: exec_step_def run_def)
qed

lemma serial_exec:
  assumes s: "serial fd base c" and l: "lock_ok c" and i: "i < length (xs c)"
    and run: "exec_step i c = Some c'"
  shows "serial fd base c'"
proof -
  note b = serial_bound [OF s]
  have calm: "calm (world c)" using b by (simp add: bound_def)
  have bd: "su_session (world c) \<noteq> None" using b by (auto simp: bound_def)
  note move = serial_move [OF s l i]
  have stay: "serial fd base (set_xpc i pc c)"
    if "sent pc = sent (xpc_of c i)" "\<nexists>k. xpc_of c i = XSend k" "\<nexists>k. pc = XSend k" for pc
    using move [OF that b] by simp
  show ?thesis
  proof (cases "xpc_of c i")
    case XStart
    with run bd stay [of XEnter] show ?thesis by (auto simp: exec_step_def)
  next
    case XEnter
    with run s stay [of XLock] show ?thesis by (auto simp: exec_step_def run_def split: sum.splits)
  next
    case XLock
    with run serial_acquire [OF s i, of XLog c'] show ?thesis by (simp add: exec_step_def)
  next
    case XReacq
    with run serial_acquire [OF s i, of XUnlock c'] show ?thesis by (simp add: exec_step_def)
  next
    case XLog
    with run serial_log [OF s l i] show ?thesis by (simp add: exec_step_def)
  next
    case (XSend k)
    with run serial_send [OF s l i XSend] s show ?thesis
      by (auto simp: exec_step_def run_def split: sum.splits)
  next
    case XReset
    from serial_reset [OF s l i this run] show ?thesis .
  next
    case XWait
    have "owner c = Some (TExec i)" using XWait lock_owner [OF l i] by simp
    with serial_owner [OF s i, of XSleep None "waiters c @ [i]"] XWait run s show ?thesis
      by (auto simp: exec_step_def run_def split: sum.splits)
  next
    case XUnlock
    have "owner c = Some (TExec i)" using XUnlock lock_owner [OF l i] by simp
    with serial_owner [OF s i, of XRead None "waiters c"] XUnlock run s show ?thesis
      by (auto simp: exec_step_def run_def split: sum.splits)
  next
    case XRead
    with run s stay show ?thesis by (auto simp: exec_step_def run_def split: sum.splits)
  qed (use run in \<open>simp_all add: exec_step_def\<close>)
qed

text \<open>A step of another thread that keeps the callers as they are.\<close>

lemma serial_world:
  assumes s: "serial fd base c" and "hframe (world c) w" and "h \<noteq> HStart \<longrightarrow> log_fd w = Some k"
  shows "serial fd base (c\<lparr>world := w, hp := h, hfd := k\<rparr>)"
  using hframe_bound [OF assms(2) serial_bound [OF s]] assms
  by (intro serial_same [OF s]) (auto simp: serial_def)

lemma serial_fields [simp]:
  "serial fd base (c\<lparr>inp := b\<rparr>) = serial fd base c" "serial fd base (c\<lparr>eof := d\<rparr>) = serial fd base c"
  "serial fd base (c\<lparr>hoff := k\<rparr>) = serial fd base c" "serial fd base (c\<lparr>ep := e\<rparr>) = serial fd base c"
  by (simp_all add: serial_def stream_def)

lemma serial_phase:
  assumes "serial fd base c"
  shows "hp c \<noteq> HStart \<Longrightarrow> serial fd base (c\<lparr>hp := h\<rparr>)"
    and "owner c = None \<Longrightarrow> hp c \<noteq> HStart \<Longrightarrow> serial fd base (c\<lparr>owner := Some THandler, hp := h\<rparr>)"
    and "owner c = None \<Longrightarrow> serial fd base (c\<lparr>owner := Some TExit\<rparr>)"
proof -
  have "partial (c\<lparr>owner := Some THandler, hp := h\<rparr>) = []" "partial (c\<lparr>owner := Some TExit\<rparr>) = []"
    by (simp_all add: partial_def)
  with assms show "hp c \<noteq> HStart \<Longrightarrow> serial fd base (c\<lparr>hp := h\<rparr>)"
    and "owner c = None \<Longrightarrow> hp c \<noteq> HStart \<Longrightarrow> serial fd base (c\<lparr>owner := Some THandler, hp := h\<rparr>)"
    and "owner c = None \<Longrightarrow> serial fd base (c\<lparr>owner := Some TExit\<rparr>)"
    by (auto simp: serial_def stream_def)
qed

lemma serial_handler:
  assumes s: "serial fd base c" and l: "lock_ok c" and run: "handler_step E n c = Some c'"
    and before: "before_stop c"
  shows "serial fd base c'"
proof (cases "hp c")
  case HStart
  show ?thesis
  proof (cases "handler_start (world c)")
    case (Inl f)
    with HStart run s show ?thesis by (auto simp: handler_step_def run_def)
  next
    case (Inr k)
    then have "log_fd (world c) = Some k" by (auto simp: handler_start_def log_fd_def split: option.splits)
    then have "serial fd base (c\<lparr>world := world c, hp := HRead, hfd := k\<rparr>)"
      by (intro serial_world [OF s]) simp_all
    then have "serial fd base (c\<lparr>world := world c, hp := HRead, hfd := k\<rparr>\<lparr>hoff := 0\<rparr>)" by (simp only: serial_fields)
    with HStart run Inr show ?thesis by (auto simp: handler_step_def run_def)
  qed
next
  case HRead
  then have lf: "log_fd (world c) = Some (hfd c)" using s by (simp add: serial_def)
  have fd: "map_of (fds (world c)) (hfd c) \<noteq> Some FConn"
    using serial_bound [OF s] lf by (simp add: bound_def calm_def)
  have read: "serial fd base ((if q then wake n else id) (c\<lparr>world := w, hoff := off, inp := bs\<rparr>))"
    if "handler_byte E (hfd c) b (hoff c) (world c) = Inr (off, w)" for b off w bs q
  proof -
    note fr = handler_byte_frame [OF that fd]
    have "log_fd w = Some (hfd c)" using fr lf by (simp add: hframe_def)
    from serial_world [OF s fr, of "hp c" "hfd c"] this
    have "serial fd base (c\<lparr>world := w, hp := hp c, hfd := hfd c\<rparr>\<lparr>hoff := off\<rparr>\<lparr>inp := bs\<rparr>)"
      by (simp only: serial_fields) simp
    moreover have "lock_ok (c\<lparr>world := w, hoff := off, inp := bs\<rparr>)" using l by simp
    ultimately show ?thesis using serial_wake by auto
  qed
  from HRead run s read show ?thesis
    by (auto simp: handler_step_def run_def serial_phase split: sum.splits list.splits if_splits)
next
  case HSignal
  show ?thesis
  proof (cases "signal_ready (world c)")
    case (Inl f)
    with HSignal run s show ?thesis by (auto simp: handler_step_def run_def)
  next
    case (Inr w)
    note fr = signal_ready_frame [OF Inr]
    have "log_fd w = Some (hfd c)" using fr s HSignal by (simp add: hframe_def serial_def)
    from serial_world [OF s fr, of HTry2 "hfd c"] this have "serial fd base (c\<lparr>world := w, hp := HTry2\<rparr>)"
      by simp
    moreover have "lock_ok (c\<lparr>world := w, hp := HTry2\<rparr>)" using lock_ok_phase(1) [OF l, of HTry2] by simp
    ultimately show ?thesis using HSignal run Inr serial_wake by (auto simp: handler_step_def run_def)
  qed
qed (use before run s in \<open>auto simp: handler_step_def run_def before_stop_def serial_phase
    split: sum.splits if_splits\<close>)

lemma serial_exit:
  assumes s: "serial fd base c" and l: "lock_ok c" and run: "exit_step E n c = Some c'"
    and before: "before_stop c"
  shows "serial fd base c'"
proof (cases "ep c")
  case ESignal
  show ?thesis
  proof (cases "signal_ready (world c)")
    case (Inl f)
    with ESignal run s show ?thesis by (auto simp: exit_step_def run_def)
  next
    case (Inr w)
    note fr = signal_ready_frame [OF Inr]
    have "hp c \<noteq> HStart \<longrightarrow> log_fd w = Some (hfd c)" using fr s by (simp add: hframe_def serial_def)
    from serial_world [OF s fr this] have "serial fd base (c\<lparr>world := w, hp := hp c, hfd := hfd c\<rparr>\<lparr>ep := ELock\<rparr>)"
      by (simp only: serial_fields)
    then have "serial fd base (c\<lparr>world := w, ep := ELock\<rparr>)" by simp
    moreover have "lock_ok (c\<lparr>world := w, ep := ELock\<rparr>)" using lock_ok_phase(2) [OF l, of ELock] by simp
    ultimately show ?thesis using ESignal run Inr serial_wake by (auto simp: exit_step_def run_def)
  qed
next
  case EStart
  have "su_session (world c) \<noteq> None" using serial_bound [OF s] by (auto simp: bound_def)
  with EStart run s show ?thesis by (auto simp: exit_step_def)
qed (use before run s in \<open>auto simp: exit_step_def run_def acquire_def before_stop_def serial_phase
    split: sum.splits if_splits\<close>)

lemma serial_call:
  assumes "serial fd base c" and "lock_ok c"
  shows "serial fd base (c\<lparr>xs := xs c @ [(cmd, XStart)]\<rparr>)"
proof (rule serial_same [OF assms(1)])
  let ?c = "c\<lparr>xs := xs c @ [(cmd, XStart)]\<rparr>"
  show "senders ?c = senders c"
    by (auto simp: senders_def xpc_of_call less_Suc_eq split: if_splits)
  show "cmd_of ?c i = cmd_of c i" if "i \<in> senders c" for i
    using that by (simp add: senders_def cmd_of_def nth_append)
  show "k \<le> 3" if "i < length (xs ?c)" "xpc_of ?c i = XSend k" for i k
    using that assms by (auto simp: xpc_of_call less_Suc_eq serial_def split: if_splits)
  have "i < length (xs c)" if "owner c = Some (TExec i)" for i
    using assms(2) that by (auto simp: lock_ok_def holders_def)
  then show "partial ?c = partial c"
    by (auto simp: partial_def xpc_of_call cmd_of_def nth_append split: option.splits tid.splits xpc.splits)
qed (use assms in \<open>auto simp: serial_def\<close>)

text \<open>No step leads back before the stop.\<close>

lemma before_stop_back:
  assumes "cstep E c c'" and "before_stop c'"
  shows "before_stop c"
  using assms(1)
proof cases
  case (Exec i)
  then have "hp c' = hp c" "ep c' = ep c"
    by (auto simp: exec_step_def run_def acquire_def Let_def split_beta split: xpc.splits sum.splits if_splits)
  with assms(2) show ?thesis by (simp add: before_stop_def)
next
  case (Handler n)
  then have "ep c' = ep c" "hp c \<in> {HStop, HInval, HLog, HDone} \<Longrightarrow> hp c' \<in> {HStop, HInval, HLog, HDone}"
    by (auto simp: handler_step_def run_def Let_def split_beta
        split: hpc.splits sum.splits list.splits if_splits)
  with assms(2) show ?thesis by (cases "hp c") (auto simp: before_stop_def)
next
  case (Exit n)
  then have "hp c' = hp c" "(\<forall>r. ep c \<noteq> EDone r) \<and> ep c \<notin> {EStop, EJoin, EInval}
      \<or> ep c' \<in> {EStop, EJoin, EInval} \<or> (\<exists>r. ep c' = EDone r)"
    by (auto simp: exit_step_def run_def acquire_def ask_def Let_def split_beta split: epc.splits sum.splits if_splits)
  with assms(2) show ?thesis by (cases "ep c") (auto simp: before_stop_def)
qed (use assms(2) in \<open>auto simp: before_stop_def\<close>)

definition serial_inv :: "int \<Rightarrow> string list \<Rightarrow> conc \<Rightarrow> bool" where
  "serial_inv fd base c \<longleftrightarrow> lock_ok c \<and> (before_stop c \<longrightarrow> serial fd base c)"

lemma serial_inv_step:
  assumes inv: "serial_inv fd base c" and step: "cstep E c c'"
  shows "serial_inv fd base c'"
proof -
  have l: "lock_ok c" "lock_ok c'" using inv lock_ok_step [OF _ step] by (simp_all add: serial_inv_def)
  have "serial fd base c'" if "before_stop c'"
  proof -
    have before: "before_stop c" using before_stop_back [OF step that] .
    with inv have s: "serial fd base c" by (simp add: serial_inv_def)
    show ?thesis
      using step
    proof cases
      case (Exec i)
      then show ?thesis by (intro serial_exec [OF s l(1)])
    next
      case (Handler n)
      then show ?thesis by (intro serial_handler [OF s l(1) _ before])
    next
      case (Exit n)
      then show ?thesis by (intro serial_exit [OF s l(1) _ before])
    qed (use s serial_call [OF s l(1)] serial_wake [OF s l(1)] in simp_all)
  qed
  with l show ?thesis by (simp add: serial_inv_def)
qed

text \<open>The start: idle threads, a bound session, and what was sent before.\<close>

definition serial_start :: "int \<Rightarrow> string list \<Rightarrow> conc \<Rightarrow> bool" where
  "serial_start fd base c \<longleftrightarrow> idle c \<and> bound fd (world c) \<and> sends fd (acts (world c)) = base"

interpretation serial: invariant_of "serial_start fd base" "cstep E" "serial_inv fd base" for E fd base
proof
  show "serial_inv fd base c" if "serial_start fd base c" for c
  proof -
    have "holders c = {}" "sleepers c = {}" "senders c = {}"
      using that by (auto simp: serial_start_def idle_def holders_def sleepers_def senders_def)
    with that show ?thesis
      by (auto simp: serial_start_def idle_def serial_inv_def serial_def lock_ok_def stream_def intro!: exI [of _ "[]"])
  qed
  show "serial_inv fd base c'" if "serial_inv fd base c" "cstep E c c'" for c c'
    using that by (rule serial_inv_step)
qed

section \<open>Properties\<close>

text \<open>The callers whose commands are complete on the stream, and those in between.\<close>

definition in_stop :: "conc \<Rightarrow> bool" where
  "in_stop c \<longleftrightarrow> hp c \<in> {HStop, HInval, HLog} \<or> ep c \<in> {EStop, EJoin, EInval}"


text \<open>C10: The commands reach the shell whole and one after the other: as long as neither the
  handler nor exit has begun to stop the session, what was sent on the client socket is the
  sequence of the writes of distinct callers, each one's complete (the command, a line feed,
  the command that prints the exit code, a line feed), followed by the first writes of the one
  caller that is in the middle of them.\<close>

theorem commands_contiguous:
  assumes "idle c0" and "bound fd (world c0)" and "(cstep E)\<^sup>*\<^sup>* c0 c" and "before_stop c"
  shows "\<exists>order. distinct order \<and> set order = {i. i < length (xs c) \<and> sent (xpc_of c i)}
    \<and> sends fd (acts (world c)) = sends fd (acts (world c0))
        @ concat (map (\<lambda>i. exec_writes (cmd_of c i)) order) @ partial c"
proof -
  have "serial_start fd (sends fd (acts (world c0))) c0" using assms(1,2) by (simp add: serial_start_def)
  from serial.reach_inv [OF this assms(3)] assms(4) show ?thesis
    by (auto simp: serial_inv_def serial_def stream_def senders_def)
qed

section \<open>Instances\<close>

text \<open>Two callers of the sample session: the first is at its second write when the second waits
  for the mutex.\<close>

definition sample_conc :: conc where
  "sample_conc = \<lparr>world = sample_hproc, owner = None, waiters = [], xs = [], hp = HStart, hfd = 0,
     hoff = 0, ep = EIdle, inp = [], eof = False, fault = None\<rparr>"

definition two_callers :: "event list" where
  "two_callers = [Do_call ''id'', Do_call ''ls'', Do_exec 0, Do_exec 1, Do_exec 0, Do_exec 1, Do_exec 0,
     Do_exec 0, Do_exec 0]"

definition two_called :: conc where
  "two_called = the (play sample_env two_callers sample_conc)"

lemma sample_idle: "idle sample_conc"
  by (simp add: idle_def sample_conc_def)

lemma two_called_run: "play sample_env two_callers sample_conc = Some two_called"
proof -
  have "play sample_env two_callers sample_conc \<noteq> None" by code_simp
  then show ?thesis by (auto simp: two_called_def)
qed

lemma two_called_state:
  "length (xs two_called) = 2" "xpc_of two_called 0 = XSend 1" "xpc_of two_called 1 = XLock"
  "before_stop two_called" "cmd_of two_called 0 = ''id''" "owner two_called = Some (TExec 0)"
  by code_simp+


theorem commands_contiguous_witness:
  "sends 5 (acts (world two_called)) = [''id'']"
proof -
  have none: "{i. i < length (xs two_called) \<and> sent (xpc_of two_called i)} = {}"
    using two_called_state(1-3) by (auto simp: numeral_2_eq_2 less_Suc_eq intro: gr0I)
  have "bound 5 (world sample_conc)" "sends 5 (acts (world sample_conc)) = []"
    by (simp_all add: bound_def sample_conc_def sample_hproc_def sample_su_session_def calm_def log_fd_def)
  moreover have "partial two_called = [''id'']"
    using two_called_state by (simp add: partial_owner exec_writes_def cstr_def)
  ultimately show ?thesis
    using commands_contiguous [OF sample_idle _ play_steps [OF two_called_run] two_called_state(4), of 5] none
    by auto
qed

end
