(* ===== verification/Races.thy ===== *)
theory Races
  imports Serial
begin

text \<open>
  What the threads give their callers, and what they do not: the interleavings in which an
  exit code is delivered, and those in which it is lost, replaced or waited for in vain.
\<close>

section \<open>Reading the stream\<close>

lemma alloc_signals [simp]:
  "signals (snd (c_realloc E a n w)) = signals w" "signals (free_if a w) = signals w"
  "signals (snd (c_malloc E n w)) = signals w" "signals (os_write fd l w) = signals w"
  by (rule more_fields(3); simp add: c_realloc_frame)+

lemma signals_mono:
  assumes "handler_byte E fd c off w = Inr (off', w')"
  shows "signals w \<le> signals w'"
proof -
  have grow: "signals v = signals w" if "grow_buf E off w = Inr v" for v
    using that by (auto simp: grow_buf_def c_bind_Inr Let_def split_beta split: if_splits)
  have put: "signals v' = signals v" if "put_cell i b v = Inr v'" for i b v v'
    using that by (auto simp: put_cell_def c_bind_Inr split: if_splits)
  have sig: "signals v' = Suc (signals v)" if "signal_ready v = Inr v'" for v v'
    using that by (auto simp: signal_ready_def c_bind_Inr split: if_splits)
  have eoc: "signals v \<le> signals v'" if "handle_eoc l v = Inr v'" for l v v'
    using that sig by (fastforce simp: handle_eoc_def split: scan_result.splits)
  have out: "signals v' = signals v" if "handle_output E fd l v = Inr v'" for l v v'
    using that by (auto simp: handle_output_def c_bind_Inr Let_def split_beta split: option.splits if_splits)
  from assms show ?thesis
    by (auto simp: handler_byte_def c_bind_Inr split: if_splits dest!: grow put eoc out)
qed

lemma loop_signals_mono: "handler_loop E fd s off w = Inr (off', w') \<Longrightarrow> signals w \<le> signals w'"
proof (induction E fd s off w rule: handler_loop.induct)
  case (2 E fd c cs off w)
  from "2.prems" obtain sa b where d: "deref w = Inr sa" "handler_byte E fd c off w = Inr b"
    "handler_loop E fd cs (fst b) (snd b) = Inr (off', w')"
    by (auto simp: c_bind_Inr)
  with "2.IH" [OF d(3)] signals_mono [of E fd c off w "fst b" "snd b"] show ?case by auto
qed (auto simp: c_bind_Inr)

text \<open>
  The handler reads a piece of the stream that raises at most one signal: the caller at any
  position of the condition variable can be the one that is woken.
\<close>

lemma handler_reads:
  assumes "handler_loop E (hfd c) s (hoff c) (world c) = Inr (off, w)" and "hp c = HRead"
    and "fault c = None" and "inp c = s @ rest" and "wakes n c" and "signals w \<le> Suc (signals (world c))"
  shows "(cstep E)\<^sup>*\<^sup>* c ((if signals w > signals (world c) then wake n else id)
    (c\<lparr>world := w, hoff := off, inp := rest\<rparr>))"
  using assms
proof (induction s arbitrary: c n)
  case Nil
  then have "c\<lparr>world := w, hoff := off, inp := rest\<rparr> = c" "w = world c" by (auto simp: c_bind_Inr)
  then show ?case by simp
next
  case (Cons b s)
  from Cons.prems(1) obtain sa off1 w1 where d: "deref (world c) = Inr sa"
    and hb: "handler_byte E (hfd c) b (hoff c) (world c) = Inr (off1, w1)"
    and rest: "handler_loop E (hfd c) s off1 w1 = Inr (off, w)"
    by (auto simp: c_bind_Inr)
  let ?u = "c\<lparr>world := w1, hoff := off1, inp := s @ rest\<rparr>"
  let ?c1 = "(if signals w1 > signals (world c) then wake n else id) ?u"
  have "handler_step E n c = Some ?c1"
    using Cons.prems(2,4) d hb by (simp add: handler_step_def run_def)
  then have step: "cstep E c ?c1"
    using Cons.prems(3,5) cstep.Handler by (auto simp: wakes_def)
  have le: "signals w1 \<le> signals w" "signals (world c) \<le> signals w1"
    using loop_signals_mono [OF rest] signals_mono [OF hb] by simp_all
  show ?case
  proof (cases "signals w1 > signals (world c)")
    case True
    then have same: "signals w = signals w1" "signals w > signals (world c)" using le Cons.prems(6) by auto
    have "wakes 0 ?c1" by (auto simp: wakes_def)
    with Cons.IH [of ?c1 0] rest Cons.prems(2,3) True same
    have "(cstep E)\<^sup>*\<^sup>* ?c1 (?c1\<lparr>world := w, hoff := off, inp := rest\<rparr>)" by simp
    with step have "(cstep E)\<^sup>*\<^sup>* c (?c1\<lparr>world := w, hoff := off, inp := rest\<rparr>)"
      by (rule converse_rtranclp_into_rtranclp)
    moreover have "?c1\<lparr>world := w, hoff := off, inp := rest\<rparr> = wake n (c\<lparr>world := w, hoff := off, inp := rest\<rparr>)"
      using True by (simp add: wake_def set_xpc_def cmd_of_def)
    ultimately show ?thesis using same by simp
  next
    case False
    then have same: "signals w1 = signals (world c)" using le by simp
    have "wakes n ?c1" using Cons.prems(5) same by (simp add: wakes_def)
    with Cons.IH [of ?c1 n] rest Cons.prems(2,3,6) same
    have "(cstep E)\<^sup>*\<^sup>* ?c1 ((if signals w > signals (world c) then wake n else id)
        (c\<lparr>world := w, hoff := off, inp := rest\<rparr>))" by simp
    with step show ?thesis by (rule converse_rtranclp_into_rtranclp)
  qed
qed

section \<open>Returning\<close>

lemma set_xpc_twice [simp]: "set_xpc i pc (set_xpc i pc' c) = set_xpc i pc c"
proof -
  have "cmd_of (set_xpc i pc' c) i = cmd_of c i" by simp
  then show ?thesis unfolding set_xpc_def by simp
qed

lemma set_xpc_upd [simp]:
  "set_xpc i pc (c\<lparr>owner := q\<rparr>) = (set_xpc i pc c)\<lparr>owner := q\<rparr>"
  "set_xpc i pc (c\<lparr>world := w\<rparr>) = (set_xpc i pc c)\<lparr>world := w\<rparr>"
  unfolding set_xpc_def by simp_all

text \<open>A woken caller that finds the mutex free returns the exit code that is stored.\<close>

lemma woken_returns:
  assumes "fault c = None" and "i < length (xs c)" and "xpc_of c i = XReacq" and "owner c = None"
    and "su_session (world c) = Some s" and "shell_sync_mutex s \<noteq> 0"
  shows "(cstep E)\<^sup>*\<^sup>* c (set_xpc i (XDone (shell_cmd_exit_code s)) c)"
proof -
  have "play E [Do_exec i, Do_exec i, Do_exec i] c = Some (set_xpc i (XDone (shell_cmd_exit_code s)) c)"
    using assms
    by (simp add: exec_step_def acquire_def run_def the_mutex_def deref_def exec_result_def)
  then show ?thesis by (rule play_steps)
qed

lemma log_fd_file:
  assumes "log_ready w" and "log_fd w = Some fd"
  shows "map_of (fds w) fd \<noteq> Some FConn"
  using assms(1)
proof (rule log_readyE)
  fix k p s
  assume "su_srv_log_fptr w = Some \<lparr>cf_fd = k, cf_buf = []\<rparr>" "map_of (fds w) k = Some (FFile p)"
  with assms(2) show ?thesis by (simp add: log_fd_def)
qed

text \<open>
  The shell's answer to a command has arrived: lines of output, then the line with the exit
  code. The handler reads it to its end, stores the code and wakes one of the callers that wait.
\<close>

definition answered :: "env \<Rightarrow> string list \<Rightarrow> nat \<Rightarrow> string \<Rightarrow> conc \<Rightarrow> bool" where
  "answered E outs n rest c \<longleftrightarrow>
     inp c = concat outs @ eoc_line n @ rest \<and> (\<forall>l \<in> set outs. output_line l) \<and> n < 2 ^ 31
     \<and> short_lines [] (concat outs @ eoc_line n)
     \<and> hp c = HRead \<and> hoff c = 0 \<and> fault c = None
     \<and> reading [] (world c) \<and> log_ready (world c) \<and> log_fd (world c) = Some (hfd c)
     \<and> ptr_ok E \<and> reallocs E \<and> mallocs E"

lemma answer_read:
  assumes "answered E outs n rest c" and "wakes k c" and s: "su_session (world c) = Some s"
  obtains w s' where "(cstep E)\<^sup>*\<^sup>* c (wake k (c\<lparr>world := w, hoff := 0, inp := rest\<rparr>))"
    and "su_session w = Some s'" and "ptrs s' = ptrs s" and "shell_cmd_exit_code s' = int n"
    and "map_option snd (last_tty_read s') =
      (if outs = [] then map_option snd (last_tty_read s) else Some (last outs))"
    and "log_text w = log_text (world c) @ (if tty_echo s \<noteq> 0 then concat outs else [])"
proof -
  note a = assms(1) [unfolded answered_def]
  have sp: "split_lines [] (concat outs @ eoc_line n) = (outs @ [eoc_line n], [])"
    using split_lines_outputs [of outs "eoc_line n"] split_eoc_line [of "[]" n] a by simp
  obtain w where w: "handler_loop E (hfd c) (concat outs @ eoc_line n) (int (length [])) (world c) = Inr (int (length []), w)"
    "reading [] w" "hview w = fold line_step (outs @ [eoc_line n]) (hview (world c))"
    by (rule handler_loop_ok [OF _ _ _ _ sp, of "world c" E "hfd c"]) (use a in auto)
  have "map_of (fds (world c)) (hfd c) \<noteq> Some FConn" by (rule log_fd_file) (use a in simp_all)
  then have fr: "hframe (world c) w" by (rule handler_loop_frame [OF w(1)])
  obtain s' where s': "su_session w = Some s'" "ptrs s' = ptrs s"
    using fr w(2) s by (auto simp: hframe_def reading_def)
  define v where "v = hview (world c)"
  have view: "hview w = v\<lparr>v_code := int n, v_signals := Suc (v_signals v),
      v_last := (if outs = [] then v_last v else Some (last outs)),
      v_log := v_log v @ (if v_echo v \<noteq> 0 then concat outs else [])\<rparr>"
    using w(3) output_lines_fold [of outs] eoc_line_step [of n] a by (simp add: v_def)
  have "handler_loop E (hfd c) (concat outs @ eoc_line n) (hoff c) (world c) = Inr (0, w)"
    using w(1) a by simp
  moreover have "signals w = Suc (signals (world c))"
    using arg_cong [OF view, of v_signals] s'(1) s by (simp add: hview_def v_def)
  ultimately have "(cstep E)\<^sup>*\<^sup>* c (wake k (c\<lparr>world := w, hoff := 0, inp := rest\<rparr>))"
    using handler_reads [of E c "concat outs @ eoc_line n" 0 w rest k] assms(2) a by simp
  then show thesis
  proof (rule that [OF _ s'])
    show "shell_cmd_exit_code s' = int n"
      "map_option snd (last_tty_read s') = (if outs = [] then map_option snd (last_tty_read s) else Some (last outs))"
      "log_text w = log_text (world c) @ (if tty_echo s \<noteq> 0 then concat outs else [])"
      using arg_cong [OF view, of v_code] arg_cong [OF view, of v_last] arg_cong [OF view, of v_log] s'(1) s
      by (simp_all add: hview_def v_def)
  qed
qed

text \<open>
  A caller that finds the mutex free sends its command and resets the exit code, and stands
  before the wait.
\<close>

lemma exec_sends:
  assumes "fault c = None" and i: "i < length (xs c)" and pc: "xpc_of c i = XLock" and "owner c = None"
    and b: "bound fd (world c)" and s: "su_session (world c) = Some s"
  obtains w where "(cstep E)\<^sup>*\<^sup>* c (set_xpc i XWait (c\<lparr>owner := Some (TExec i), world := w\<rparr>))"
    and "su_session w = Some (s\<lparr>shell_cmd_exit_code := SU_SRV_INVALID_RESULT_ERR\<rparr>)"
proof -
  let ?cmd = "cmd_of c i"
  let ?at = "\<lambda>pc w. set_xpc i pc (c\<lparr>owner := Some (TExec i), world := w\<rparr>)"
  define w0 where "w0 = su_srv_log_cmdstr ?cmd (world c)"
  have "logs (world c) w0" using b by (simp add: w0_def log_calls_logs bound_def)
  then have s0: "su_session w0 = Some s" using logs_frame(7) [of "world c" w0] s by (cases w0; cases "world c") simp
  define put :: "nat \<Rightarrow> hproc \<Rightarrow> hproc" where "put = (\<lambda>k. os_write (afun_client_fd s) (exec_writes ?cmd ! k))"
  have more: "su_session (put k w) = su_session w" for k w
    unfolding put_def by (rule more_fields) (simp add: os_write_bound)
  define w4 where "w4 = put 3 (put 2 (put 1 (put 0 w0)))"
  have wr: "exec_write (exec_writes ?cmd ! k) w = Inr (put k w)" if "su_session w = Some s" for k w
    using that by (simp add: exec_write_def deref_def put_def)
  have rs: "exec_reset w4 = Inr (upd (\<lambda>s. s\<lparr>shell_cmd_exit_code := SU_SRV_INVALID_RESULT_ERR\<rparr>) w4)"
    by (simp add: exec_reset_def deref_def w4_def more s0)
  let ?w = "upd (\<lambda>s. s\<lparr>shell_cmd_exit_code := SU_SRV_INVALID_RESULT_ERR\<rparr>) w4"
  have step: "(cstep E)\<^sup>*\<^sup>* (?at p w) (?at p' w')" if "exec_step i (?at p w) = Some (?at p' w')" for p w p' w'
    by (rule r_into_rtranclp, rule cstep.Exec [of _ i]) (use that assms(1) i in simp_all)
  have "exec_step i c = Some (?at XLog (world c))"
    using pc s assms(4) by (simp add: exec_step_def acquire_def)
  then have "(cstep E)\<^sup>*\<^sup>* c (?at XLog (world c))" using cstep.Exec [OF assms(1) i] by blast
  also have "(cstep E)\<^sup>*\<^sup>* \<dots> (?at (XSend 0) w0)"
    using i by (intro step) (simp add: exec_step_def w0_def)
  also have "(cstep E)\<^sup>*\<^sup>* \<dots> (?at (XSend 1) (put 0 w0))"
    using i s0 by (intro step) (simp add: exec_step_def run_def wr numeral_2_eq_2)
  also have "(cstep E)\<^sup>*\<^sup>* \<dots> (?at (XSend 2) (put 1 (put 0 w0)))"
    using i s0 by (intro step) (simp add: exec_step_def run_def wr more numeral_2_eq_2 numeral_3_eq_3)
  also have "(cstep E)\<^sup>*\<^sup>* \<dots> (?at (XSend 3) (put 2 (put 1 (put 0 w0))))"
    using i s0 by (intro step) (simp add: exec_step_def run_def wr more numeral_2_eq_2 numeral_3_eq_3)
  also have "(cstep E)\<^sup>*\<^sup>* \<dots> (?at XReset w4)"
    using i s0 by (intro step) (simp add: exec_step_def run_def wr more w4_def numeral_3_eq_3)
  also have "(cstep E)\<^sup>*\<^sup>* \<dots> (?at XWait ?w)"
    using i s0 by (intro step) (simp add: exec_step_def run_def rs)
  finally have "(cstep E)\<^sup>*\<^sup>* c (?at XWait ?w)" by simp
  then show thesis by (rule that) (simp add: w4_def more s0)
qed


section \<open>Properties\<close>

text \<open>An exit code is delivered: a caller that waits when the shell's answer to its command
  arrives (lines of output, then the line with the exit code) can return exactly that code,
  with the mutex released, the output echoed and its last line kept.\<close>

theorem exec_delivers:
  assumes "answered E outs n rest c" and i: "i < length (xs c)" and "xpc_of c i = XSleep"
    and ws: "waiters c = [i]" and "owner c = None" and "su_session (world c) = Some s"
    and "shell_sync_mutex s \<noteq> 0"
  shows "\<exists>c'. (cstep E)\<^sup>*\<^sup>* c c' \<and> xpc_of c' i = XDone (int n) \<and> owner c' = None \<and> inp c' = rest
    \<and> su_srv_last_tty_read (world c') = (if outs = [] then su_srv_last_tty_read (world c) else Some (last outs))
    \<and> log_text (world c') = log_text (world c) @ (if tty_echo s \<noteq> 0 then concat outs else [])"
proof -
  have "wakes 0 c" using ws by (simp add: wakes_def)
  from answer_read [OF assms(1) this assms(6)] obtain w s'
    where r: "(cstep E)\<^sup>*\<^sup>* c (wake 0 (c\<lparr>world := w, hoff := 0, inp := rest\<rparr>))" and
    w: "su_session w = Some s'" "ptrs s' = ptrs s" "shell_cmd_exit_code s' = int n"
      "map_option snd (last_tty_read s') =
        (if outs = [] then map_option snd (last_tty_read s) else Some (last outs))"
      "log_text w = log_text (world c) @ (if tty_echo s \<noteq> 0 then concat outs else [])" by metis
  let ?c1 = "wake 0 (c\<lparr>world := w, hoff := 0, inp := rest\<rparr>)"
  have c1: "fault ?c1 = None" "i < length (xs ?c1)" "xpc_of ?c1 i = XReacq" "owner ?c1 = None"
    "world ?c1 = w" "inp ?c1 = rest"
    using assms by (simp_all add: wake_def answered_def)
  have "shell_sync_mutex s' \<noteq> 0" using w(2) assms(7) by (simp add: ptrs_def)
  then have "(cstep E)\<^sup>*\<^sup>* ?c1 (set_xpc i (XDone (int n)) ?c1)"
    using woken_returns [OF c1(1-4), of s'] w(1,3) c1(5) by simp
  with r have "(cstep E)\<^sup>*\<^sup>* c (set_xpc i (XDone (int n)) ?c1)" by simp
  with c1 w assms(6) show ?thesis
    by (intro exI [of _ "set_xpc i (XDone (int n)) ?c1"]) (simp add: su_srv_last_tty_read_def)
qed

text \<open>C20: A wake-up is lost when the shell answers early: the handler does not take the mutex, so
  an answer that is read while the caller holds the mutex on its way into the wait stores the
  exit code and wakes nobody; the caller then waits although its exit code is there, and
  neither it nor the handler can move.\<close>

theorem lost_wakeup:
  assumes "answered E outs n [] c" and i: "i < length (xs c)" and "xpc_of c i = XWait"
    and ws: "waiters c = []" and "\<not> eof c" and "su_session (world c) = Some s"
    and "shell_sync_mutex s \<noteq> 0" and "shell_sync_ready s \<noteq> 0"
  shows "\<exists>c'. (cstep E)\<^sup>*\<^sup>* c c' \<and> xpc_of c' i = XSleep \<and> waiters c' = [i] \<and> owner c' = None
    \<and> exec_result (world c') = Inr (int n) \<and> exec_step i c' = None \<and> (\<forall>k. handler_step E k c' = None)"
proof -
  have "wakes 0 c" using ws by (simp add: wakes_def)
  from answer_read [OF assms(1) this assms(6)] obtain w s'
    where r: "(cstep E)\<^sup>*\<^sup>* c (wake 0 (c\<lparr>world := w, hoff := 0, inp := []\<rparr>))" and
    w: "su_session w = Some s'" "ptrs s' = ptrs s" "shell_cmd_exit_code s' = int n" by metis
  let ?u = "c\<lparr>world := w, hoff := 0, inp := []\<rparr>"
  let ?v = "set_xpc i XSleep (?u\<lparr>owner := None, waiters := [i]\<rparr>)"
  have "wake 0 ?u = ?u" using ws by (simp add: wake_def)
  moreover have "exec_step i ?u = Some ?v"
    using assms(3,7,8) w ws
    by (simp add: exec_step_def run_def the_mutex_def the_ready_def deref_def ptrs_def)
  then have "cstep E ?u ?v" using assms(1) i by (intro cstep.Exec) (simp_all add: answered_def)
  ultimately have "(cstep E)\<^sup>*\<^sup>* c ?v" using r by simp
  with i w assms(1,5) show ?thesis
    by (intro exI [of _ ?v]) (simp add: exec_result_def deref_def exec_step_def handler_step_def answered_def)
qed

text \<open>C22: The exit code is read after the mutex is given up: a caller about to return its own exit
  code returns \<open>SU_SRV_INVALID_RESULT_ERR\<close> instead when another caller, waiting for the mutex,
  sends its command and resets the code first.\<close>

theorem result_race:
  assumes "fault c = None" and "i < length (xs c)" and "j < length (xs c)" and "i \<noteq> j"
    and "xpc_of c i = XRead" and "xpc_of c j = XLock" and "owner c = None" and "bound fd (world c)"
  shows "\<exists>c'. (cstep E)\<^sup>*\<^sup>* c c' \<and> xpc_of c' i = XDone SU_SRV_INVALID_RESULT_ERR \<and> xpc_of c' j = XWait"
proof -
  obtain s where s: "su_session (world c) = Some s" using assms(8) by (auto simp: bound_def)
  obtain w where r: "(cstep E)\<^sup>*\<^sup>* c (set_xpc j XWait (c\<lparr>owner := Some (TExec j), world := w\<rparr>))"
    and w: "su_session w = Some (s\<lparr>shell_cmd_exit_code := SU_SRV_INVALID_RESULT_ERR\<rparr>)"
    by (rule exec_sends [OF assms(1,3,6,7,8) s])
  let ?c = "set_xpc j XWait (c\<lparr>owner := Some (TExec j), world := w\<rparr>)"
  let ?c' = "set_xpc i (XDone SU_SRV_INVALID_RESULT_ERR) ?c"
  have "exec_step i ?c = Some ?c'"
    using assms(2-5) w by (simp add: exec_step_def run_def exec_result_def deref_def)
  then have "cstep E ?c ?c'" using assms(1,2) by (intro cstep.Exec) simp_all
  with r have "(cstep E)\<^sup>*\<^sup>* c ?c'" by simp
  moreover have "xpc_of ?c' i = XDone SU_SRV_INVALID_RESULT_ERR" "xpc_of ?c' j = XWait"
    using assms(2-4) by simp_all
  ultimately show ?thesis by blast
qed

text \<open>C21: With two callers waiting, an exit code can go to the wrong one: the mutex is free while a
  command runs, so a second command is sent before the first has ended, and the signal for
  the first command's exit code can wake the second caller, which then returns it while the
  first caller goes on waiting.\<close>

theorem code_misdelivered:
  assumes "answered E outs n rest c" and "i < length (xs c)" and "j < length (xs c)" and "i \<noteq> j"
    and "xpc_of c i = XSleep" and "xpc_of c j = XSleep" and ws: "waiters c = [i, j]" and "owner c = None"
    and "su_session (world c) = Some s" and "shell_sync_mutex s \<noteq> 0"
  shows "\<exists>c'. (cstep E)\<^sup>*\<^sup>* c c' \<and> xpc_of c' j = XDone (int n) \<and> xpc_of c' i = XSleep \<and> waiters c' = [i]"
proof -
  have "wakes 1 c" using ws by (simp add: wakes_def)
  from answer_read [OF assms(1) this assms(9)] obtain w s'
    where r: "(cstep E)\<^sup>*\<^sup>* c (wake 1 (c\<lparr>world := w, hoff := 0, inp := rest\<rparr>))" and
    w: "su_session w = Some s'" "ptrs s' = ptrs s" "shell_cmd_exit_code s' = int n" by metis
  let ?c1 = "wake 1 (c\<lparr>world := w, hoff := 0, inp := rest\<rparr>)"
  have c1: "fault ?c1 = None" "j < length (xs ?c1)" "xpc_of ?c1 j = XReacq" "owner ?c1 = None"
    "world ?c1 = w" "xpc_of ?c1 i = XSleep" "waiters ?c1 = [i]"
    using assms by (simp_all add: wake_def answered_def)
  have "shell_sync_mutex s' \<noteq> 0" using w(2) assms(10) by (simp add: ptrs_def)
  then have "(cstep E)\<^sup>*\<^sup>* ?c1 (set_xpc j (XDone (int n)) ?c1)"
    using woken_returns [OF c1(1-4), of s'] w(1,3) c1(5) by simp
  with r have "(cstep E)\<^sup>*\<^sup>* c (set_xpc j (XDone (int n)) ?c1)" by simp
  with c1 assms(2-4) show ?thesis by (intro exI [of _ "set_xpc j (XDone (int n)) ?c1"]) simp
qed

section \<open>Instances\<close>

text \<open>A call keeps its place and its command.\<close>

lemma cmd_step:
  assumes "cstep E c c'" and "i < length (xs c)"
  shows "i < length (xs c') \<and> cmd_of c' i = cmd_of c i"
  using assms
proof cases
  case (Exec j)
  then show ?thesis using assms(2)
    by (cases "xpc_of c j") (auto simp: exec_step_def run_def acquire_def Let_def split_beta
        split: sum.splits if_splits)
next
  case (Handler n)
  then show ?thesis using assms(2)
    by (cases "hp c") (auto simp: handler_step_def run_def split: sum.splits list.splits if_splits)
next
  case (Exit n)
  then show ?thesis using assms(2)
    by (cases "ep c") (auto simp: exit_step_def run_def acquire_def ask_def Let_def split: sum.splits if_splits)
next
  case (Call_exec cmd)
  then show ?thesis using assms(2) by (simp add: cmd_of_def nth_append)
qed (use assms(2) in auto)

lemma cmd_kept: "(cstep E)\<^sup>*\<^sup>* c c' \<Longrightarrow> i < length (xs c) \<Longrightarrow> cmd_of c' i = cmd_of c i"
proof -
  assume "(cstep E)\<^sup>*\<^sup>* c c'" "i < length (xs c)"
  then have "i < length (xs c') \<and> cmd_of c' i = cmd_of c i"
    by (induction rule: rtranclp_induct) (auto dest: cmd_step)
  then show ?thesis by simp
qed

text \<open>The state reached from idle when the shell has answered while the caller is still on its way
  into the wait: it has sent its command, logged before.\<close>

definition the_answer :: string where "the_answer = concat [''uid=0'' @ [LF]] @ eoc_line 3"

definition sent_world :: hproc where
  "sent_world = sample_hproc\<lparr>
     nodes := [(''/l'', NFile (''log:# id'' @ [LF])), (''/d/var/run/su-00007'', NSock)],
     su_session := Some (sample_su_session\<lparr>shell_cmd_exit_code := - 9996\<rparr>),
     acts := [ASend 5 ''id'', ASend 5 [LF], ASend 5 EOC_CMD, ASend 5 [LF]]\<rparr>"

definition early :: conc where
  "early = sample_conc\<lparr>world := sent_world, owner := Some (TExec 0), xs := [(''id'', XWait)],
     hp := HRead, hfd := 3, inp := the_answer\<rparr>"

lemma early_reached: "(cstep sample_env)\<^sup>*\<^sup>* sample_conc early"
proof -
  have "play sample_env ([Do_handler 0, Do_call ''id''] @ replicate 9 (Do_exec 0)) sample_conc =
      Some (early\<lparr>inp := []\<rparr>)"
    by code_simp
  moreover have "play sample_env (map Do_write the_answer) (early\<lparr>inp := []\<rparr>) = Some early"
    by code_simp
  ultimately show ?thesis by (metis play_steps rtranclp_trans)
qed

lemma early_answered:
  "answered sample_env [''uid=0'' @ [LF]] 3 [] (early\<lparr>owner := q, waiters := ws, xs := cs\<rparr>)"
proof -
  have "reading [] sent_world" "log_ready sent_world" "log_fd sent_world = Some 3"
    by (simp_all add: reading_def log_ready_def log_fd_def node_at_def sent_world_def sample_hproc_def
        sample_su_session_def)
  then show ?thesis
    unfolding answered_def early_def sample_conc_def the_answer_def
    using sample_output sample_env_ok sample_short by simp
qed

lemma early_eq: "early\<lparr>owner := Some (TExec 0), waiters := [], xs := [(''id'', XWait)]\<rparr> = early"
  by (simp add: early_def sample_conc_def)

text \<open>The caller in the wait when the answer has arrived.\<close>

definition asleep :: conc where
  "asleep = early\<lparr>owner := None, waiters := [0], xs := [(''id'', XSleep)]\<rparr>"

lemma asleep_reached: "(cstep sample_env)\<^sup>*\<^sup>* sample_conc asleep"
proof -
  have "play sample_env [Do_exec 0] early = Some asleep" by code_simp
  then show ?thesis using early_reached by (metis play_steps rtranclp_trans)
qed

lemma sent_session: "su_session (world early) = Some (sample_su_session\<lparr>shell_cmd_exit_code := - 9996\<rparr>)"
  by (simp add: early_def sent_world_def)

theorem exec_delivers_witness:
  "idle sample_conc \<and> (\<exists>c'. (cstep sample_env)\<^sup>*\<^sup>* sample_conc c' \<and> xpc_of c' 0 = XDone 3)"
proof -
  have "\<exists>c'. (cstep sample_env)\<^sup>*\<^sup>* asleep c' \<and> xpc_of c' 0 = XDone 3"
    using exec_delivers [OF early_answered [where q = None and ws = "[0]" and cs = "[(''id'', XSleep)]"], of 0
      "sample_su_session\<lparr>shell_cmd_exit_code := - 9996\<rparr>"] sent_session
    by (auto simp: xpc_of_def sample_su_session_def simp flip: asleep_def) (auto simp: asleep_def)
  then show ?thesis using asleep_reached sample_idle by (blast intro: rtranclp_trans)
qed

theorem lost_wakeup_witness:
  "idle sample_conc \<and> (\<exists>c'. (cstep sample_env)\<^sup>*\<^sup>* sample_conc c' \<and> xpc_of c' 0 = XSleep
     \<and> exec_result (world c') = Inr 3 \<and> exec_step 0 c' = None \<and> (\<forall>k. handler_step sample_env k c' = None))"
proof -
  have "xpc_of early 0 = XWait" "length (xs early) = 1" "waiters early = []" "\<not> eof early"
    by (simp_all add: early_def sample_conc_def xpc_of_def)
  then have "\<exists>c'. (cstep sample_env)\<^sup>*\<^sup>* early c' \<and> xpc_of c' 0 = XSleep
     \<and> exec_result (world c') = Inr 3 \<and> exec_step 0 c' = None \<and> (\<forall>k. handler_step sample_env k c' = None)"
    using lost_wakeup [OF early_answered [where q = "Some (TExec 0)" and ws = "[]" and cs = "[(''id'', XWait)]"],
      of 0 "sample_su_session\<lparr>shell_cmd_exit_code := - 9996\<rparr>"] sent_session
    by (auto simp: early_eq sample_su_session_def)
  then show ?thesis using early_reached sample_idle by (blast intro: rtranclp_trans)
qed

lemma sample_bound: "bound 5 sample_hproc"
  by (simp add: bound_def sample_hproc_def sample_su_session_def calm_def log_fd_def)

text \<open>The caller that was woken is about to read its code when a second one waits for the mutex.\<close>

definition raced_session :: su_shell_session where
  "raced_session = sample_su_session\<lparr>handler_buf := 13, last_tty_read := Some (6, ''uid=0'' @ [LF]),
     shell_cmd_exit_code := 3\<rparr>"

definition raced :: conc where
  "raced = sample_conc\<lparr>world := sent_world\<lparr>tick := 8, brk := 13, heap := [13, 6, 5, 4, 2, 1],
       nodes := [(''/l'', NFile (''log:# id'' @ [LF] @ ''uid=0'' @ [LF])), (''/d/var/run/su-00007'', NSock)],
       su_session := Some raced_session,
       handler_cells := map Some (''<SU_SRV_EOC>3'' @ [LF, NUL]) @ replicate 30 None, signals := 1\<rparr>,
     xs := [(''id'', XRead), (''ls'', XLock)], hp := HRead, hfd := 3\<rparr>"

lemma raced_reached: "(cstep sample_env)\<^sup>*\<^sup>* sample_conc raced"
proof -
  have "play sample_env ([Do_call ''ls'', Do_exec 1, Do_exec 1]
      @ replicate (length the_answer) (Do_handler 0) @ [Do_exec 0, Do_exec 0]) asleep = Some raced"
    by code_simp
  then show ?thesis using asleep_reached by (metis play_steps rtranclp_trans)
qed

theorem result_race_witness:
  "idle sample_conc \<and> (\<exists>c'. (cstep sample_env)\<^sup>*\<^sup>* sample_conc c'
     \<and> xpc_of c' 0 = XDone SU_SRV_INVALID_RESULT_ERR) \<and> exec_result (world raced) = Inr 3"
proof -
  have "bound 5 (world raced)"
    by (simp add: bound_def raced_def raced_session_def sent_world_def sample_hproc_def sample_su_session_def
        calm_def log_fd_def)
  then have "\<exists>c'. (cstep sample_env)\<^sup>*\<^sup>* raced c' \<and> xpc_of c' 0 = XDone SU_SRV_INVALID_RESULT_ERR"
    using result_race [of raced 0 1 5] by (auto simp: raced_def sample_conc_def xpc_of_def)
  moreover have "exec_result (world raced) = Inr 3"
    by (simp add: exec_result_def deref_def raced_def raced_session_def)
  ultimately show ?thesis
    using raced_reached sample_idle by (blast intro: rtranclp_trans)
qed

text \<open>Two callers in the wait when the first command has been answered.\<close>

definition both :: conc where
  "both = early\<lparr>world := sent_world\<lparr>
       nodes := [(''/l'', NFile (''log:# id'' @ [LF] @ ''# ls'' @ [LF])), (''/d/var/run/su-00007'', NSock)],
       acts := map (ASend 5) (exec_writes ''id'' @ exec_writes ''ls'')\<rparr>,
     owner := None, waiters := [0, 1], xs := [(''id'', XSleep), (''ls'', XSleep)]\<rparr>"

lemma both_reached: "(cstep sample_env)\<^sup>*\<^sup>* sample_conc both"
proof -
  have "play sample_env ([Do_handler 0, Do_call ''id'', Do_call ''ls''] @ replicate 10 (Do_exec 0)
      @ replicate 10 (Do_exec 1)) sample_conc = Some (both\<lparr>inp := []\<rparr>)"
    by code_simp
  moreover have "play sample_env (map Do_write the_answer) (both\<lparr>inp := []\<rparr>) = Some both"
    by code_simp
  ultimately show ?thesis by (metis play_steps rtranclp_trans)
qed

lemma both_answered: "answered sample_env [''uid=0'' @ [LF]] 3 [] both"
proof -
  have "reading [] (world both)" "log_ready (world both)" "log_fd (world both) = Some 3"
    by (simp_all add: reading_def log_ready_def log_fd_def node_at_def both_def sent_world_def sample_hproc_def
        sample_su_session_def)
  then show ?thesis
    unfolding answered_def using sample_output sample_env_ok sample_short
    by (simp add: both_def early_def sample_conc_def the_answer_def)
qed

theorem code_misdelivered_witness:
  "idle sample_conc \<and> (\<exists>c'. (cstep sample_env)\<^sup>*\<^sup>* sample_conc c' \<and> cmd_of c' 1 = ''ls''
     \<and> xpc_of c' 1 = XDone 3 \<and> xpc_of c' 0 = XSleep)"
proof -
  have "xpc_of both 0 = XSleep" "xpc_of both 1 = XSleep" "length (xs both) = 2" "waiters both = [0, 1]"
    "owner both = None" "su_session (world both) = Some (sample_su_session\<lparr>shell_cmd_exit_code := - 9996\<rparr>)"
    by (simp_all add: both_def xpc_of_def sent_world_def)
  then have "\<exists>c'. (cstep sample_env)\<^sup>*\<^sup>* both c' \<and> xpc_of c' 1 = XDone 3 \<and> xpc_of c' 0 = XSleep"
    using code_misdelivered [OF both_answered, of 0 1 "sample_su_session\<lparr>shell_cmd_exit_code := - 9996\<rparr>"]
    by (auto simp: sample_su_session_def)
  then obtain c' where c': "(cstep sample_env)\<^sup>*\<^sup>* both c'" "xpc_of c' 1 = XDone 3" "xpc_of c' 0 = XSleep" by blast
  have keep: "cmd_of c' 1 = cmd_of both 1"
    by (rule cmd_kept [OF c'(1)]) (simp add: both_def)
  have "cmd_of both 1 = ''ls''" by (simp add: both_def cmd_of_def)
  with keep c' both_reached sample_idle show ?thesis by (metis (no_types, lifting) rtranclp_trans)
qed

end
