(* ===== verification/Endings.thy ===== *)
theory Endings
  imports Races
begin

text \<open>
  How a session ends under the threads that still use it: the death of the shell and a
  successful exit free the mutex and the condition variable under the callers that wait, and
  an exit that fails never gives the mutex up.
\<close>

section \<open>After the session\<close>

text \<open>The session is gone, and so is the handler, while caller \<open>i\<close> is within the wait.\<close>

definition gone :: "nat \<Rightarrow> conc \<Rightarrow> bool" where
  "gone i c \<longleftrightarrow> su_session (world c) = None \<and> hp c = HDone
     \<and> i < length (xs c) \<and> xpc_of c i \<in> {XSleep, XReacq}"

lemma log_session [simp]:
  fixes w :: hproc
  shows "su_session (su_srv_log_printf fmt args w) = su_session w"
    "su_session (su_srv_log_cmdstr cmd w) = su_session w"
proof -
  show "su_session (su_srv_log_printf fmt args w) = su_session w"
    by (rule same_bound_session(1)) auto
  have "same_bound w (su_srv_log_cmdstr cmd w)"
    by (auto simp: same_bound_def su_srv_log_cmdstr_def c_fprintf_def c_fflush_def Let_def os_write_bound
        split: option.splits)
  then show "su_session (su_srv_log_cmdstr cmd w) = su_session w" by (rule same_bound_session(1))
qed

lemma no_session [simp]:
  assumes "su_session w = None"
  shows "deref w = Inl NullDeref"
  using assms by (simp add: deref_def)

lemma invalidate_unbound: "invalidate_current_session w = Inr w' \<Longrightarrow> su_session w = None \<Longrightarrow> su_session w' = None"
  by (auto simp: invalidate_current_session_def split: option.splits)

lemma set_xpc_beyond: "length (xs c) \<le> i \<Longrightarrow> set_xpc i pc c = c"
  by (simp add: set_xpc_def list_update_beyond)

lemma gone_wake: "gone i c \<Longrightarrow> gone i (wake n c)"
  by (cases "waiters c ! n < length (xs c)") (auto simp: gone_def wake_def set_xpc_beyond)

lemma gone_step:
  assumes "gone i c" and "cstep E c c'"
  shows "gone i c'"
  using assms(2)
proof cases
  case (Exec j)
  then show ?thesis
    using assms(1)
    by (cases "xpc_of c j")
      (auto simp: gone_def exec_step_def run_def acquire_def the_mutex_def exec_write_def exec_reset_def
        exec_result_def exec_no_session_def Let_def split: if_splits)
next
  case (Handler n)
  then show ?thesis using assms(1) by (simp add: gone_def handler_step_def)
next
  case (Exit n)
  then show ?thesis
    using assms(1)
    by (cases "ep c")
      (auto simp: gone_def exit_step_def run_def acquire_def the_mutex_def signal_ready_def Let_def
        dest: invalidate_unbound split: if_splits sum.splits)
next
  case (Call_exec cmd)
  then show ?thesis using assms(1) by (auto simp: gone_def xpc_of_call)
qed (use assms(1) gone_wake [OF assms(1)] in \<open>simp_all add: gone_def\<close>)

interpretation stranded: invariant_of "gone i" "cstep E" "gone i" for E i
  by standard (auto intro: gone_step)

lemma gone_never_returns:
  assumes "gone i c" and "(cstep E)\<^sup>*\<^sup>* c c'"
  shows "xpc_of c' i \<noteq> XDone r"
  using stranded.reach_inv [OF assms] by (auto simp: gone_def)


section \<open>Stopping the session\<close>

text \<open>A thread of the bound session that stops it: the shell is stopped, then all is freed.\<close>

definition complete :: "su_shell_session \<Rightarrow> bool" where
  "complete s \<longleftrightarrow> shell_sync_mutex s \<noteq> 0 \<and> shell_sync_ready s \<noteq> 0 \<and> handler_pth s \<noteq> 0 \<and> block s \<noteq> 0"

lemma stop_bound:
  assumes "bound fd w" and "su_session w = Some s"
  obtains w' where "shell_stop_process E s w =
      Inr (if last (polls E (shell_pid s) (tick w) 3) = shell_pid s then 0 else - 1, w')"
    and "su_session w' = Some s"
proof -
  have "calm w" "map_of (fds w) (afun_client_fd s) = Some FConn"
    using assms by (auto simp: bound_def)
  then obtain w' where w': "shell_stop_process E s w =
      Inr (if last (polls E (shell_pid s) (tick w) 3) = shell_pid s then 0 else - 1, w')" "waits w w'"
    using stop_process_run [OF _ assms(2), of E s] by metis
  have "su_session w' = su_session w" using waits_frame(4) [OF w'(2)] by (cases w; cases w') simp
  with w'(1) assms(2) that show thesis by simp
qed

lemma stop_code: "shell_stop_process E s w = Inr (r, w') \<Longrightarrow> r = 0 \<or> r = - 1"
  by (auto simp: shell_stop_process_def Let_def split_beta split: sum.splits if_splits)

lemma free_bound:
  assumes "su_session w = Some s" and "complete s"
  obtains w' where "invalidate_current_session w = Inr w'" and "su_session w' = None"
  using invalidate_run [OF assms(1)] assms(2) by (auto simp: complete_def)

lemma exec_step_others:
  assumes run: "exec_step i c = Some c'" and i: "i < length (xs c)" and j: "j \<noteq> i"
  shows "xpc_of c' j = xpc_of c j"
  by (cases "xpc_of c i")
    (use run i j in \<open>auto simp: exec_step_def run_def acquire_def Let_def split_beta split: if_splits sum.splits\<close>)

text \<open>C23: The death of the shell strands a caller: when the stream ends while it waits, the handler
  finds the mutex free, stops and frees the session without a signal, and in no state that is
  reachable from there has the call of \<open>su_srv_exec\<close> returned.\<close>

theorem shell_death_strands:
  assumes "fault c = None" and i: "i < length (xs c)" and "xpc_of c i = XSleep" and "waiters c = [i]"
    and "owner c = None" and "hp c = HRead" and "inp c = []" and "eof c"
    and "bound fd (world c)" and s: "su_session (world c) = Some s" and "complete s"
  shows "\<exists>c'. (cstep E)\<^sup>*\<^sup>* c c' \<and> fault c' = None \<and> hp c' = HDone \<and> su_session (world c') = None
    \<and> (\<forall>c'' r. (cstep E)\<^sup>*\<^sup>* c' c'' \<longrightarrow> xpc_of c'' i \<noteq> XDone r)"
proof -
  obtain r w1 where w1: "shell_stop_process E s (world c) = Inr (r, w1)" "su_session w1 = Some s"
    using stop_bound [OF assms(9) s] by metis
  obtain w2 where w2: "invalidate_current_session w1 = Inr w2" "su_session w2 = None"
    by (rule free_bound [OF w1(2) assms(11)])
  let ?w = "su_srv_log_printf ''Shell session invalidated, shell proces died !'' [] w2"
  let ?c = "c\<lparr>owner := Some THandler, hp := HDone, world := ?w\<rparr>"
  have "play E (replicate 5 (Do_handler 0)) c = Some ?c"
    using assms w1 w2
    by (simp add: numeral_eq_Suc wakes_def handler_step_def run_def deref_def the_mutex_def complete_def)
  then have "(cstep E)\<^sup>*\<^sup>* c ?c" by (rule play_steps)
  moreover have "gone i ?c" using i assms(3) w2(2) by (simp add: gone_def xpc_of_def)
  ultimately show ?thesis
    using assms(1) gone_never_returns [of i ?c E] w2(2) by (intro exI [of _ ?c]) auto
qed

text \<open>A caller that sleeps when no handler is left: only an exit or a spurious wake-up moves it.\<close>

fun ordinary :: "event \<Rightarrow> bool" where
  "ordinary Do_call_exit = False"
| "ordinary (Do_spurious n) = False"
| "ordinary _ = True"

lemma no_handler_sleeps:
  assumes "play E es c = Some c'" and "\<forall>e \<in> set es. ordinary e" and "hp c = HDone" and "ep c = EIdle"
    and "i < length (xs c)" and "xpc_of c i = XSleep"
  shows "xpc_of c' i = XSleep"
  using assms
proof (induction es arbitrary: c)
  case (Cons e es)
  then obtain d where d: "fire E e c = Some d" "play E es d = Some c'" by (auto split: option.splits)
  have "hp d = HDone \<and> ep d = EIdle \<and> i < length (xs d) \<and> xpc_of d i = XSleep"
  proof (cases e)
    case (Do_exec j)
    then have j: "exec_step j c = Some d" "j < length (xs c)" using d(1) by (auto split: if_splits)
    then have "i \<noteq> j" using Cons.prems(6) by (auto simp: exec_step_def)
    moreover have "hp d = hp c \<and> ep d = ep c \<and> length (xs d) = length (xs c)"
      using j(1) by (cases "xpc_of c j")
        (auto simp: exec_step_def run_def acquire_def Let_def split_beta split: if_splits sum.splits)
    ultimately show ?thesis using exec_step_others [OF j] Cons.prems by simp
  qed (use d(1) Cons.prems in \<open>auto simp: handler_step_def exit_step_def xpc_of_call split: if_splits\<close>)
  with Cons.IH [OF d(2)] Cons.prems(2) show ?case by simp
qed simp

text \<open>C24: A shell that dies while a caller is between its writes and its wait is not noticed: the handler finds
  the mutex taken twice and ends without stopping or freeing the session. The session still
  answers a ping, and the caller then waits for a signal that no thread is left to give: it
  sleeps in every continuation without an exit or a spurious wake-up.\<close>

theorem handler_gives_up:
  assumes "fault c = None" and i: "i < length (xs c)" and "xpc_of c i = XWait" and "owner c = Some (TExec i)"
    and "waiters c = []" and "hp c = HRead" and "inp c = []" and "eof c" and "ep c = EIdle" and "bound fd (world c)"
  shows "\<exists>c'. (cstep E)\<^sup>*\<^sup>* c c' \<and> fault c' = None \<and> hp c' = HDone \<and> su_srv_ping_shell_session (world c') = 1
    \<and> (\<forall>es c''. (\<forall>e \<in> set es. ordinary e) \<and> play E es c' = Some c'' \<longrightarrow> xpc_of c'' i = XSleep)"
proof -
  from assms(10) obtain s where s: "su_session (world c) = Some s" "shell_sync_mutex s \<noteq> 0" "shell_sync_ready s \<noteq> 0"
    by (auto simp: bound_def)
  let ?w = "(world c)\<lparr>signals := Suc (signals (world c))\<rparr>"
  let ?d = "c\<lparr>world := ?w, hp := HDone\<rparr>"
  let ?c = "set_xpc i XSleep (?d\<lparr>owner := None, waiters := [i]\<rparr>)"
  have "play E (replicate 4 (Do_handler 0)) c = Some ?d"
    using assms(1,4-8) s
    by (simp add: numeral_eq_Suc wakes_def handler_step_def run_def deref_def the_mutex_def signal_ready_def wake_def)
  moreover have "play E [Do_exec i] ?d = Some ?c"
    using assms(1,3,5) i s by (simp add: exec_step_def run_def deref_def the_mutex_def the_ready_def)
  ultimately have "(cstep E)\<^sup>*\<^sup>* c ?c" using play_steps rtranclp_trans by metis
  moreover have "xpc_of c'' i = XSleep" if "\<forall>e \<in> set es. ordinary e" "play E es ?c = Some c''" for es c''
    by (rule no_handler_sleeps [OF that(2,1)]) (use i assms(9) in simp_all)
  ultimately show ?thesis
    using assms(1) s by (intro exI [of _ ?c]) (auto simp: su_srv_ping_shell_session_def)
qed

text \<open>C25: An exit strands a caller too: called while a command is running it finds the mutex free, stops the
  shell, joins the handler, frees the session and returns 0; the handler's signal has taken
  the caller out of the condition variable, but it then waits for the mutex that exit holds
  until it is freed, and never returns.\<close>

theorem exit_strands:
  assumes "fault c = None" and i: "i < length (xs c)" and "xpc_of c i = XSleep" and ws: "waiters c = [i]"
    and "owner c = None" and "hp c = HRead" and "ep c = EIdle" and "inp c = []"
    and "bound fd (world c)" and s: "su_session (world c) = Some s" and "complete s"
    and join: "\<forall>t. fails E PthreadJoin t = 0" and reaped: "\<forall>t. last (polls E (shell_pid s) t 3) = shell_pid s"
  shows "\<exists>c'. (cstep E)\<^sup>*\<^sup>* c c' \<and> fault c' = None \<and> ep c' = EDone 0 \<and> xpc_of c' i = XReacq
    \<and> (\<forall>c'' r. (cstep E)\<^sup>*\<^sup>* c' c'' \<longrightarrow> xpc_of c'' i \<noteq> XDone r)"
proof -
  let ?w0 = "su_srv_log_printf ''SU shell sesion shutdown request'' [] (world c)"
  have "logs (world c) ?w0" using assms(9) by (simp add: log_calls_logs bound_def)
  then have b: "bound fd ?w0" using hframe_bound(1) [OF logs_hframe assms(9)] by blast
  have "su_session ?w0 = Some s" using s by simp
  then obtain w1 where w1: "shell_stop_process E s ?w0 = Inr (0, w1)" "su_session w1 = Some s"
    by (rule stop_bound [OF b, of s E]) (simp add: reaped)
  let ?w1 = "w1\<lparr>signals := Suc (signals w1)\<rparr>"
  let ?w1' = "?w1\<lparr>tick := Suc (tick w1)\<rparr>"
  have "su_session ?w1' = Some s" using w1(2) by simp
  then obtain w2 where w2: "invalidate_current_session ?w1' = Inr w2" "su_session w2 = None"
    by (rule free_bound [OF _ assms(11)])
  let ?w = "su_srv_log_printf ''SU shell session closed'' [] w2"
  let ?c1 = "c\<lparr>ep := EJoin, owner := Some TExit, world := w1\<rparr>"
  let ?c2 = "(set_xpc i XReacq (?c1\<lparr>eof := True, hp := HTry2, world := ?w1, waiters := []\<rparr>))\<lparr>hp := HDone\<rparr>"
  let ?c = "?c2\<lparr>ep := EDone 0, world := ?w\<rparr>"
  have "play E [Do_call_exit, Do_exit 0, Do_exit 0, Do_exit 0] c = Some ?c1"
    using assms(1-11) w1 
    by (simp add: wakes_def exit_step_def run_def deref_def the_mutex_def complete_def Let_def)
  note s1 = play_steps [OF this]
  have "play E [Do_end, Do_handler 0, Do_handler 0, Do_handler 0, Do_handler 0] ?c1 = Some ?c2"
    using assms(1-11) w1 
    by (simp add: wakes_def handler_step_def run_def deref_def the_mutex_def signal_ready_def complete_def
        wake_def)
  note s2 = play_steps [OF this]
  have "play E [Do_exit 0, Do_exit 0] ?c2 = Some ?c"
    using assms(1-11) w1 w2 join
    by (simp add: wakes_def exit_step_def run_def deref_def complete_def ask_def)
  note rtranclp_trans [OF s1 rtranclp_trans [OF s2 play_steps [OF this]]]
  moreover have "gone i ?c" using i w2(2) by (simp add: gone_def)
  ultimately show ?thesis
    using assms(1) i gone_never_returns [of i ?c E] by (intro exI [of _ ?c]) auto
qed


section \<open>A failed exit\<close>

definition jammed :: "conc \<Rightarrow> bool" where
  "jammed c \<longleftrightarrow> lock_ok c \<and> owner c = Some TExit \<and> (\<exists>r. ep c = EDone r)"

lemma jammed_free: "jammed c \<Longrightarrow> i < length (xs c) \<Longrightarrow> \<not> holds (xpc_of c i)"
  unfolding jammed_def using lock_owner by fastforce

lemma jammed_step:
  assumes "jammed c" and "cstep E c c'"
  shows "jammed c'"
proof -
  have l: "lock_ok c'" using assms lock_ok_step by (auto simp: jammed_def)
  show ?thesis
    using assms(2)
  proof cases
    case (Exec i)
    then have "\<not> holds (xpc_of c i)" using jammed_free [OF assms(1)] by simp
    with Exec assms(1) l show ?thesis
      by (cases "xpc_of c i") (auto simp: jammed_def exec_step_def run_def acquire_def Let_def split_beta
          split: sum.splits if_splits)
  next
    case (Handler n)
    then have "hp c \<notin> {HStop, HInval, HLog}" using assms(1) by (auto simp: jammed_def lock_ok_def)
    with Handler assms(1) l show ?thesis
      by (cases "hp c") (auto simp: jammed_def handler_step_def run_def split: sum.splits list.splits if_splits)
  next
    case (Exit n)
    then show ?thesis using assms(1) by (auto simp: jammed_def exit_step_def)
  next
    case (Spurious n)
    then show ?thesis using assms(1) l by (auto simp: jammed_def)
  qed (use assms(1) l in \<open>auto simp: jammed_def\<close>)
qed

interpretation jam: invariant_of jammed "cstep E" jammed for E
  by standard (auto intro: jammed_step)

text \<open>What an exit that ends before it has freed the session returns.\<close>

lemma exit_code_stop:
  assumes "ep c = EStop" and "exit_step E n c = Some c1" and "ep c1 = EDone r"
  shows "r = - 1"
proof -
  let ?w = "su_srv_log_printf ''SU shell sesion shutdown request'' [] (world c)"
  show ?thesis
  proof (cases "c_bind (deref ?w) (\<lambda>s. shell_stop_process E s ?w)")
    case (Inl f)
    with assms show ?thesis by (auto simp: exit_step_def run_def Let_def)
  next
    case (Inr x)
    then obtain s where "shell_stop_process E s ?w = Inr x" by (auto simp: c_bind_Inr)
    then have "fst x = 0 \<or> fst x = - 1" using stop_code [of E s ?w "fst x" "snd x"] by simp
    with assms Inr show ?thesis by (auto simp: exit_step_def run_def Let_def split_beta split: if_splits)
  qed
qed

lemma exit_code_join:
  assumes "ep c = EJoin" and "exit_step E n c = Some c1" and "ep c1 = EDone r"
  shows "r \<noteq> 0"
  using assms by (auto simp: exit_step_def ask_def Let_def split: sum.splits if_splits)

text \<open>C26: An exit that cannot stop the shell, or cannot join the handler, returns an error
  with the mutex locked: from then on the mutex is never released and no caller of \<open>su_srv_exec\<close> ever enters its critical section:
  one that waits for the mutex, or is woken, is blocked for good.\<close>

theorem exit_failure_locks:
  assumes "idle c0" and "(cstep E)\<^sup>*\<^sup>* c0 c" and "ep c = EStop \<or> ep c = EJoin"
    and "exit_step E n c = Some c1" and "ep c1 = EDone r" and "(cstep E)\<^sup>*\<^sup>* c1 c'"
  shows "r \<noteq> 0 \<and> (ep c = EStop \<longrightarrow> r = - 1) \<and> owner c' = Some TExit \<and> (\<forall>i < length (xs c'). \<not> holds (xpc_of c' i))
    \<and> (su_session (world c') \<noteq> None \<longrightarrow>
        (\<forall>i. xpc_of c' i = XLock \<or> xpc_of c' i = XReacq \<longrightarrow> exec_step i c' = None))"
proof -
  have l: "lock_ok c" by (rule lock.reach_inv [OF assms(1,2)])
  then have "owner c = Some TExit" using assms(3) by (auto simp: lock_ok_def)
  then have "owner c1 = Some TExit"
    using assms(3-5)
    by (auto simp: exit_step_def run_def ask_def Let_def split_beta split: sum.splits if_splits)
  with assms(5) lock_ok_exit [OF l assms(4)] have "jammed c1" by (simp add: jammed_def)
  then have j: "jammed c'" using jam.reach_inv assms(6) by blast
  have "r \<noteq> 0 \<and> (ep c = EStop \<longrightarrow> r = - 1)"
    using assms(3) exit_code_stop [OF _ assms(4,5)] exit_code_join [OF _ assms(4,5)] by auto
  moreover have "exec_step i c' = None"
    if "xpc_of c' i = XLock \<or> xpc_of c' i = XReacq" "su_session (world c') \<noteq> None" for i
    using that j by (auto simp: exec_step_def acquire_def jammed_def)
  ultimately show ?thesis using j jammed_free [OF j] by (simp add: jammed_def)
qed

section \<open>Before the session is bound\<close>

text \<open>The handler thread can run before the session is bound: the thread is created before
  \<open>_su_session\<close> is assigned, and its first read of the client socket goes through the null
  pointer when it comes before the assignment.\<close>

theorem handler_early_start:
  fixes w :: hproc
  assumes "create_handler_thread E s w = Inr (0, w')" and "su_session w = None" and "su_srv_log_fptr w' = Some f"
    and "world c = w'" and "hp c = HStart" and "fault c = None" and "waiters c = []"
  shows "\<exists>c'. (cstep E)\<^sup>*\<^sup>* c c' \<and> fault c' = Some NullDeref"
proof -
  have "su_session w' = None" using create_thread_frame [OF assms(1)] assms(2) by simp
  then have "play E [Do_handler 0, Do_handler 0] c =
      Some (c\<lparr>hp := HRead, hfd := cf_fd f, hoff := 0, fault := Some NullDeref\<rparr>)"
    using assms by (simp add: wakes_def handler_step_def handler_start_def run_def)
  from play_steps [OF this] show ?thesis by fastforce
qed


section \<open>Instances\<close>

text \<open>A caller of the sample session whose command is running, reached from idle.\<close>

definition running :: conc where
  "running = asleep\<lparr>inp := []\<rparr>"

lemma running_reached: "(cstep sample_env)\<^sup>*\<^sup>* sample_conc running"
proof -
  have "play sample_env ([Do_handler 0, Do_call ''id''] @ replicate 10 (Do_exec 0)) sample_conc = Some running"
    by code_simp
  then show ?thesis by (rule play_steps)
qed

definition running_session :: su_shell_session where
  "running_session = sample_su_session\<lparr>shell_cmd_exit_code := - 9996\<rparr>"

lemma running_state:
  "fault running = None" "length (xs running) = 1" "xpc_of running 0 = XSleep" "waiters running = [0]"
  "owner running = None" "hp running = HRead" "ep running = EIdle" "inp running = []"
  "su_session (world running) = Some running_session" "bound 5 (world running)"
  by (simp_all add: running_def asleep_def early_def sample_conc_def xpc_of_def running_session_def sent_world_def
      bound_def sample_hproc_def sample_su_session_def calm_def log_fd_def)

lemma running_complete: "complete running_session"
  by (simp add: complete_def running_session_def sample_su_session_def)

theorem shell_death_strands_witness:
  "idle sample_conc \<and> (\<exists>c'. (cstep sample_env)\<^sup>*\<^sup>* sample_conc c' \<and> su_session (world c') = None
     \<and> (\<forall>c'' r. (cstep sample_env)\<^sup>*\<^sup>* c' c'' \<longrightarrow> xpc_of c'' 0 \<noteq> XDone r))"
proof -
  let ?c = "running\<lparr>eof := True\<rparr>"
  have "cstep sample_env running ?c" by (rule cstep.Shell_ends) (simp add: running_state)
  with running_reached have "(cstep sample_env)\<^sup>*\<^sup>* sample_conc ?c" by simp
  moreover have "\<exists>c'. (cstep sample_env)\<^sup>*\<^sup>* ?c c' \<and> su_session (world c') = None
     \<and> (\<forall>c'' r. (cstep sample_env)\<^sup>*\<^sup>* c' c'' \<longrightarrow> xpc_of c'' 0 \<noteq> XDone r)"
    using shell_death_strands [of ?c 0 5 running_session sample_env] running_state running_complete by auto
  ultimately show ?thesis using sample_idle by (meson rtranclp_trans)
qed

theorem exit_strands_witness:
  "idle sample_conc \<and> (\<exists>c'. (cstep sample_env)\<^sup>*\<^sup>* sample_conc c' \<and> ep c' = EDone 0
     \<and> (\<forall>c'' r. (cstep sample_env)\<^sup>*\<^sup>* c' c'' \<longrightarrow> xpc_of c'' 0 \<noteq> XDone r))"
proof -
  have "shell_pid running_session = 77" by (simp add: running_session_def sample_su_session_def)
  then have "\<forall>t. last (polls sample_env (shell_pid running_session) t 3) = shell_pid running_session"
    by (simp add: numeral_3_eq_3 poll_def sample_env_def)
  then have "\<exists>c'. (cstep sample_env)\<^sup>*\<^sup>* running c' \<and> ep c' = EDone 0
     \<and> (\<forall>c'' r. (cstep sample_env)\<^sup>*\<^sup>* c' c'' \<longrightarrow> xpc_of c'' 0 \<noteq> XDone r)"
    using exit_strands [of running 0 5 running_session sample_env] running_state running_complete
    by (auto simp: sample_env_def)
  then show ?thesis using running_reached sample_idle by (meson rtranclp_trans)
qed

text \<open>A shell that is never reaped.\<close>

definition stuck_env :: env where
  "stuck_env = sample_env\<lparr>wait_ret := (\<lambda>p t. 0)\<rparr>"

definition stopping :: conc where
  "stopping = sample_conc\<lparr>ep := EStop, owner := Some TExit\<rparr>"

lemma stopping_fails: "\<exists>w. exit_step stuck_env 0 stopping = Some (stopping\<lparr>world := w, ep := EDone (- 1)\<rparr>)"
proof -
  let ?w0 = "su_srv_log_printf ''SU shell sesion shutdown request'' [] sample_hproc"
  have "logs sample_hproc ?w0" using sample_bound by (simp add: log_calls_logs bound_def)
  then have b: "bound 5 ?w0" using hframe_bound(1) [OF logs_hframe sample_bound] by blast
  have s0: "su_session ?w0 = Some sample_su_session" by simp (simp add: sample_hproc_def)
  have p: "polls stuck_env 77 t 3 = [0, 0, 0]" for t
    by (simp add: numeral_3_eq_3 poll_def stuck_env_def sample_env_def)
  have "shell_pid sample_su_session = 77" by (simp add: sample_su_session_def)
  with stop_bound [OF b s0, of stuck_env] p obtain w1
    where "shell_stop_process stuck_env sample_su_session ?w0 = Inr (- 1, w1)" by auto
  with s0 show ?thesis
    by (simp add: exit_step_def stopping_def run_def deref_def sample_conc_def Let_def)
qed

theorem exit_failure_locks_witness:
  "idle sample_conc \<and> (\<exists>c. (cstep stuck_env)\<^sup>*\<^sup>* sample_conc c \<and> ep c = EDone (- 1) \<and> owner c = Some TExit)"
proof -
  obtain w where st: "exit_step stuck_env 0 stopping = Some (stopping\<lparr>world := w, ep := EDone (- 1)\<rparr>)"
    using stopping_fails by blast
  have "play stuck_env [Do_call_exit, Do_exit 0, Do_exit 0] sample_conc = Some stopping" by code_simp
  note to = play_steps [OF this]
  have "fire stuck_env (Do_exit 0) stopping = Some (stopping\<lparr>world := w, ep := EDone (- 1)\<rparr>)"
    using st by (simp add: stopping_def wakes_def sample_conc_def)
  from fire_step [OF this] to
  have "(cstep stuck_env)\<^sup>*\<^sup>* sample_conc (stopping\<lparr>world := w, ep := EDone (- 1)\<rparr>)" by simp
  moreover have "owner (stopping\<lparr>world := w, ep := EDone (- 1)\<rparr>) = Some TExit"
    using exit_failure_locks [OF sample_idle to _ st, where r = "- 1"] by (simp add: stopping_def)
  ultimately show ?thesis using sample_idle by force
qed

theorem handler_early_start_witness:
  "\<exists>c'. (cstep sample_env)\<^sup>*\<^sup>* (sample_conc\<lparr>world :=
       sample_hproc\<lparr>su_session := None, tick := 1, threads := [(2, [17])]\<rparr>\<rparr>) c' \<and> fault c' = Some NullDeref"
proof -
  have "create_handler_thread sample_env sample_su_session (sample_hproc\<lparr>su_session := None\<rparr>) =
      Inr (0, sample_hproc\<lparr>su_session := None, tick := 1, threads := [(2, [17])]\<rparr>)"
    by code_simp
  from handler_early_start [OF this] show ?thesis by (simp add: sample_conc_def sample_hproc_def)
qed

theorem handler_gives_up_witness:
  "\<exists>c'. (cstep sample_env)\<^sup>*\<^sup>* sample_conc c' \<and> hp c' = HDone \<and> su_srv_ping_shell_session (world c') = 1"
proof -
  let ?c = "early\<lparr>inp := [], eof := True\<rparr>"
  have "play sample_env ([Do_handler 0, Do_call ''id''] @ replicate 9 (Do_exec 0) @ [Do_end]) sample_conc = Some ?c"
    by code_simp
  then have r: "(cstep sample_env)\<^sup>*\<^sup>* sample_conc ?c" by (rule play_steps)
  have "bound 5 (world ?c)"
    by (simp add: early_def bound_def sent_world_def sample_hproc_def sample_su_session_def calm_def log_fd_def)
  then obtain c' where "(cstep sample_env)\<^sup>*\<^sup>* ?c c'" "hp c' = HDone" "su_srv_ping_shell_session (world c') = 1"
    using handler_gives_up [of ?c 0 5 sample_env] by (auto simp: early_def sample_conc_def xpc_of_def)
  with r show ?thesis by (meson rtranclp_trans)
qed

end
