(* ===== verification/Safety.thy ===== *)
theory Safety
  imports Endings
begin

text \<open>
  What a session in use is safe from: until a thread begins to stop it, no interleaving of any
  number of callers makes one of its threads undefined, and none is deadlocked on the mutex.
\<close>

section \<open>What the callers leave to the handler\<close>

definition keeps :: "hproc \<Rightarrow> hproc \<Rightarrow> bool" where
  "keeps w w' \<longleftrightarrow> handler_cells w' = handler_cells w \<and> signals w' = signals w \<and> log_fd w' = log_fd w
     \<and> fds w' = fds w \<and> places w' = places w
     \<and> (\<forall>s. su_session w = Some s \<longrightarrow>
          (\<exists>s'. su_session w' = Some s' \<and> ptrs s' = ptrs s \<and> handler_buf s' = handler_buf s))"

lemma keeps_refl [simp]: "keeps w w"
  by (simp add: keeps_def)

lemma keeps_reading: "keeps w w' \<Longrightarrow> reading pre w \<Longrightarrow> reading pre w'"
  by (auto simp: keeps_def reading_def ptrs_def)

lemma log_more_fields:
  fixes w :: hproc
  assumes "log_os.more w' = log_os.more w"
  shows "su_session w' = su_session w" "handler_cells w' = handler_cells w" "signals w' = signals w"
  using assms by (cases w; cases w'; simp)+

lemma logs_keeps: "logs w w' \<Longrightarrow> keeps w w'"
  by (simp add: keeps_def logs_frame(1,8) logs_places(1) log_more_fields [OF logs_frame(7)])

lemma exec_write_keeps: "exec_write s w = Inr w' \<Longrightarrow> keeps w w'"
  by (auto simp: exec_write_def c_bind_Inr keeps_def more_fields [of "os_write fd s w" w for fd s] log_fd_def fds_write)

lemma exec_reset_keeps: "exec_reset w = Inr w' \<Longrightarrow> keeps w w'"
  by (auto simp: exec_reset_def c_bind_Inr keeps_def ptrs_def log_fd_def places_eq)


text \<open>One step of a caller: it is undefined in no state in which the session is bound.\<close>

lemma exec_step_safe:
  assumes b: "bound fd (world c)" and run: "exec_step i c = Some c'"
  shows "fault c' = fault c \<and> keeps (world c) (world c') \<and> hp c' = hp c \<and> hoff c' = hoff c"
proof -
  from b obtain s where s: "su_session (world c) = Some s" "shell_sync_mutex s \<noteq> 0" "shell_sync_ready s \<noteq> 0"
    and calm: "calm (world c)" by (auto simp: bound_def)
  have ok: "the_mutex c = Inr (shell_sync_mutex s)" "the_ready c = Inr (shell_sync_ready s)"
    "deref (world c) = Inr s"
    using s by (simp_all add: the_mutex_def the_ready_def deref_def)
  show ?thesis
  proof (cases "xpc_of c i")
    case XLog
    have "keeps (world c) (su_srv_log_cmdstr (cmd_of c i) (world c))"
      using log_calls_logs calm by (blast intro: logs_keeps)
    with XLog run show ?thesis by (auto simp: exec_step_def)
  next
    case (XSend k)
    obtain w where w: "exec_write (exec_writes (cmd_of c i) ! k) (world c) = Inr w"
      using ok by (simp add: exec_write_def)
    with XSend run exec_write_keeps [OF w] show ?thesis by (auto simp: exec_step_def run_def)
  next
    case XReset
    obtain w where w: "exec_reset (world c) = Inr w" using ok by (simp add: exec_reset_def)
    with XReset run exec_reset_keeps [OF w] show ?thesis by (auto simp: exec_step_def run_def)
  qed (use run s ok in \<open>auto simp: exec_step_def run_def acquire_def exec_result_def split: if_splits\<close>)
qed

section \<open>The state of the handler\<close>

text \<open>The log is open, and the handler has stored a started line of the length it counts.\<close>

definition sound :: "conc \<Rightarrow> bool" where
  "sound c \<longleftrightarrow> log_fd (world c) \<noteq> None \<and> fault c \<in> {None, Some SignedOverflow}
     \<and> (\<exists>pre. reading pre (world c) \<and> (hp c \<noteq> HStart \<longrightarrow> hoff c = int (length pre) \<and> hoff c \<le> INT_MAX))"

lemma sound_keeps:
  assumes "sound c" and "keeps (world c) (world c')" and "fault c' = fault c" and "hp c' = hp c" and "hoff c' = hoff c"
  shows "sound c'"
  using assms keeps_reading [OF assms(2)] by (auto simp: sound_def keeps_def)

lemma sound_same:
  "sound c \<Longrightarrow> world c' = world c \<Longrightarrow> fault c' = fault c \<Longrightarrow> hp c' = hp c \<Longrightarrow> hoff c' = hoff c \<Longrightarrow> sound c'"
  by (simp add: sound_def)

lemma sound_upd [simp]:
  "sound (c\<lparr>owner := q\<rparr>) = sound c" "sound (c\<lparr>ep := e\<rparr>) = sound c" "sound (wake n c) = sound c"
  "sound (c\<lparr>world := (world c)\<lparr>signals := k\<rparr>\<rparr>) = sound c"
  by (simp_all add: sound_def reading_def log_fd_def)

lemma sound_hp:
  "sound c \<Longrightarrow> hp c \<noteq> HStart \<Longrightarrow> sound (c\<lparr>hp := h\<rparr>)"
  by (auto simp: sound_def)

text \<open>A line of 2 GB overflows the count of the handler; any other byte is treated safely.\<close>

lemma handler_byte_safe:
  fixes w :: hproc
  assumes r: "reading pre w" and len: "int (length pre) \<le> INT_MAX" and E: "ptr_ok E" "reallocs E"
  shows "handler_byte E fd b (int (length pre)) w = Inl SignedOverflow
    \<or> (\<exists>pre' w'. handler_byte E fd b (int (length pre)) w = Inr (int (length pre'), w') \<and> reading pre' w'
        \<and> int (length pre') \<le> INT_MAX)"
proof (cases "int (length pre) + 32 \<le> INT_MAX")
  case True
  show ?thesis
  proof (cases rule: handler_byte_ok [OF r True E, of b fd, case_names inside line])
    case (inside w')
    with True show ?thesis by (intro disjI2 exI [of _ "pre @ [b]"]) simp
  next
    case (line w')
    then show ?thesis by (intro disjI2 exI [of _ "[]"]) (simp add: INT_MAX_def)
  qed
next
  case False
  have "c_size (sizeof_ptr E) (int (length pre)) = int (length pre)"
    by (intro ptr_ok_size(1) [OF E(1)]) (use len in simp_all)
  moreover have "int (sizeof_ptr E) - 2 < int (length pre)"
    using False E(1) by (simp add: INT_MAX_def ptr_ok_def)
  moreover obtain s where "su_session w = Some s" using r by (auto simp: reading_def)
  ultimately show ?thesis using False by (simp add: handler_byte_def grow_buf_def deref_def)
qed

lemma handler_step_sound:
  assumes h: "sound c" and b: "bound fd (world c)" and before: "before_stop c" and E: "ptr_ok E" "reallocs E"
    and run: "handler_step E n c = Some c'" and none: "fault c = None"
    and log: "hp c' \<noteq> HStart \<Longrightarrow> log_fd (world c') \<noteq> None"
  shows "sound c' \<or> \<not> before_stop c'"
proof -
  from h obtain pre where pre: "reading pre (world c)" "log_fd (world c) \<noteq> None"
    "hp c \<noteq> HStart \<Longrightarrow> hoff c = int (length pre) \<and> hoff c \<le> INT_MAX" by (auto simp: sound_def)
  from b obtain s where s: "su_session (world c) = Some s" "shell_sync_mutex s \<noteq> 0" "shell_sync_ready s \<noteq> 0"
    by (auto simp: bound_def)
  have ok: "the_mutex c = Inr (shell_sync_mutex s)" "deref (world c) = Inr s"
    "signal_ready (world c) = Inr ((world c)\<lparr>signals := Suc (signals (world c))\<rparr>)"
    using s by (simp_all add: the_mutex_def deref_def signal_ready_def)
  have nil: "reading [] (world c)" using pre(1) by (rule reading_LF)
  show ?thesis
  proof (cases "hp c")
    case HStart
    with run pre(2) nil none show ?thesis
      by (auto simp: handler_step_def handler_start_def run_def sound_def log_fd_def INT_MAX_def
          intro!: exI [of _ "[]"])
  next
    case HRead
    with pre have off: "hoff c = int (length pre)" "int (length pre) \<le> INT_MAX" by simp_all
    show ?thesis
    proof (cases "inp c")
      case Nil
      with HRead run ok h show ?thesis by (auto simp: handler_step_def sound_def split: if_splits)
    next
      case (Cons x xs)
      from handler_byte_safe [OF pre(1) off(2) E, of "hfd c" x] show ?thesis
      proof (elim disjE exE conjE)
        assume "handler_byte E (hfd c) x (int (length pre)) (world c) = Inl SignedOverflow"
        with HRead Cons run ok off h show ?thesis
          by (auto simp: handler_step_def run_def sound_def)
      next
        fix pre' w'
        assume "handler_byte E (hfd c) x (int (length pre)) (world c) = Inr (int (length pre'), w')"
          "reading pre' w'" "int (length pre') \<le> INT_MAX"
        with HRead Cons run ok off none log show ?thesis
          by (auto simp: handler_step_def run_def sound_def)
      qed
    qed
  next
    case HTry
    with run ok sound_hp [OF h, of HSignal] show ?thesis
      by (cases "owner c = None") (auto simp: handler_step_def run_def before_stop_def)
  next
    case HSignal
    have "sound (c\<lparr>world := (world c)\<lparr>signals := Suc (signals (world c))\<rparr>\<rparr>)" using h by simp
    from sound_hp [OF this, of HTry2] HSignal
    have "sound (c\<lparr>world := (world c)\<lparr>signals := Suc (signals (world c))\<rparr>, hp := HTry2\<rparr>)" by simp
    with HSignal run ok show ?thesis by (auto simp: handler_step_def run_def simp del: conc_commute)
  next
    case HTry2
    with run ok show ?thesis
      by (cases "owner c = None") (auto simp: handler_step_def run_def before_stop_def)
  qed (use before in \<open>simp_all add: before_stop_def\<close>)
qed

text \<open>A caller of exit, until it stops the session.\<close>

lemma exit_step_sound:
  assumes h: "sound c" and b: "bound fd (world c)" and before: "before_stop c"
    and run: "exit_step E n c = Some c'"
  shows "sound c' \<or> \<not> before_stop c'"
proof -
  from b obtain s where s: "su_session (world c) = Some s" "shell_sync_mutex s \<noteq> 0" "shell_sync_ready s \<noteq> 0"
    by (auto simp: bound_def)
  have ok: "the_mutex c = Inr (shell_sync_mutex s)" "deref (world c) = Inr s"
    "signal_ready (world c) = Inr ((world c)\<lparr>signals := Suc (signals (world c))\<rparr>)"
    using s by (simp_all add: the_mutex_def deref_def signal_ready_def)
  have sig: "sound (c\<lparr>world := (world c)\<lparr>signals := Suc (signals (world c))\<rparr>, ep := ELock\<rparr>)"
    using h by (simp del: conc_commute)
  note unf = exit_step_def run_def acquire_def before_stop_def
  show ?thesis
  proof (cases "ep c")
    case ETry
    with run ok h show ?thesis by (cases "owner c = None") (auto simp: unf)
  next
    case ESignal
    with run ok sig show ?thesis by (auto simp: exit_step_def run_def simp del: conc_commute)
  next
    case ELock
    with run s show ?thesis by (cases "owner c = None") (auto simp: unf)
  qed (use run s h before in \<open>auto simp: unf\<close>)
qed

section \<open>Safety in use\<close>

text \<open>Before a stop the mutex is free or a caller's.\<close>

lemma not_before:
  "hp c \<in> {HStop, HInval, HLog, HDone} \<Longrightarrow> \<not> before_stop c" "ep c \<in> {EStop, EJoin, EInval} \<Longrightarrow> \<not> before_stop c"
  "ep c = EDone r \<Longrightarrow> \<not> before_stop c"
  by (auto simp: before_stop_def)

lemma exec_owner_step:
  "exec_step i c = Some c' \<Longrightarrow> owner c' = owner c \<or> owner c' = None \<or> owner c' = Some (TExec i)"
  by (cases "xpc_of c i")
    (auto simp: exec_step_def run_def acquire_def Let_def split_beta split: sum.splits if_splits)

lemma stop_owner_step:
  "handler_step E n c = Some c' \<Longrightarrow> owner c' = owner c \<or> \<not> before_stop c'"
  "exit_step E n c = Some c' \<Longrightarrow> owner c' = owner c \<or> \<not> before_stop c'"
proof -
  show "handler_step E n c = Some c' \<Longrightarrow> owner c' = owner c \<or> \<not> before_stop c'"
    by (cases "hp c") (auto simp: handler_step_def run_def not_before
        split: sum.splits list.splits if_splits)
  show "exit_step E n c = Some c' \<Longrightarrow> owner c' = owner c \<or> \<not> before_stop c'"
    by (cases "ep c") (auto simp: exit_step_def run_def acquire_def ask_def Let_def not_before
        split: sum.splits if_splits)
qed

definition exec_owned :: "conc \<Rightarrow> bool" where
  "exec_owned c \<longleftrightarrow> owner c = None \<or> (\<exists>i. owner c = Some (TExec i))"

lemma exec_owned_step:
  assumes "exec_owned c" and "cstep E c c'" and "before_stop c'"
  shows "exec_owned c'"
  using assms(2)
proof cases
  case (Exec i)
  with assms(1) exec_owner_step [OF Exec(3)] show ?thesis by (auto simp: exec_owned_def)
next
  case (Handler n)
  with assms(1,3) stop_owner_step(1) [OF Handler(3)] show ?thesis by (simp add: exec_owned_def)
next
  case (Exit n)
  with assms(1,3) stop_owner_step(2) [OF Exit(3)] show ?thesis by (simp add: exec_owned_def)
qed (use assms(1) in \<open>simp_all add: exec_owned_def\<close>)

definition safe_inv :: "env \<Rightarrow> int \<Rightarrow> string list \<Rightarrow> conc \<Rightarrow> bool" where
  "safe_inv E fd base c \<longleftrightarrow> serial_inv fd base c \<and> (before_stop c \<longrightarrow> exec_owned c)
     \<and> (ptr_ok E \<and> reallocs E \<and> before_stop c \<longrightarrow> sound c)"

lemma safe_inv_step:
  assumes inv: "safe_inv E fd base c" and step: "cstep E c c'"
  shows "safe_inv E fd base c'"
proof -
  have s: "serial_inv fd base c" "serial_inv fd base c'"
    using inv serial_inv_step [OF _ step] by (simp_all add: safe_inv_def)
  have "sound c'" if E: "ptr_ok E" "reallocs E" and after: "before_stop c'"
  proof -
    have before: "before_stop c" using before_stop_back [OF step after] .
    with inv E have h: "sound c" by (simp add: safe_inv_def)
    have b: "bound fd (world c)" and l: "hp c' \<noteq> HStart \<Longrightarrow> log_fd (world c') \<noteq> None"
      using s before after by (auto simp: serial_inv_def serial_def)
    show ?thesis
      using step
    proof cases
      case (Exec i)
      note e = exec_step_safe [OF b Exec(3)]
      show ?thesis by (rule sound_keeps [OF h]) (use e in simp_all)
    next
      case (Handler n)
      with handler_step_sound [OF h b before E Handler(3,1) l] after show ?thesis by simp
    next
      case (Exit n)
      with exit_step_sound [OF h b before Exit(3)] after show ?thesis by simp
    qed (auto intro: sound_same [OF h])
  qed
  moreover have "exec_owned c'" if "before_stop c'"
    using exec_owned_step [OF _ step that] inv before_stop_back [OF step that] by (simp add: safe_inv_def)
  ultimately show ?thesis using s by (simp add: safe_inv_def)
qed

definition safe_start :: "int \<Rightarrow> string list \<Rightarrow> conc \<Rightarrow> bool" where
  "safe_start fd base c \<longleftrightarrow> serial_start fd base c \<and> log_fd (world c) \<noteq> None \<and> reading [] (world c)"

interpretation safe: invariant_of "safe_start fd base" "cstep E" "safe_inv E fd base" for E fd base
proof
  show "safe_inv E fd base c" if "safe_start fd base c" for c
    using that serial.start_inv [of fd base c]
    by (auto simp: safe_inv_def safe_start_def sound_def serial_start_def idle_def exec_owned_def)
  show "safe_inv E fd base c'" if "safe_inv E fd base c" "cstep E c c'" for c c'
    using that by (rule safe_inv_step)
qed


section \<open>Properties\<close>


section \<open>Instances\<close>


end
