(* ===== verification/Sequential.thy ===== *)
theory Sequential
  imports Safety
begin

text \<open>
  The use the library is made for: one command at a time, answered by a shell that waits for
  the caller. Whatever the interleaving of the caller and the handler, every call then returns
  the exit code of its own command.
\<close>

section \<open>The use\<close>

text \<open>The shell's answers: the lines of output and the exit code for the \<open>i\<close>-th call.\<close>

type_synonym answers = "nat \<Rightarrow> string list \<times> nat"

definition answer :: "answers \<Rightarrow> nat \<Rightarrow> string" where
  "answer A i = concat (fst (A i)) @ eoc_line (snd (A i))"

definition good_answers :: "answers \<Rightarrow> bool" where
  "good_answers A \<longleftrightarrow> (\<forall>i. (\<forall>l \<in> set (fst (A i)). output_line l) \<and> snd (A i) < 2 ^ 31
     \<and> short_lines [] (answer A i))"

text \<open>
  The steps, with the number of bytes of the current answer that were written. A command is
  submitted when every call has returned; the shell writes while the caller is in the wait.
\<close>

inductive polite :: "env \<Rightarrow> answers \<Rightarrow> conc \<times> nat \<Rightarrow> conc \<times> nat \<Rightarrow> bool" for E A where
  Exec: "fault c = None \<Longrightarrow> i < length (xs c) \<Longrightarrow> exec_step i c = Some c' \<Longrightarrow> polite E A (c, k) (c', k)"
| Handler: "fault c = None \<Longrightarrow> wakes n c \<Longrightarrow> handler_step E n c = Some c' \<Longrightarrow> polite E A (c, k) (c', k)"
| Call: "fault c = None \<Longrightarrow> \<forall>i < length (xs c). \<exists>r. xpc_of c i = XDone r \<Longrightarrow>
    polite E A (c, k) (c\<lparr>xs := xs c @ [(cmd, XStart)]\<rparr>, 0)"
| Answer: "fault c = None \<Longrightarrow> \<not> eof c \<Longrightarrow> xs c \<noteq> [] \<Longrightarrow> xpc_of c (length (xs c) - 1) = XSleep \<Longrightarrow>
    k < length (answer A (length (xs c) - 1)) \<Longrightarrow>
    polite E A (c, k) (c\<lparr>inp := inp c @ [answer A (length (xs c) - 1) ! k]\<rparr>, Suc k)"

text \<open>It is a use of the system of theory Conc.\<close>

lemma polite_cstep: "polite E A (c, k) (c', k') \<Longrightarrow> cstep E c c'"
  by (auto elim!: polite.cases simp: wakes_def intro: cstep.intros)

section \<open>Reading an answer\<close>

lemma loop_append:
  "handler_loop E fd (s @ t) off w = c_bind (handler_loop E fd s off w) (\<lambda>(off, w). handler_loop E fd t off w)"
proof (induction s arbitrary: off w)
  case Nil
  show ?case
  proof (cases "deref w")
    case (Inl f)
    then show ?thesis by (cases t) simp_all
  qed simp
next
  case (Cons b s)
  then show ?case
    by (cases "deref w"; cases "handler_byte E fd b off w") (simp_all add: split_beta)
qed

lemma split_lines_append:
  "split_lines pre (s @ t) = (case split_lines pre s of (ls, r) \<Rightarrow>
     case split_lines r t of (ms, q) \<Rightarrow> (ls @ ms, q))"
  by (induction pre s rule: split_lines.induct) (auto split: prod.splits)

lemma split_lines_ne:
  assumes "split_lines r t = ([], q)"
  shows "q = r @ t"
  using split_lines_concat [OF assms] by simp

lemma short_lines_prefix: "short_lines pre (s @ t) \<Longrightarrow> short_lines pre s"
proof -
  assume sh: "short_lines pre (s @ t)"
  obtain ls r where s: "split_lines pre s = (ls, r)" by force
  obtain ms q where t: "split_lines r t = (ms, q)" by force
  obtain l where l: "l \<in> set (q # ms)" "length r \<le> length l" using split_lines_longer [OF t] by blast
  have all: "\<forall>l \<in> set (q # ls @ ms). int (length l) + 32 \<le> INT_MAX"
    using sh s t by (simp add: short_lines_def split_lines_append)
  then have "int (length l) + 32 \<le> INT_MAX" using l(1) by auto
  then have "int (length r) + 32 \<le> INT_MAX" using l(2) by simp
  moreover have "\<forall>l \<in> set ls. int (length l) + 32 \<le> INT_MAX" using all by simp
  ultimately show ?thesis using s by (simp add: short_lines_def)
qed

lemma hview_signals: "v_signals (hview w) = signals w" "v_code (hview w) = shell_cmd_exit_code (the (su_session w))"
  by (simp_all add: hview_def Let_def)

text \<open>
  A piece of an answer, read from its start: nothing is signalled before the last byte, and
  with it the exit code is stored and one signal is raised.
\<close>

lemma answer_piece:
  assumes good: "good_answers A" and cut: "s @ t = answer A i" and r: "reading [] w"
    and E: "ptr_ok E" "reallocs E" "mallocs E" and log: "log_ready w" "log_fd w = Some fd"
  obtains off w' where "handler_loop E fd s 0 w = Inr (off, w')" and "log_ready w'" and "log_fd w' = Some fd"
    and "hframe w w'" and "t \<noteq> [] \<Longrightarrow> signals w' = signals w"
    and "t = [] \<Longrightarrow> off = 0 \<and> reading [] w' \<and> signals w' = Suc (signals w)
      \<and> exec_result w' = Inr (int (snd (A i)))"
proof -
  let ?outs = "fst (A i)" and ?n = "snd (A i)"
  from good have g: "\<forall>l \<in> set ?outs. output_line l" "?n < 2 ^ 31" "short_lines [] (answer A i)"
    by (simp_all add: good_answers_def)
  have all: "split_lines [] (s @ t) = (?outs @ [eoc_line ?n], [])"
    unfolding cut answer_def
    using split_lines_outputs [OF g(1), of "eoc_line ?n"] split_eoc_line [of "[]" ?n] by simp
  obtain ls q where s: "split_lines [] s = (ls, q)" by force
  obtain ms z where t: "split_lines q t = (ms, z)" by force
  have lm: "ls @ ms = ?outs @ [eoc_line ?n]" "z = []" using all s t by (simp_all add: split_lines_append)
  have short: "short_lines [] s" using g(3) short_lines_prefix cut by metis
  obtain w' where w': "handler_loop E fd s (int (length [])) w = Inr (int (length q), w')" "reading q w'"
    "hview w' = fold line_step ls (hview w)" "log_ready w'" "log_fd w' = Some fd"
    by (rule handler_loop_ok [OF r short E(1,2) s, of fd]) (use E(3) log in auto)
  have fr: "hframe w w'" by (rule handler_loop_frame [OF w'(1) log_fd_file [OF log]])
  have sess: "\<exists>v. su_session w' = Some v" using w'(2) by (auto simp: reading_def)
  show thesis
  proof (rule that [OF _ w'(4,5) fr])
    show "handler_loop E fd s 0 w = Inr (int (length q), w')" using w'(1) by simp
    show "signals w' = signals w" if "t \<noteq> []"
    proof -
      have "ms \<noteq> []" using t lm(2) that split_lines_ne [of q t z] by auto
      then have "\<exists>us. ?outs = ls @ us" using lm(1) by (metis butlast_append butlast_snoc)
      then have "\<forall>l \<in> set ls. output_line l" using g(1) by auto
      from arg_cong [OF w'(3) [unfolded output_lines_fold [OF this]], of v_signals]
      show ?thesis by (simp add: hview_signals)
    qed
    show "int (length q) = 0 \<and> reading [] w' \<and> signals w' = Suc (signals w) \<and> exec_result w' = Inr (int ?n)"
      if "t = []"
    proof -
      have z: "ms = []" "q = []" using t lm(2) that by simp_all
      then have "hview w' = line_step (eoc_line ?n) (fold line_step ?outs (hview w))"
        using w'(3) lm(1) by simp
      then have v: "hview w' = (fold line_step ?outs (hview w))\<lparr>v_code := int ?n,
          v_signals := Suc (v_signals (fold line_step ?outs (hview w)))\<rparr>"
        by (simp only: eoc_line_step [OF g(2)])
      have "v_signals (fold line_step ?outs (hview w)) = signals w"
        by (simp add: output_lines_fold [OF g(1)] hview_signals)
      with arg_cong [OF v, of v_signals] arg_cong [OF v, of v_code] sess w'(2) z show ?thesis
        by (auto simp: hview_signals exec_result_def deref_def)
    qed
  qed
qed


section \<open>The invariant\<close>

text \<open>The log is ready, and the handler writes to it once it has started.\<close>

definition logged :: "conc \<Rightarrow> bool" where
  "logged c \<longleftrightarrow> log_ready (world c) \<and> (hp c = HRead \<longrightarrow> log_fd (world c) = Some (hfd c))"

text \<open>Between two answers: nothing is left to read.\<close>

definition at_rest :: "conc \<Rightarrow> bool" where
  "at_rest c \<longleftrightarrow> inp c = [] \<and> reading [] (world c) \<and> (hp c = HRead \<longrightarrow> hoff c = 0)"

text \<open>Within the answer to call \<open>i\<close>, of which \<open>k\<close> bytes were written: the handler has read a piece
  of it from its start.\<close>

definition midway :: "env \<Rightarrow> answers \<Rightarrow> conc \<Rightarrow> nat \<Rightarrow> nat \<Rightarrow> bool" where
  "midway E A c k i \<longleftrightarrow> (\<exists>s w. s @ inp c = take k (answer A i) \<and> length s < length (answer A i)
     \<and> reading [] w \<and> log_ready w
     \<and> (if hp c = HRead then log_fd w = Some (hfd c) \<and> handler_loop E (hfd c) s 0 w = Inr (hoff c, world c)
        else s = [] \<and> world c = w))"

definition call_ok :: "env \<Rightarrow> answers \<Rightarrow> conc \<Rightarrow> nat \<Rightarrow> nat \<Rightarrow> bool" where
  "call_ok E A c k i \<longleftrightarrow>
     (case xpc_of c i of
        XSleep \<Rightarrow> midway E A c k i
      | XReacq \<Rightarrow> at_rest c \<and> exec_result (world c) = Inr (int (snd (A i)))
      | XUnlock \<Rightarrow> at_rest c \<and> exec_result (world c) = Inr (int (snd (A i)))
      | XRead \<Rightarrow> at_rest c \<and> exec_result (world c) = Inr (int (snd (A i)))
      | XDone r \<Rightarrow> at_rest c \<and> r = int (snd (A i))
      | _ \<Rightarrow> at_rest c \<and> k = 0)"

definition one_at_a_time :: "env \<Rightarrow> answers \<Rightarrow> int \<Rightarrow> conc \<times> nat \<Rightarrow> bool" where
  "one_at_a_time E A fd = (\<lambda>(c, k).
     fault c = None \<and> \<not> eof c \<and> hp c \<in> {HStart, HRead} \<and> ep c = EIdle \<and> lock_ok c \<and> exec_owned c
     \<and> bound fd (world c) \<and> logged c
     \<and> (\<forall>i. Suc i < length (xs c) \<longrightarrow> xpc_of c i = XDone (int (snd (A i))))
     \<and> (if xs c = [] then at_rest c else call_ok E A c k (length (xs c) - 1)))"

lemma distinct_single: "distinct ws \<Longrightarrow> set ws = {i} \<Longrightarrow> ws = [i]"
  by (cases ws; cases "tl ws") auto

text \<open>Only the last caller can be in the wait.\<close>

lemma last_waiter:
  assumes inv: "one_at_a_time E A fd (c, k)"
  shows "waiters c = (if xs c \<noteq> [] \<and> xpc_of c (length (xs c) - 1) = XSleep then [length (xs c) - 1] else [])"
proof -
  let ?i = "length (xs c) - 1"
  have "i = ?i \<and> xs c \<noteq> [] \<and> xpc_of c ?i = XSleep" if "i \<in> sleepers c" for i
  proof -
    have i: "i < length (xs c)" "xpc_of c i = XSleep" using that by (simp_all add: sleepers_def)
    with inv have "\<not> Suc i < length (xs c)" by (auto simp: one_at_a_time_def)
    with i have "i = ?i" by simp
    with i show ?thesis by auto
  qed
  then have "sleepers c = (if xs c \<noteq> [] \<and> xpc_of c ?i = XSleep then {?i} else {})"
    by (auto simp: sleepers_def)
  moreover have "sleepers c = set (waiters c)" "distinct (waiters c)"
    using inv by (simp_all add: one_at_a_time_def lock_ok_def)
  ultimately show ?thesis
    using distinct_single [of "waiters c" ?i] by (auto split: if_splits)
qed


section \<open>Every step\<close>

lemma logged_keeps:
  assumes "logged c" and "keeps (world c) (world c')" and "log_ready (world c')" and "hp c' = hp c" and "hfd c' = hfd c"
  shows "logged c'"
  using assms by (auto simp: logged_def keeps_def)

lemma at_rest_keeps:
  assumes "at_rest c" and "keeps (world c) (world c')" and "hp c' = hp c" and "hoff c' = hoff c" and "inp c' = inp c"
  shows "at_rest c'"
  using assms keeps_reading [OF assms(2)] by (simp add: at_rest_def)

text \<open>What the calls of a caller leave of the log.\<close>

lemma os_write_conn_ready:
  assumes "map_of (fds w) fd = Some FConn"
  shows "log_ready (os_write fd s w) = log_ready w"
  using assms by (simp add: os_write_def log_ready_def cong: option.case_cong fdesc.case_cong)

lemma log_calls_ready:
  assumes "log_ready w"
  shows "log_ready (su_srv_log_cmdstr s w)" and "log_ready (su_srv_log_printf fmt as w)"
  using log_do_raw [OF assms, of sample_env "LCmdstr s"] log_do_raw [OF assms, of sample_env "LPrintf fmt as"]
    log_writes(1) [OF assms] by simp_all

lemma exec_calls_ready:
  assumes "log_ready w"
  shows "bound fd w \<Longrightarrow> exec_write s w = Inr w' \<Longrightarrow> log_ready w'"
    and "exec_reset w = Inr w' \<Longrightarrow> log_ready w'"
proof -
  show "bound fd w \<Longrightarrow> exec_write s w = Inr w' \<Longrightarrow> log_ready w'"
    using assms by (auto simp: exec_write_def c_bind_Inr bound_def deref_def os_write_conn_ready)
  show "exec_reset w = Inr w' \<Longrightarrow> log_ready w'"
    using assms by (auto simp: exec_reset_def c_bind_Inr log_ready_def upd_def node_at_def
        cong: option.case_cong fdesc.case_cong node.case_cong)
qed

lemma exec_step_world:
  assumes b: "bound fd (world c)" and ready: "log_ready (world c)" and run: "exec_step i c = Some c'"
  shows "bound fd (world c') \<and> log_ready (world c')"
proof (cases "xpc_of c i")
  case XLog
  have "calm (world c)" using b by (simp add: bound_def)
  from hframe_bound(1) [OF logs_hframe [OF log_calls_logs(3) [OF this]] b] XLog run log_calls_ready(1) [OF ready]
  show ?thesis by (auto simp: exec_step_def)
next
  case (XSend k)
  with run b ready show ?thesis
    by (auto simp: exec_step_def run_def exec_write_bound(1) exec_calls_ready(1) split: sum.splits)
next
  case XReset
  with run b ready show ?thesis
    by (auto simp: exec_step_def run_def exec_reset_bound(1) exec_calls_ready(2) split: sum.splits)
qed (use run b ready log_calls_ready in \<open>auto simp: exec_step_def run_def acquire_def exec_no_session_def Let_def bound_def
      split: if_splits sum.splits\<close>)

lemma exec_step_rest:
  "exec_step i c = Some c' \<Longrightarrow> inp c' = inp c \<and> eof c' = eof c \<and> hfd c' = hfd c \<and> ep c' = ep c
    \<and> length (xs c') = length (xs c)"
  by (cases "xpc_of c i")
    (auto simp: exec_step_def run_def acquire_def Let_def split_beta split: if_splits sum.splits)

text \<open>The only step of the caller that changes what its call has been given is its last one.\<close>

lemma exec_step_call:
  assumes b: "bound fd (world c)" and l: "log_ready (world c)" and i: "i < length (xs c)"
    and run: "exec_step i c = Some c'" and lg: "hp c = HRead \<Longrightarrow> log_fd (world c) = Some (hfd c)"
    and ok: "call_ok E A c k i" and long: "answer A i \<noteq> []"
  shows "call_ok E A c' k i"
proof -
  from b obtain s where s: "su_session (world c) = Some s" "shell_sync_mutex s \<noteq> 0" "shell_sync_ready s \<noteq> 0"
    by (auto simp: bound_def)
  have m: "the_mutex c = Inr (shell_sync_mutex s)" "the_ready c = Inr (shell_sync_ready s)"
    "deref (world c) = Inr s"
    using s by (simp_all add: the_mutex_def the_ready_def deref_def)
  have rest: "at_rest c \<Longrightarrow> at_rest c'"
    using at_rest_keeps [of c c'] exec_step_safe [OF b run] exec_step_rest [OF run] by simp
  have pc: "xpc_of (set_xpc i p d) i = p" if "xs d = xs c" for p d using i that by simp
  show ?thesis
  proof (cases "xpc_of c i")
    case XWait
    with ok have r: "at_rest c" "k = 0" by (simp_all add: call_ok_def)
    have c': "c' = set_xpc i XSleep (c\<lparr>owner := None, waiters := waiters c @ [i]\<rparr>)"
      using XWait run m by (simp add: exec_step_def run_def)
    have "midway E A c' 0 i"
      using r(1) long l lg unfolding midway_def c' at_rest_def
      by (intro exI [of _ "[]"] exI [of _ "world c"]) (simp add: m)
    with r(2) i show ?thesis by (simp add: call_ok_def c')
  qed (use run ok i rest s m in \<open>auto simp: call_ok_def exec_step_def run_def acquire_def split: if_splits sum.splits\<close>)
qed

text \<open>A caller moves: only the last one can.\<close>

lemma answer_ne: "answer A i \<noteq> []"
  by (simp add: answer_def eoc_line_def)

lemma polite_exec:
  assumes inv: "one_at_a_time E A fd (c, k)" and i: "i < length (xs c)" and run: "exec_step i c = Some c'"
  shows "one_at_a_time E A fd (c', k)"
proof -
  from inv have f: "fault c = None" "\<not> eof c" "hp c \<in> {HStart, HRead}" "ep c = EIdle" "lock_ok c"
    "bound fd (world c)" "logged c" "\<And>j. Suc j < length (xs c) \<Longrightarrow> xpc_of c j = XDone (int (snd (A j)))"
    and call: "call_ok E A c k (length (xs c) - 1)"
    using i by (auto simp: one_at_a_time_def split: if_splits)
  have last: "i = length (xs c) - 1"
  proof (rule ccontr)
    assume "i \<noteq> length (xs c) - 1"
    with i f(8) [of i] run show False by (simp add: exec_step_def)
  qed
  note e = exec_step_safe [OF f(6) run] and r = exec_step_rest [OF run]
  have l: "lock_ok c'" by (rule lock_ok_exec [OF f(5) i run])
  have o: "exec_owned c'" using inv exec_owner_step [OF run] by (auto simp: one_at_a_time_def exec_owned_def)
  have w: "bound fd (world c')" "log_ready (world c')"
    using exec_step_world [OF f(6) _ run] f(7) by (simp_all add: logged_def)
  have lg: "logged c'"
    using f(7) e r w(2) by (auto simp: logged_def keeps_def)
  have "call_ok E A c' k i"
    by (rule exec_step_call [OF f(6) _ i run]) (use f(7) call last answer_ne in \<open>simp_all add: logged_def\<close>)
  moreover have "xpc_of c' j = XDone (int (snd (A j)))" if "Suc j < length (xs c)" for j
    using exec_step_others [OF run i, of j] f(8) [OF that] that last by simp
  ultimately show ?thesis
    using f e l o w lg r i last by (auto simp: one_at_a_time_def)
qed

text \<open>The handler takes up the next byte of an answer.\<close>

lemma polite_read:
  assumes good: "good_answers A" and E: "ptr_ok E" "reallocs E" "mallocs E" and h: "hp c = HRead"
    and m: "midway E A c k i" and inp: "inp c = b # bs"
  obtains off w' where "handler_byte E (hfd c) b (hoff c) (world c) = Inr (off, w')" and "log_ready w'"
    and "log_fd w' = Some (hfd c)" and "hframe (world c) w'"
    and "signals w' = signals (world c)
        \<and> midway E A (c\<lparr>world := w', hoff := off, inp := bs\<rparr>) k i
      \<or> signals w' = Suc (signals (world c)) \<and> bs = [] \<and> off = 0 \<and> reading [] w'
        \<and> exec_result w' = Inr (int (snd (A i)))"
proof -
  from m h obtain s w where s: "s @ b # bs = take k (answer A i)" "length s < length (answer A i)"
    "reading [] w" "log_ready w" "log_fd w = Some (hfd c)"
    "handler_loop E (hfd c) s 0 w = Inr (hoff c, world c)"
    by (auto simp: midway_def inp)
  define t where "t = drop (Suc (length s)) (answer A i)"
  have pre: "take (Suc (length s)) (answer A i) = s @ [b]"
  proof -
    have "Suc (length s) \<le> k" using arg_cong [OF s(1), of length] by simp
    then have "take (Suc (length s)) (answer A i) = take (Suc (length s)) (s @ b # bs)"
      unfolding s(1) by (simp add: min_def)
    then show ?thesis by simp
  qed
  have cut: "(s @ [b]) @ t = answer A i" by (simp add: t_def flip: pre)
  then have cut1: "s @ b # t = answer A i" by simp
  obtain off0 w0 where before: "handler_loop E (hfd c) s 0 w = Inr (off0, w0)" "log_ready w0" "log_fd w0 = Some (hfd c)"
    "signals w0 = signals w"
    by (rule answer_piece [OF good cut1 s(3) E s(4,5)]) simp
  have w0: "w0 = world c" using before(1) s(6) by simp
  obtain off w' where run: "handler_loop E (hfd c) (s @ [b]) 0 w = Inr (off, w')" "log_ready w'"
    "log_fd w' = Some (hfd c)" "hframe w w'" "t \<noteq> [] \<Longrightarrow> signals w' = signals w"
    "t = [] \<Longrightarrow> off = 0 \<and> reading [] w' \<and> signals w' = Suc (signals w) \<and> exec_result w' = Inr (int (snd (A i)))"
    by (rule answer_piece [OF good cut s(3) E s(4,5)]) (rule that; (assumption | simp))
  have byte: "handler_byte E (hfd c) b (hoff c) (world c) = Inr (off, w')"
    using run(1) s(6) by (auto simp: loop_append c_bind_Inr)
  have fr: "hframe (world c) w'"
    using handler_byte_frame [OF byte log_fd_file] before(2,3) by (simp add: w0)
  show thesis
  proof (rule that [OF byte run(2,3) fr])
    show "signals w' = signals (world c) \<and> midway E A (c\<lparr>world := w', hoff := off, inp := bs\<rparr>) k i
      \<or> signals w' = Suc (signals (world c)) \<and> bs = [] \<and> off = 0 \<and> reading [] w'
        \<and> exec_result w' = Inr (int (snd (A i)))"
    proof (cases "t = []")
      case True
      have "length (s @ b # bs) \<le> length (answer A i)" unfolding s(1) by simp
      then have "bs = []" using True by (simp flip: cut)
      with run(6) [OF True] before(4) w0 show ?thesis by simp
    next
      case False
      then have "length (s @ [b]) < length (answer A i)" by (simp flip: cut)
      then have "midway E A (c\<lparr>world := w', hoff := off, inp := bs\<rparr>) k i"
        unfolding midway_def using s h run(1) by (intro exI [of _ "s @ [b]"] exI [of _ w]) simp
      with run(5) [OF False] before(4) w0 show ?thesis by simp
    qed
  qed
qed

lemma polite_handler_start:
  assumes inv: "one_at_a_time E A fd (c, k)" and h: "hp c = HStart" and run: "handler_step E n c = Some c'"
  shows "one_at_a_time E A fd (c', k)"
proof -
  let ?i = "length (xs c) - 1"
  from inv have f: "fault c = None" "\<not> eof c" "ep c = EIdle" "lock_ok c" "exec_owned c"
    "bound fd (world c)" "logged c" "\<And>j. Suc j < length (xs c) \<Longrightarrow> xpc_of c j = XDone (int (snd (A j)))"
    and call: "if xs c = [] then at_rest c else call_ok E A c k ?i"
    by (simp_all add: one_at_a_time_def del: One_nat_def)
  have l: "lock_ok c'" by (rule lock_ok_handler [OF f(4) run])
  have d: "\<exists>s. deref (world c) = Inr s" using f(6) by (auto simp: bound_def deref_def)
  obtain p where p: "su_srv_log_fptr (world c) = Some p"
    using f(7) by (auto simp: logged_def log_ready_def split: option.splits)
  then have c': "c' = c\<lparr>hp := HRead, hfd := cf_fd p, hoff := 0\<rparr>"
    using h run by (simp add: handler_step_def run_def handler_start_def)
  have lg: "log_ready (world c)" "log_fd (world c) = Some (cf_fd p)"
    using f(7) p by (simp_all add: logged_def log_fd_def)
  have "if xs c' = [] then at_rest c' else call_ok E A c' k ?i"
    using call h d lg by (auto simp: c' at_rest_def call_ok_def midway_def split: xpc.splits
        intro!: exI [of _ "world c"])
  with f l lg show ?thesis
    by (cases "xs c = []") (simp_all add: one_at_a_time_def c' logged_def exec_owned_def del: One_nat_def)
qed

lemma polite_handler_read:
  assumes good: "good_answers A" and E: "ptr_ok E" "reallocs E" "mallocs E"
    and inv: "one_at_a_time E A fd (c, k)" and h: "hp c = HRead" and n: "wakes n c" and run: "handler_step E n c = Some c'"
  shows "one_at_a_time E A fd (c', k)"
proof -
  let ?i = "length (xs c) - 1"
  from inv have f: "fault c = None" "\<not> eof c" "ep c = EIdle" "lock_ok c" "exec_owned c"
    "bound fd (world c)" "logged c" "\<And>j. Suc j < length (xs c) \<Longrightarrow> xpc_of c j = XDone (int (snd (A j)))"
    and call: "if xs c = [] then at_rest c else call_ok E A c k ?i"
    by (simp_all add: one_at_a_time_def del: One_nat_def)
  have l: "lock_ok c'" by (rule lock_ok_handler [OF f(4) run])
  have d: "\<exists>s. deref (world c) = Inr s" using f(6) by (auto simp: bound_def deref_def)
  from h run d f(2) obtain b bs where inp: "inp c = b # bs"
    by (auto simp: handler_step_def split: list.splits if_splits)
  then have busy: "\<not> at_rest c" by (simp add: at_rest_def)
  with call have ne: "xs c \<noteq> []" by (auto split: if_splits)
  with call busy have pc: "xpc_of c ?i = XSleep" and m: "midway E A c k ?i"
    by (auto simp: call_ok_def split: xpc.splits)
  have ws: "waiters c = [?i]" using last_waiter [OF inv] ne pc by simp
  then have n0: "n = 0" using n by (simp add: wakes_def)
  obtain off w' where w': "handler_byte E (hfd c) b (hoff c) (world c) = Inr (off, w')" "log_ready w'"
    "log_fd w' = Some (hfd c)" "hframe (world c) w'"
    and alt: "signals w' = signals (world c) \<and> midway E A (c\<lparr>world := w', hoff := off, inp := bs\<rparr>) k ?i
      \<or> signals w' = Suc (signals (world c)) \<and> bs = [] \<and> off = 0 \<and> reading [] w'
        \<and> exec_result w' = Inr (int (snd (A ?i)))"
    by (rule polite_read [OF good E h m inp])
  have b: "bound fd w'" by (rule hframe_bound(1) [OF w'(4) f(6)])
  let ?c = "c\<lparr>world := w', hoff := off, inp := bs\<rparr>"
  have c': "c' = (if signals w' > signals (world c) then wake 0 else id) ?c"
    using run h d inp w'(1) n0 by (auto simp: handler_step_def run_def)
  have i: "?i < length (xs c)" using ne by simp
  from alt show ?thesis
  proof (elim disjE conjE)
    assume a: "signals w' = signals (world c)" "midway E A ?c k ?i"
    then have "c' = ?c" by (simp add: c')
    with a(2) pc ne f l b w' h show ?thesis by (simp add: one_at_a_time_def call_ok_def logged_def exec_owned_def)
  next
    assume a: "signals w' = Suc (signals (world c))" "bs = []" "off = 0" "reading [] w'"
      "exec_result w' = Inr (int (snd (A ?i)))"
    then have "c' = set_xpc ?i XReacq (?c\<lparr>waiters := []\<rparr>)" by (simp add: c' wake_def ws)
    with a i f l b w' h show ?thesis
      by (auto simp: one_at_a_time_def call_ok_def logged_def exec_owned_def at_rest_def)
  qed
qed

lemma polite_handler:
  assumes "good_answers A" and "ptr_ok E" "reallocs E" "mallocs E"
    and "one_at_a_time E A fd (c, k)" and "wakes n c" and "handler_step E n c = Some c'"
  shows "one_at_a_time E A fd (c', k)"
proof -
  have "hp c = HStart \<or> hp c = HRead" using assms(5) by (auto simp: one_at_a_time_def)
  then show ?thesis using polite_handler_start polite_handler_read assms by blast
qed

text \<open>The other two steps: the next command, and the next byte of the shell.\<close>

lemma call_ok_done:
  "call_ok E A c k i \<Longrightarrow> xpc_of c i = XDone r \<Longrightarrow> at_rest c \<and> r = int (snd (A i))"
  by (simp add: call_ok_def)

lemma polite_call:
  assumes inv: "one_at_a_time E A fd (c, k)" and all: "\<forall>i < length (xs c). \<exists>r. xpc_of c i = XDone r"
  shows "one_at_a_time E A fd (c\<lparr>xs := xs c @ [(cmd, XStart)]\<rparr>, 0)"
proof -
  let ?c = "c\<lparr>xs := xs c @ [(cmd, XStart)]\<rparr>"
  have rest: "at_rest c" and fin: "\<forall>i < length (xs c). xpc_of c i = XDone (int (snd (A i)))"
  proof -
    have l: "xpc_of c (length (xs c) - 1) = XDone (int (snd (A (length (xs c) - 1)))) \<and> at_rest c" if "xs c \<noteq> []"
    proof -
      from that have "length (xs c) - 1 < length (xs c)" by simp
      with all obtain r where r: "xpc_of c (length (xs c) - 1) = XDone r" by blast
      have "call_ok E A c k (length (xs c) - 1)" using inv that by (simp add: one_at_a_time_def del: One_nat_def)
      from call_ok_done [OF this r] r show ?thesis by simp
    qed
    with inv show "at_rest c" by (cases "xs c = []") (simp_all add: one_at_a_time_def)
    have "xpc_of c i = XDone (int (snd (A i)))" if "i < length (xs c)" for i
    proof (cases "Suc i < length (xs c)")
      case True
      with inv show ?thesis by (simp add: one_at_a_time_def)
    next
      case False
      with that have "i = length (xs c) - 1" "xs c \<noteq> []" by auto
      with l show ?thesis by simp
    qed
    then show "\<forall>i < length (xs c). xpc_of c i = XDone (int (snd (A i)))" by blast
  qed
  have "call_ok E A ?c 0 (length (xs c))" using rest by (simp add: call_ok_def at_rest_def xpc_of_call)
  with inv lock_ok_call [of c cmd] fin show ?thesis
    by (auto simp: one_at_a_time_def logged_def exec_owned_def xpc_of_call)
qed

lemma polite_answer:
  assumes inv: "one_at_a_time E A fd (c, k)" and ne: "xs c \<noteq> []"
    and pc: "xpc_of c (length (xs c) - 1) = XSleep" and k: "k < length (answer A (length (xs c) - 1))"
  shows "one_at_a_time E A fd (c\<lparr>inp := inp c @ [answer A (length (xs c) - 1) ! k]\<rparr>, Suc k)"
proof -
  have "midway E A c k (length (xs c) - 1)"
    using inv ne pc by (simp add: one_at_a_time_def call_ok_def del: One_nat_def)
  then have "midway E A (c\<lparr>inp := inp c @ [answer A (length (xs c) - 1) ! k]\<rparr>) (Suc k) (length (xs c) - 1)"
    using k by (cases "hp c = HRead")
      (simp_all add: midway_def take_Suc_conv_app_nth del: One_nat_def flip: append_assoc)
  with inv ne pc show ?thesis
    by (simp add: one_at_a_time_def call_ok_def logged_def exec_owned_def del: One_nat_def)
qed

lemma polite_step:
  assumes "good_answers A" and "ptr_ok E" and "reallocs E" and "mallocs E"
    and inv: "one_at_a_time E A fd s" and step: "polite E A s s'"
  shows "one_at_a_time E A fd s'"
  using step
proof cases
  case (Exec c i c' k)
  with inv polite_exec show ?thesis by simp
next
  case (Handler c n c' k)
  with assms polite_handler show ?thesis by simp
next
  case (Call c cmd k)
  with inv polite_call show ?thesis by simp
next
  case (Answer c k)
  with inv polite_answer show ?thesis by (simp del: One_nat_def)
qed

definition polite_start :: "env \<Rightarrow> answers \<Rightarrow> int \<Rightarrow> conc \<times> nat \<Rightarrow> bool" where
  "polite_start E A fd = (\<lambda>(c, k). idle c \<and> bound fd (world c) \<and> log_ready (world c) \<and> reading [] (world c)
     \<and> k = 0 \<and> good_answers A \<and> ptr_ok E \<and> reallocs E \<and> mallocs E)"

definition served :: "env \<Rightarrow> answers \<Rightarrow> int \<Rightarrow> conc \<times> nat \<Rightarrow> bool" where
  "served E A fd s \<longleftrightarrow> one_at_a_time E A fd s \<and> good_answers A \<and> ptr_ok E \<and> reallocs E \<and> mallocs E"

lemma served_start: "polite_start E A fd s \<Longrightarrow> served E A fd s"
  using lock.start_inv
  by (cases s) (simp add: served_def polite_start_def one_at_a_time_def idle_def at_rest_def logged_def exec_owned_def)

lemma served_step: "served E A fd s \<Longrightarrow> polite E A s s' \<Longrightarrow> served E A fd s'"
  using polite_step [of A E fd s s'] by (simp add: served_def)

section \<open>Every call returns\<close>

text \<open>What is left to do for the current call: the steps of the caller, the bytes that the shell
  has still to write, and those that the handler has still to read.\<close>

fun steps_left :: "xpc \<Rightarrow> nat" where
  "steps_left XStart = 14"
| "steps_left XEnter = 13"
| "steps_left XLock = 12"
| "steps_left XLog = 11"
| "steps_left (XSend n) = 7 + (3 - n)"
| "steps_left XReset = 6"
| "steps_left XWait = 5"
| "steps_left XSleep = 4"
| "steps_left XReacq = 3"
| "steps_left XUnlock = 2"
| "steps_left XRead = 1"
| "steps_left (XDone r) = 0"

definition work_left :: "answers \<Rightarrow> conc \<times> nat \<Rightarrow> nat" where
  "work_left A = (\<lambda>(c, k). (if hp c = HStart then 1 else 0) + length (inp c)
     + (if xs c = [] then 0
        else steps_left (xpc_of c (length (xs c) - 1)) + 2 * (length (answer A (length (xs c) - 1)) - k)))"

definition calls :: "conc \<times> nat \<Rightarrow> nat" where
  "calls s = length (xs (fst s))"

lemma exec_steps_left:
  assumes b: "bound fd (world c)" and i: "i < length (xs c)" and run: "exec_step i c = Some c'"
  shows "steps_left (xpc_of c' i) < steps_left (xpc_of c i)"
proof -
  from b obtain s where s: "su_session (world c) = Some s" "shell_sync_mutex s \<noteq> 0" "shell_sync_ready s \<noteq> 0"
    by (auto simp: bound_def)
  then have m: "the_mutex c = Inr (shell_sync_mutex s)" "the_ready c = Inr (shell_sync_ready s)"
    "deref (world c) = Inr s"
    by (simp_all add: the_mutex_def the_ready_def deref_def)
  show ?thesis
    by (cases "xpc_of c i")
      (use run i s m in \<open>auto simp: exec_step_def run_def acquire_def exec_write_def exec_reset_def exec_result_def
        split: if_splits\<close>)
qed

lemma wake_steps_left:
  assumes "lock_ok c"
  shows "steps_left (xpc_of (wake n c) j) \<le> steps_left (xpc_of c j)"
proof (cases "n < length (waiters c)")
  case True
  then have "waiters c ! n \<in> sleepers c" using assms by (simp add: lock_ok_def)
  then have "waiters c ! n < length (xs c)" "xpc_of c (waiters c ! n) = XSleep" by (simp_all add: sleepers_def)
  with True show ?thesis by (simp add: wake_def)
qed (simp add: wake_def)

lemma handler_step_work:
  assumes run: "handler_step E n c = Some c'" and h: "hp c \<in> {HStart, HRead}" and more: "\<not> eof c"
    and d: "deref (world c) = Inr s" and l: "lock_ok c" and ok: "fault c' = None"
  shows "steps_left (xpc_of c' j) \<le> steps_left (xpc_of c j)" and "length (xs c') = length (xs c)"
    and "(if hp c' = HStart then 1 else 0) + length (inp c') < (if hp c = HStart then 1 else 0) + length (inp c)"
proof -
  have w: "steps_left (xpc_of (wake n (c\<lparr>world := w, hoff := off, inp := bs\<rparr>)) j) \<le> steps_left (xpc_of c j)"
    for w off bs
    using wake_steps_left [of "c\<lparr>world := w, hoff := off, inp := bs\<rparr>" n j] l by simp
  show "steps_left (xpc_of c' j) \<le> steps_left (xpc_of c j)" "length (xs c') = length (xs c)"
    "(if hp c' = HStart then 1 else 0) + length (inp c') < (if hp c = HStart then 1 else 0) + length (inp c)"
    using run h more d ok w by (auto simp: handler_step_def run_def split: sum.splits list.splits if_splits)
qed

text \<open>Every step but a new call is progress.\<close>

lemma polite_work:
  assumes inv: "one_at_a_time E A fd s" and step: "polite E A s s'" and same: "calls s' = calls s"
    and inv': "one_at_a_time E A fd s'"
  shows "work_left A s' < work_left A s"
  using step
proof cases
  case (Exec c i c' k)
  with inv have b: "bound fd (world c)" by (simp add: one_at_a_time_def)
  have "i = length (xs c) - 1"
  proof (rule ccontr)
    assume "i \<noteq> length (xs c) - 1"
    with Exec inv have "xpc_of c i = XDone (int (snd (A i)))" by (simp add: one_at_a_time_def)
    with Exec show False by (simp add: exec_step_def)
  qed
  with exec_steps_left [OF b Exec(4,5)] exec_step_rest [OF Exec(5)] exec_step_safe [OF b Exec(5)] Exec(1,2,4)
  show ?thesis by (auto simp: work_left_def)
next
  case (Handler c n c' k)
  from inv Handler(1) have i: "hp c \<in> {HStart, HRead}" "\<not> eof c" "lock_ok c" "bound fd (world c)"
    by (simp_all add: one_at_a_time_def)
  then obtain s where d: "deref (world c) = Inr s" by (auto simp: bound_def deref_def)
  have "fault c' = None" using inv' Handler(2) by (simp add: one_at_a_time_def)
  note w = handler_step_work [OF Handler(5) i(1,2) d i(3) this]
  from w(1) [of "length (xs c) - 1"] w(2,3) Handler(1,2) show ?thesis
    by (cases "xs c = []") (auto simp: work_left_def simp del: One_nat_def)
next
  case (Call c cmd k)
  with same show ?thesis by (simp add: calls_def)
next
  case (Answer c k)
  then show ?thesis by (simp add: work_left_def del: One_nat_def)
qed

text \<open>The mutex is free unless the last call holds it.\<close>

lemma polite_free:
  assumes inv: "one_at_a_time E A fd (c, k)" and i: "Suc i = length (xs c)" and no: "\<not> holds (xpc_of c i)"
  shows "owner c = None"
proof (rule ccontr)
  from inv have f: "lock_ok c" "exec_owned c" "\<And>j. Suc j < length (xs c) \<Longrightarrow> xpc_of c j = XDone (int (snd (A j)))"
    by (simp_all add: one_at_a_time_def)
  assume "owner c \<noteq> None"
  with f(2) obtain j where "owner c = Some (TExec j)" by (auto simp: exec_owned_def)
  with f(1) have j: "j < length (xs c)" "holds (xpc_of c j)" by (auto simp: lock_ok_def holders_def)
  with no have "j \<noteq> i" by blast
  with j(1) i have "Suc j < length (xs c)" by simp
  with f(3) j(2) show False by simp
qed

text \<open>While the caller sleeps the handler or the shell can move.\<close>

lemma polite_serves:
  assumes inv: "one_at_a_time E A fd (c, k)" and i: "Suc i = length (xs c)" and pc: "xpc_of c i = XSleep"
    and good: "good_answers A" and E: "ptr_ok E" "reallocs E" "mallocs E"
  shows "\<exists>s'. polite E A (c, k) s' \<and> calls s' = calls (c, k)"
proof -
  have last: "i = length (xs c) - 1" "xs c \<noteq> []" using i by auto
  from inv last have f: "fault c = None" "\<not> eof c" "hp c \<in> {HStart, HRead}" "bound fd (world c)"
    and m: "midway E A c k i"
    using pc by (auto simp: one_at_a_time_def call_ok_def)
  have sess: "su_session (world c) \<noteq> None" using f(4) by (auto simp: bound_def)
  have n: "wakes 0 c" by (auto simp: wakes_def)
  have hand: "\<exists>s'. polite E A (c, k) s' \<and> calls s' = calls (c, k)"
    if run: "handler_step E 0 c = Some c'" and ok: "length (xs c') = length (xs c)" for c'
    using polite.Handler [OF f(1) n run] ok by (force simp: calls_def)
  consider "hp c = HStart" | "hp c = HRead" "inp c \<noteq> []" | "hp c = HRead" "inp c = []" using f(3) by auto
  then show ?thesis
  proof cases
    case 1
    then have "\<exists>c'. handler_step E 0 c = Some c' \<and> length (xs c') = length (xs c)"
      by (simp add: handler_step_def run_def split: sum.splits)
    with hand show ?thesis by blast
  next
    case 2
    then obtain b bs where inp: "inp c = b # bs" by (cases "inp c") auto
    obtain off w' where "handler_byte E (hfd c) b (hoff c) (world c) = Inr (off, w')"
      by (rule polite_read [OF good E 2(1) m inp])
    with sess 2(1) inp have "\<exists>c'. handler_step E 0 c = Some c' \<and> length (xs c') = length (xs c)"
      by (auto simp: handler_step_def run_def deref_def)
    with hand show ?thesis by blast
  next
    case 3
    with m have "length (take k (answer A i)) < length (answer A i)" by (auto simp: midway_def)
    then have "k < length (answer A (length (xs c) - 1))" using last(1) by simp
    from polite.Answer [OF f(1,2) _ _ this] pc last show ?thesis
      by (force simp: calls_def simp del: One_nat_def)
  qed
qed

text \<open>There is a step as long as a call has not returned.\<close>

lemma polite_moves:
  assumes inv: "one_at_a_time E A fd (c, k)" and i: "i < length (xs c)" and pend: "\<forall>r. xpc_of c i \<noteq> XDone r"
    and good: "good_answers A" and E: "ptr_ok E" "reallocs E" "mallocs E"
  shows "\<exists>s'. polite E A (c, k) s' \<and> calls s' = calls (c, k)"
proof -
  from inv have f: "fault c = None" "bound fd (world c)"
    "\<And>j. Suc j < length (xs c) \<Longrightarrow> xpc_of c j = XDone (int (snd (A j)))"
    by (simp_all add: one_at_a_time_def)
  have last: "Suc i = length (xs c)" using f(3) [of i] i pend by (cases "Suc i < length (xs c)") auto
  have sess: "su_session (world c) \<noteq> None" using f(2) by (auto simp: bound_def)
  note free = polite_free [OF inv last]
  have exec: "\<exists>s'. polite E A (c, k) s' \<and> calls s' = calls (c, k)" if may: "exec_step i c \<noteq> None"
  proof -
    from may obtain c' where run: "exec_step i c = Some c'" by blast
    from polite.Exec [OF f(1) i run] exec_step_rest [OF run] show ?thesis by (force simp: calls_def)
  qed
  show ?thesis
  proof (cases "xpc_of c i")
    case XSleep
    from polite_serves [OF inv last this good E] show ?thesis .
  next
    case XLock
    with free sess show ?thesis by (intro exec) (simp add: exec_step_def acquire_def)
  next
    case XReacq
    with free sess show ?thesis by (intro exec) (simp add: exec_step_def acquire_def)
  next
    case (XDone r)
    with pend show ?thesis by blast
  qed (rule exec, simp add: exec_step_def Let_def split_beta)+
qed

definition all_returned :: "conc \<Rightarrow> bool" where
  "all_returned c \<longleftrightarrow> (\<forall>i < length (xs c). \<exists>r. xpc_of c i = XDone r)"

interpretation returns: ending "polite_start E A fd" "\<lambda>s s'. polite E A s s' \<and> calls s' = calls s"
    "served E A fd" "measure (work_left A)" "\<lambda>s. all_returned (fst s)" for E A fd
proof
  fix s s'
  show "polite_start E A fd s \<Longrightarrow> served E A fd s" by (rule served_start)
  show "served E A fd s \<Longrightarrow> polite E A s s' \<and> calls s' = calls s \<Longrightarrow> served E A fd s'"
    using served_step by blast
  show "wf (measure (work_left A))" by simp
  show "served E A fd s \<Longrightarrow> polite E A s s' \<and> calls s' = calls s \<Longrightarrow> (s', s) \<in> measure (work_left A)"
    using polite_work [of E A fd s s'] served_step [of E A fd s s'] by (simp add: served_def)
  show "\<exists>s'. polite E A s s' \<and> calls s' = calls s" if "served E A fd s" "\<not> all_returned (fst s)"
  proof -
    from that(2) obtain i where "i < length (xs (fst s))" "\<forall>r. xpc_of (fst s) i \<noteq> XDone r"
      by (auto simp: all_returned_def)
    with polite_moves [of E A fd "fst s" "snd s" i] that(1) show ?thesis by (auto simp: served_def)
  qed
qed

section \<open>The specification\<close>

text \<open>
  What the calls are to their callers: one after the other, each a single step from submitted to
  its own result. The state is the list of the results, \<open>None\<close> for a call under way.
\<close>

inductive atomic :: "answers \<Rightarrow> int option list \<Rightarrow> int option list \<Rightarrow> bool" for A where
  Submit: "None \<notin> set rs \<Longrightarrow> atomic A rs (rs @ [None])"
| Return: "None \<notin> set rs \<Longrightarrow> atomic A (rs @ [None]) (rs @ [Some (int (snd (A (length rs))))])"

fun result_of :: "xpc \<Rightarrow> int option" where
  "result_of (XDone r) = Some r"
| "result_of _ = None"

definition results :: "conc \<Rightarrow> int option list" where
  "results c = map (\<lambda>x. result_of (snd x)) (xs c)"

lemma result_of_iff: "result_of p = Some r \<longleftrightarrow> p = XDone r" "result_of p = None \<longleftrightarrow> steps_left p \<noteq> 0"
  by (cases p; auto)+

lemma results_nth: "i < length (xs c) \<Longrightarrow> results c ! i = result_of (xpc_of c i)" "length (results c) = length (xs c)"
  by (simp_all add: results_def xpc_of_def)

lemma one_at_a_time_done:
  assumes inv: "one_at_a_time E A fd (c, k)" and i: "i < length (xs c)" and r: "xpc_of c i = XDone r"
  shows "r = int (snd (A i))"
proof (cases "Suc i < length (xs c)")
  case True
  with inv r show ?thesis by (simp add: one_at_a_time_def)
next
  case False
  with i have l: "i = length (xs c) - 1" "xs c \<noteq> []" by auto
  with inv have "call_ok E A c k i" by (simp add: one_at_a_time_def)
  from call_ok_done [OF this r] show ?thesis ..
qed

text \<open>The results of a state in use: all calls but the last have returned their own code.\<close>

definition codes :: "answers \<Rightarrow> nat \<Rightarrow> int option list" where
  "codes A n = map (\<lambda>i. Some (int (snd (A i)))) [0..<n]"

lemma codes_simps [simp]: "length (codes A n) = n" "None \<notin> set (codes A n)"
  "codes A (Suc n) = codes A n @ [Some (int (snd (A n)))]"
  by (auto simp: codes_def)

lemma results_shape:
  assumes inv: "one_at_a_time E A fd (c, k)"
  shows "results c = codes A (length (xs c)) \<or> xs c \<noteq> [] \<and> results c = codes A (length (xs c) - 1) @ [None]"
proof (cases "xs c = []")
  case True
  then show ?thesis by (simp add: results_def codes_def)
next
  case False
  then obtain n where n: "length (xs c) = Suc n" by (cases "xs c") auto
  have early: "results c ! i = Some (int (snd (A i)))" if "i < n" for i
    using inv that n by (simp add: results_nth one_at_a_time_def)
  have "results c = codes A n @ [results c ! n]"
    by (rule nth_equalityI) (auto simp: results_nth(2) n less_Suc_eq nth_append codes_def early)
  moreover have "results c ! n = None \<or> results c ! n = Some (int (snd (A n)))"
    using one_at_a_time_done [OF inv, of n] n
    by (cases "result_of (xpc_of c n)") (auto simp: results_nth result_of_iff(1))
  ultimately show ?thesis using n False by auto
qed

text \<open>A call that has returned stays so.\<close>

lemma polite_done:
  assumes inv: "one_at_a_time E A fd (c, k)" and inv': "one_at_a_time E A fd (c', k')"
    and step: "polite E A (c, k) (c', k')" and i: "i < length (xs c)" and r: "xpc_of c i = XDone r"
  shows "\<exists>r. xpc_of c' i = XDone r"
  using step
proof cases
  case (Exec j)
  with r have "i \<noteq> j" by (auto simp: exec_step_def)
  with exec_step_others [OF Exec(4,3)] r show ?thesis by auto
next
  case (Handler n)
  from inv have h: "hp c \<in> {HStart, HRead}" "\<not> eof c" "lock_ok c" "bound fd (world c)"
    by (simp_all add: one_at_a_time_def)
  then obtain s where d: "deref (world c) = Inr s" by (auto simp: bound_def deref_def)
  have "fault c' = None" using inv' by (simp add: one_at_a_time_def)
  from handler_step_work(1) [OF Handler(4) h(1,2) d h(3) this, of i] r
  have "steps_left (xpc_of c' i) = 0" by simp
  then show ?thesis using result_of_iff(2) [of "xpc_of c' i"] result_of_iff(1) [of "xpc_of c' i"] by auto
next
  case (Call cmd)
  with i r show ?thesis by (simp add: xpc_of_call)
next
  case Answer
  with r show ?thesis by simp
qed

lemma polite_results:
  assumes inv: "one_at_a_time E A fd (c, k)" and inv': "one_at_a_time E A fd (c', k')"
    and step: "polite E A (c, k) (c', k')"
  shows "results c' = results c \<or> atomic A (results c) (results c')"
proof (cases "length (xs c') = length (xs c)")
  case True
  have False if d: "results c = codes A (length (xs c))" "xs c \<noteq> []" "results c' = codes A (length (xs c) - 1) @ [None]"
  proof -
    let ?i = "length (xs c) - 1"
    have i: "?i < length (xs c)" using d(2) by simp
    then have "result_of (xpc_of c ?i) = Some (int (snd (A ?i)))"
      using results_nth(1) [OF i] d(1) by (simp add: codes_def)
    then obtain r where "xpc_of c' ?i = XDone r"
      using polite_done [OF inv inv' step i] result_of_iff(1) by blast
    then have "results c' ! ?i = Some r" using results_nth(1) [of ?i c'] i True by simp
    with d(3) show False by (simp add: nth_append)
  qed
  moreover have "atomic A (codes A (length (xs c) - 1) @ [None]) (codes A (length (xs c)))" if ne: "xs c \<noteq> []"
  proof -
    obtain n where "length (xs c) = Suc n" using ne by (cases "xs c") auto
    with atomic.Return [of "codes A n" A] show ?thesis by simp
  qed
  ultimately show ?thesis
    using results_shape [OF inv] results_shape [OF inv'] True by (metis length_0_conv)
next
  case False
  show ?thesis
    using step
  proof cases
    case (Exec i)
    with False exec_step_rest [OF Exec(4)] show ?thesis by simp
  next
    case (Handler n)
    from inv have h: "hp c \<in> {HStart, HRead}" "\<not> eof c" "lock_ok c" "bound fd (world c)"
      by (simp_all add: one_at_a_time_def)
    then obtain s where d: "deref (world c) = Inr s" by (auto simp: bound_def deref_def)
    have "fault c' = None" using inv' by (simp add: one_at_a_time_def)
    from handler_step_work(2) [OF Handler(4) h(1,2) d h(3) this] False show ?thesis by simp
  next
    case (Call cmd)
    have "None \<notin> set (results c)"
      using Call(4) by (force simp: in_set_conv_nth results_nth)
    moreover have "results c' = results c @ [None]" using Call(1) by (simp add: results_def)
    ultimately show ?thesis by (simp add: atomic.Submit)
  next
    case Answer
    with False show ?thesis by simp
  qed
qed

interpretation atomic: simulation "polite_start E A fd" "polite E A" "served E A fd" "\<lambda>s. results (fst s)" "atomic A"
  for E A fd
proof
  show "served E A fd s" if "polite_start E A fd s" for s using that by (rule served_start)
  show "served E A fd s'" if "served E A fd s" "polite E A s s'" for s s' using that by (rule served_step)
  show "results (fst s') = results (fst s) \<or> atomic A (results (fst s)) (results (fst s'))"
    if "served E A fd s" "polite E A s s'" for s s'
  proof -
    obtain c k c' k' where s: "s = (c, k)" "s' = (c', k')" by (cases s; cases s')
    have inv: "one_at_a_time E A fd (c, k)" "one_at_a_time E A fd (c', k')" and step: "polite E A (c, k) (c', k')"
      using that served_step [OF that] by (simp_all add: served_def s)
    show ?thesis using polite_results [OF inv step] by (simp add: s)
  qed
qed

section \<open>Properties\<close>



section \<open>Instances\<close>

text \<open>A run of the use: a command of the sample session, its answer and its result.\<close>

definition sample_answers :: answers where
  "sample_answers i = ([''uid=0'' @ [LF]], 3)"

lemma sample_answer: "answer sample_answers i = the_answer" "good_answers sample_answers"
  using sample_output sample_short(1)
  by (simp_all add: good_answers_def answer_def sample_answers_def the_answer_def)

lemma play_polite:
  assumes "\<forall>e \<in> set es. \<exists>n. e = Do_exec n \<or> e = Do_handler n" and "play E es c = Some c'"
  shows "(polite E A)\<^sup>*\<^sup>* (c, k) (c', k)"
  using assms
proof (induction es arbitrary: c)
  case (Cons e es)
  then obtain d where d: "fire E e c = Some d" "play E es d = Some c'" by (auto split: option.splits)
  have "polite E A (c, k) (d, k)"
    using Cons.prems(1) d(1) by (auto intro: polite.Exec polite.Handler split: if_splits)
  moreover have "(polite E A)\<^sup>*\<^sup>* (d, k) (c', k)" using Cons d(2) by simp
  ultimately show ?case by (rule converse_rtranclp_into_rtranclp)
qed simp

lemma answer_polite:
  assumes c: "fault c = None" "\<not> eof c" "xs c \<noteq> []" "xpc_of c (length (xs c) - 1) = XSleep" "inp c = []"
    and k: "k \<le> length (answer A (length (xs c) - 1))"
  shows "(polite E A)\<^sup>*\<^sup>* (c, 0) (c\<lparr>inp := take k (answer A (length (xs c) - 1))\<rparr>, k)"
  using k
proof (induction k)
  case 0
  have "c\<lparr>inp := []\<rparr> = c" using c(5) by simp
  then show ?case by simp
next
  case (Suc k)
  let ?d = "c\<lparr>inp := take k (answer A (length (xs c) - 1))\<rparr>"
  have "polite E A (?d, k) (?d\<lparr>inp := inp ?d @ [answer A (length (xs ?d) - 1) ! k]\<rparr>, Suc k)"
    by (rule polite.Answer) (use c Suc.prems in \<open>simp_all del: One_nat_def\<close>)
  then have "polite E A (?d, k) (c\<lparr>inp := take (Suc k) (answer A (length (xs c) - 1))\<rparr>, Suc k)"
    using Suc.prems by (simp add: take_Suc_conv_app_nth)
  with Suc show ?case by (meson Suc_leD rtranclp.rtrancl_into_rtrancl)
qed

definition returned :: conc where
  "returned = raced\<lparr>xs := [(''id'', XDone 3)]\<rparr>"

lemma running_polite: "(polite sample_env sample_answers)\<^sup>*\<^sup>* (sample_conc, 0) (running, 0)"
proof -
  let ?c = "sample_conc\<lparr>hp := HRead, hfd := 3\<rparr>"
  have "play sample_env [Do_handler 0] sample_conc = Some ?c" by code_simp
  then have 1: "(polite sample_env sample_answers)\<^sup>*\<^sup>* (sample_conc, 0) (?c, 0)"
    by (rule play_polite [rotated]) simp
  have 2: "polite sample_env sample_answers (?c, 0) (?c\<lparr>xs := xs ?c @ [(''id'', XStart)]\<rparr>, 0)"
    by (rule polite.Call) (simp_all add: sample_conc_def)
  have "play sample_env (replicate 10 (Do_exec 0)) (?c\<lparr>xs := xs ?c @ [(''id'', XStart)]\<rparr>) = Some running"
    by code_simp
  then have "(polite sample_env sample_answers)\<^sup>*\<^sup>* (?c\<lparr>xs := xs ?c @ [(''id'', XStart)]\<rparr>, 0) (running, 0)"
    by (rule play_polite [rotated]) simp
  from rtranclp_trans [OF 1 converse_rtranclp_into_rtranclp [OF 2 this]] show ?thesis .
qed

lemma returned_polite:
  "(polite sample_env sample_answers)\<^sup>*\<^sup>* (sample_conc, 0) (returned, length the_answer)"
proof -
  have r: "fault running = None" "\<not> eof running" "xs running \<noteq> []" "xpc_of running (length (xs running) - 1) = XSleep"
    "inp running = []"
    using running_state by (simp_all add: running_def asleep_def early_def sample_conc_def xpc_of_def)
  have "running\<lparr>inp := the_answer\<rparr> = asleep" by (simp add: running_def asleep_def early_def)
  with answer_polite [OF r, of "length the_answer" sample_answers sample_env]
  have 1: "(polite sample_env sample_answers)\<^sup>*\<^sup>* (running, 0) (asleep, length the_answer)"
    by (simp add: sample_answer)
  have "play sample_env (replicate (length the_answer) (Do_handler 0) @ replicate 3 (Do_exec 0)) asleep =
      Some returned"
    by code_simp
  then have "(polite sample_env sample_answers)\<^sup>*\<^sup>* (asleep, length the_answer) (returned, length the_answer)"
    by (rule play_polite [rotated]) auto
  from rtranclp_trans [OF running_polite rtranclp_trans [OF 1 this]] show ?thesis .
qed

lemma sample_in_use:
  "idle sample_conc" "bound 5 (world sample_conc)" "log_ready (world sample_conc)" "reading [] (world sample_conc)"
  using sample_idle sample_bound sample_log_open sample_reading by (simp_all add: sample_conc_def)



end
