(* ===== verification/Opening.thy ===== *)
theory Opening
  imports Sequential
begin

text \<open>
  Opening a session and using it, put together: an opening that reports success with its log open
  leaves the process in a state from which the threads of theory Conc start.
\<close>

section \<open>The threads of a new session\<close>

text \<open>The process after the opening, with the handler at its start and an unwritten buffer.\<close>

definition opened :: "hproc \<Rightarrow> conc" where
  "opened w = \<lparr>world = w\<lparr>handler_cells := replicate (nat BUF_INITIAL_SIZE) None\<rparr>, owner = None, waiters = [],
     xs = [], hp = HStart, hfd = 0, hoff = 0, ep = EIdle, inp = [], eof = False, fault = None\<rparr>"

lemma opened_idle: "idle (opened w)" "world (opened w) = w\<lparr>handler_cells := replicate 32 None\<rparr>"
  by (simp_all add: idle_def opened_def BUF_INITIAL_SIZE_def)

section \<open>The log across the calls of an opening\<close>

definition log_kept :: "'a log_os_scheme \<Rightarrow> 'a log_os_scheme \<Rightarrow> bool" where
  "log_kept w w' \<longleftrightarrow> (log_ready w \<longrightarrow> log_ready w' \<and> log_fd w' = log_fd w \<and> fds w' = fds w \<and> places w' = places w)
     \<and> (su_srv_log_fptr w = None \<longrightarrow> su_srv_log_fptr w' = None)"

lemma log_kept_refl [simp]: "log_kept w w"
  by (simp add: log_kept_def)

lemma log_kept_trans [trans]: "log_kept u v \<Longrightarrow> log_kept v w \<Longrightarrow> log_kept u w"
  by (simp add: log_kept_def)

lemma log_ready_calm: "log_ready w \<Longrightarrow> calm w"
  using log_fd_file by (auto simp: calm_def)

lemma log_kept_printf [intro]: "log_kept w (su_srv_log_printf fmt args w)"
  using log_calls_ready(2) [of w fmt args] logs_frame(1,8) [OF log_calls_logs(1) [OF log_ready_calm], of w fmt args]
    logs_places(1) [OF log_calls_logs(1) [OF log_ready_calm], of w fmt args]
  by (auto simp: log_kept_def su_srv_log_printf_def)

lemma log_ready_same:
  assumes "su_srv_log_fptr w' = su_srv_log_fptr w" and "fds w' = fds w" and "nodes w' = nodes w"
  shows "log_ready w' = log_ready w"
  unfolding log_ready_def node_at_def assms ..

lemma log_kept_same:
  assumes "su_srv_log_fptr w' = su_srv_log_fptr w" and "fds w' = fds w" and "nodes w' = nodes w"
  shows "log_kept w w'"
  using log_ready_same [OF assms] places_same [OF assms(3)] assms(1,2) by (simp add: log_kept_def log_fd_def)

lemma os_more_log:
  fixes w :: "'a log_os_scheme"
  shows "os.more w' = os.more w \<Longrightarrow> su_srv_log_fptr w' = su_srv_log_fptr w"
  by (cases w; cases w'; simp)

lemma log_kept_quiet:
  "quieth w w' \<Longrightarrow> nodes w' = nodes w \<Longrightarrow> log_kept w w'" "quiet w w' \<Longrightarrow> nodes w' = nodes w \<Longrightarrow> log_kept w w'"
  by (rule log_kept_same; auto simp: quieth_frame(1) quiet_frame(2) intro: os_more_log quieth_frame(3) quiet_frame(4))+

lemma log_kept_start:
  assumes run: "shell_start_process E fd s w = Inr (Returns (0, s') w')" and "2 \<le> sizeof_ptr E"
    and parent: "\<forall>t. fork_ret E t \<noteq> 0"
  shows "log_kept w w'"
proof (cases rule: find_su_binary_cases [OF assms(2), of w, case_names found none])
  case (found i v)
  have 1: "log_kept w v" by (rule log_kept_quiet(2) [OF found(3,4)])
  let ?u = "su_srv_log_printf ''Found system SU binary: %s'' [FStr (su_paths E ! i)] v"
  have 2: "log_kept v ?u" by auto
  have p: "fork_ret E t \<noteq> 0" for t using parent by blast
  have "w' = ?u\<lparr>tick := Suc (tick ?u)\<rparr>"
    using run found(2)
    by (auto simp: p shell_start_process_def Let_def split_beta os_fork_def ask_def fail_def SU_SRV_SYSTEM_ERR_def
        split: if_splits)
  then have "log_kept ?u w'" by (intro log_kept_same) simp_all
  with 1 2 show ?thesis by (blast intro: log_kept_trans)
next
  case none
  with run show ?thesis by (simp add: shell_start_process_def)
qed

lemma log_kept_thread:
  assumes "create_handler_thread E s w = Inr (e, w')"
  shows "log_kept w w'"
  using assms by (intro log_kept_same)
    (auto simp: create_handler_thread_def os_pthread_create_def pth_block_sigchld_def pth_unblock_sigchld_def
      ask_def Let_def split: if_splits)

text \<open>The rendez-vous adds a name and two descriptors; the peer is not the log.\<close>

lemma log_ready_more:
  fixes w :: "'a log_os_scheme"
  assumes ready: "log_ready w" and fptr: "su_srv_log_fptr w' = su_srv_log_fptr w"
    and fds: "\<And>fd d. map_of (fds w) fd = Some d \<Longrightarrow> map_of (fds w') fd = Some d"
    and nodes: "\<And>p n. node_at w p = Some n \<Longrightarrow> node_at w' p = Some n"
  shows "log_ready w'"
proof -
  obtain fd p s where "su_srv_log_fptr w = Some \<lparr>cf_fd = fd, cf_buf = []\<rparr>"
    "map_of (fds w) fd = Some (FFile p)" "node_at w p = Some (NFile s)"
    using log_readyE [OF ready] by blast
  with fptr fds nodes show ?thesis by (simp add: log_ready_def)
qed

text \<open>When memory does not run out the session has all of its blocks.\<close>

lemma session_new_complete:
  assumes run: "su_shell_session_new E r pid w = Inr (Some s, w')" and M: "mallocs E"
    and size: "\<And>t. sizeof_of E t \<le> PTRDIFF_MAX E" "BUF_INITIAL_SIZE \<le> PTRDIFF_MAX E"
  shows "complete s \<and> handler_buf s \<noteq> 0"
proof -
  have ok: "fst (c_malloc E n v) \<noteq> 0" if "n \<le> PTRDIFF_MAX E" for n and v :: "'b os_scheme"
    using M that by (simp add: c_malloc_def ask_def mallocs_def)
  have m: "fst (c_malloc E (sizeof_of E t) v) \<noteq> 0" "fst (c_malloc E BUF_INITIAL_SIZE v) \<noteq> 0" for t and v :: "'b os_scheme"
    by (intro ok size)+
  have i: "shell_sync_mutex q' \<noteq> 0 \<and> shell_sync_ready q' \<noteq> 0 \<and> block q' = block q
      \<and> handler_pth q' = handler_pth q \<and> handler_buf q' = handler_buf q"
    if "init_mutexes E q v = (0, q', v')" for q v q' v'
    using that by (auto simp: m init_mutexes_def Let_def split_beta split: if_splits)
  have a: "block q' = block q \<and> handler_pth q' = handler_pth q \<and> handler_buf q' = handler_buf q"
    if "init_af_un_address E q v = Inr (e, q', v')" for q v e q' v'
    using that by (auto simp: init_af_un_address_def Let_def split_beta split: if_splits sum.splits)
  obtain b w1 where b: "c_malloc E (sizeof_of E SizeofSession) w = (b, w1)" by force
  obtain pth w2 where pth: "c_malloc E (sizeof_of E SizeofPthread) w1 = (pth, w2)" by force
  obtain buf w3 where buf: "c_malloc E BUF_INITIAL_SIZE w2 = (buf, w3)" by force
  have ne: "b \<noteq> 0" "pth \<noteq> 0" "buf \<noteq> 0" using m(1) [of SizeofSession w] m(1) [of SizeofPthread w1] m(2) [of w2] by (simp_all add: b pth buf)
  let ?q = "blank_session E b pid r pth buf"
  have "session_init E ?q w3 = Inr (Some s, w')" using run session_new_init [OF b ne(1) pth buf] by simp
  then obtain q1 v1 where q: "init_af_un_address E ?q w3 = Inr (0, q1, v1)" "init_mutexes E q1 v1 = (0, s, w')"
    by (auto simp: session_init_def split: sum.splits if_splits prod.splits)
  from i [OF q(2)] a [OF q(1)] ne show ?thesis by (simp add: complete_def blank_session_def)
qed

section \<open>The state after an opening\<close>

text \<open>The part after the rendez-vous keeps the log and the descriptors but the peer's.\<close>

lemma open_shell_log:
  assumes run: "open_shell E p s w = Inr (Returns (0, s') w')" and "2 \<le> sizeof_ptr E" and "su_session w = None"
    and parent: "\<forall>t. fork_ret E t \<noteq> 0"
  obtains v where "log_kept w v" and "w' = os_close p v"
proof -
  define w1 where "w1 = su_srv_log_printf ''AF UNIX rendez-vous completed'' [] w"
  from run obtain e2 s2 w2 where st: "shell_start_process E p s w1 = Inr (Returns (e2, s2) w2)"
    by (auto simp: open_shell_def Let_def w1_def split: sum.splits run.splits)
  have e2: "e2 = 0"
    by (rule ccontr) (use run in \<open>simp add: open_shell_def Let_def st flip: w1_def\<close>)
  define w3 where "w3 = su_srv_log_printf ''Created SU shell child process (PID: %d)'' [FInt (shell_pid s2)] w2"
  from run e2 obtain e4 w4 where th: "create_handler_thread E s2 w3 = Inr (e4, w4)"
    by (auto simp: open_shell_def Let_def st w3_def simp flip: w1_def split: sum.splits)
  define w5 where "w5 = su_srv_log_printf ''Failed to create handler thread !'' [] w4"
  have "same_bound w w1" "same_bound w1 w2" "same_bound w2 w3"
    using start_bound [OF st assms(2)] by (auto simp: w1_def w3_def)
  then have "same_bound w w3" using same_bound_trans by blast
  from same_bound_session(1) [OF this] have "su_session w4 = None" using create_thread_frame [OF th] assms(3) by simp
  then have "su_session w5 = None"
    using same_bound_session(1) [OF log_calls_bound(1), where w = w4] by (simp add: w5_def)
  from stop_unbound [OF this] run e2 have w': "w' = os_close p w4"
    by (auto simp: open_shell_def Let_def st th simp flip: w1_def w3_def w5_def split: if_splits)
  have "log_kept w w1" "log_kept w1 w2" "log_kept w2 w3" "log_kept w3 w4"
    using log_kept_start [OF _ assms(2) parent] st e2 log_kept_thread [OF th] by (auto simp: w1_def w3_def)
  then have "log_kept w w4" by (blast intro: log_kept_trans)
  with w' that show thesis by blast
qed

text \<open>The calls of an opening that returns 0.\<close>

definition open_lines :: "su_shell_session \<Rightarrow> 'a log_os_scheme \<Rightarrow> 'a log_os_scheme" where
  "open_lines s w =
     su_srv_log_printf ''AF UNIX path: %s (%d)''
       [FStr (sun_path (afun_rdv_addr s)), FInt (int (c_strlen (sun_path (afun_rdv_addr s))) + 1)]
       (su_srv_log_printf ''owner PID: %d'' [FInt (owner_pid s)]
         (su_srv_log_printf ''Initializing SU shell session:'' [] w))"

lemma open_lines_kept: "log_kept w (open_lines s w)"
  and open_lines_bound: "same_bound v (open_lines s v)" for v :: "'a process_scheme"
proof -
  show "log_kept w (open_lines s w)"
    unfolding open_lines_def
    by (rule log_kept_trans [OF log_kept_printf log_kept_trans [OF log_kept_printf log_kept_printf]])
  show "same_bound v (open_lines s v)"
    unfolding open_lines_def
    by (rule same_bound_trans [OF log_calls_bound(1) same_bound_trans [OF log_calls_bound(1) log_calls_bound(1)]])
qed

lemma open_lines_logs: "calm w \<Longrightarrow> logs w (open_lines s w)"
  unfolding open_lines_def by (meson log_calls_logs(1) logs_calm logs_trans)

lemma open_stages:
  assumes run: "su_srv_open_shell_session E r w = Inr (Returns 0 w')"
  obtains w1 w2 s w3 p s4 w4 s5 w5 where "su_session w = None" and "su_srv_pfs_init E r w = (0, w1)"
    and "snd (su_srv_log_init E r (self_pid E) w1) = w2"
    and "su_shell_session_new E r (self_pid E) w2 = Inr (Some s, w3)"
    and "su_shell_session_af_un_rdv E s (open_lines s w3) = (p, s4, w4)" and "0 < p"
    and "open_shell E p s4 w4 = Inr (Returns (0, s5) w5)" and "w' = w5\<lparr>su_session := Some s5\<rparr>"
proof -
  have none: "su_session w = None"
    using run by (auto simp: su_srv_open_shell_session_def SU_SRV_SESSION_EXISTS_ERR_def split: if_splits)
  obtain e1 w1 where pfs: "su_srv_pfs_init E r w = (e1, w1)" by force
  have e1: "e1 = 0"
    by (rule ccontr) (use run none in \<open>simp add: su_srv_open_shell_session_def pfs SU_SRV_SYSTEM_ERR_def\<close>)
  define w2 where "w2 = snd (su_srv_log_init E r (self_pid E) w1)"
  note unf = su_srv_open_shell_session_def pfs none e1 Let_def
  obtain s w3 where new: "su_shell_session_new E r (self_pid E) w2 = Inr (Some s, w3)"
    using run by (auto simp: unf SU_SRV_SYSTEM_ERR_def simp flip: w2_def split: sum.splits option.splits)
  obtain p s4 w4 where rdv: "su_shell_session_af_un_rdv E s (open_lines s w3) = (p, s4, w4)" using prod_cases3 by blast
  have p: "0 < p"
  proof (rule ccontr)
    assume "\<not> 0 < p"
    with run new rdv have "open_finish SU_SRV_SYSTEM_ERR s4 w4 = Inr (Returns 0 w')"
      by (simp add: unf open_lines_def flip: w2_def)
    then show False by (auto simp: open_finish_def SU_SRV_SYSTEM_ERR_def split: sum.splits)
  qed
  with run new rdv obtain e5 s5 w5 where sh: "open_shell E p s4 w4 = Inr (Returns (e5, s5) w5)"
    and fin: "open_finish e5 s5 w5 = Inr (Returns 0 w')"
    by (auto simp: unf open_lines_def simp flip: w2_def split: sum.splits run.splits)
  have "e5 = 0" "w' = w5\<lparr>su_session := Some s5\<rparr>"
    using fin by (auto simp: open_finish_def split: if_splits sum.splits)
  with that none pfs e1 w2_def new rdv p sh show thesis by blast
qed

text \<open>The log and the client socket, from the rendez-vous to the end.\<close>

lemma rdv_log:
  fixes w :: "'a log_os_scheme"
  assumes rdv: "su_shell_session_af_un_rdv E s w = (p, s4, w4)" and p: "0 < p"
    and ready: "log_ready w" "fds_ok w"
  shows "log_ready w4" and "\<And>q. node_at w q \<noteq> None \<Longrightarrow> node_at w4 q \<noteq> None"
proof -
  have "0 \<le> p" using p by simp
  note ok = rdv_ok [OF rdv this ready(2)]
  have maps: "map_of (fds w4) = (map_of (fds w))(afun_client_fd s4 \<mapsto> FConn, p \<mapsto> FPeer)"
    "map_of (fds w) p = None" "map_of (fds w) (afun_client_fd s4) = None"
    "node_at w (sun_path (afun_rdv_addr s)) = None"
    "node_at w4 = (node_at w)(sun_path (afun_rdv_addr s) \<mapsto> NSock)"
    using ok by blast+
  have "nets w w4" using ok by blast
  from os_more_log [OF nets_frame(4) [OF this]] show "log_ready w4"
    by (rule log_ready_more [OF ready(1)]) (use maps in \<open>auto split: if_splits\<close>)
  show "node_at w4 q \<noteq> None" if "node_at w q \<noteq> None" for q using that maps(5) by auto
qed

lemma rdv_shell_log:
  fixes w :: "'a process_scheme"
  assumes rdv: "su_shell_session_af_un_rdv E s w = (p, s4, w4)" and p: "0 < p"
    and ready: "log_ready w" "fds_ok w" "su_session w = None"
    and sh: "open_shell E p s4 w4 = Inr (Returns (0, s5) w5)" and "2 \<le> sizeof_ptr E"
    and parent: "\<forall>t. fork_ret E t \<noteq> 0"
  shows "log_ready w5 \<and> map_of (fds w5) (afun_client_fd s5) = Some FConn \<and> 0 < afun_client_fd s5
    \<and> map_of (fds w5) = (map_of (fds w))(afun_client_fd s5 \<mapsto> FConn)
    \<and> places w5 = (places w)(sun_path (afun_rdv_addr s) \<mapsto> node_kind NSock)
    \<and> s5 = s\<lparr>afun_client_fd := afun_client_fd s5, shell_pid := shell_pid s5\<rparr>"
proof -
  have "0 \<le> p" using p by simp
  note ok = rdv_ok [OF rdv this ready(2)]
  have maps: "map_of (fds w4) = (map_of (fds w))(afun_client_fd s4 \<mapsto> FConn, p \<mapsto> FPeer)"
    "map_of (fds w) p = None" "map_of (fds w) (afun_client_fd s4) = None" "p \<noteq> afun_client_fd s4"
    "0 < afun_client_fd s4" "node_at w4 = (node_at w)(sun_path (afun_rdv_addr s) \<mapsto> NSock)"
    using ok by blast+
  have r4: "log_ready w4" by (rule rdv_log(1) [OF rdv p ready(1,2)])
  have s4: "su_session w4 = None" using rdv_bound [OF rdv] same_bound_session(1) ready(3) by metis
  obtain v where v: "log_kept w4 v" "w5 = os_close p v"
    by (rule open_shell_log [OF sh assms(7) s4 parent])
  have rv: "log_ready v" "fds v = fds w4" "places v = places w4" using v(1) r4 by (simp_all add: log_kept_def)
  obtain l q t where l: "su_srv_log_fptr v = Some \<lparr>cf_fd = l, cf_buf = []\<rparr>" "map_of (fds v) l = Some (FFile q)"
    "node_at v q = Some (NFile t)" using log_readyE [OF rv(1)] by blast
  have "l \<noteq> p" using l(2) maps(1) rv(2) by auto
  with l have r5: "log_ready w5" by (simp add: v(2) os_close_def log_ready_def delete_conv' node_at_def)
  have "map_of (fds w5) (afun_client_fd s4) = Some FConn"
    using maps(1,4) rv(2) by (simp add: v(2) os_close_def delete_conv')
  moreover have "s5 = s4\<lparr>shell_pid := shell_pid s5\<rparr>" "s4 = s\<lparr>afun_client_fd := afun_client_fd s4\<rparr>"
    using open_shell_result [OF sh s4 assms(7)] ok by blast+
  moreover have "map_of (fds w5) = (map_of (fds w))(afun_client_fd s4 \<mapsto> FConn)"
    using maps(1,2,4) rv(2) by (auto simp: v(2) os_close_def delete_conv' fun_eq_iff)
  moreover have "places w5 = (places w)(sun_path (afun_rdv_addr s) \<mapsto> node_kind NSock)"
    using places_same [of w5 v] rv(3) maps(6) by (simp add: v(2) os_close_def places_def fun_eq_iff)
  ultimately show ?thesis using r5 maps(5) by (cases s; cases s4; cases s5) simp
qed

section \<open>An opening that succeeds\<close>

text \<open>
  What an opening needs of the file system: an existing root with nothing but directories at the
  places of the tree, a file or nothing at the place of the log, nothing at the place of the
  rendez-vous, and a candidate for the shell.
\<close>

definition fresh_root :: "env \<Rightarrow> string \<Rightarrow> int \<Rightarrow> 'a os_scheme \<Rightarrow> bool" where
  "fresh_root E r pid w \<longleftrightarrow> cstr r \<noteq> [] \<and> is_dir w (cstr r)
     \<and> (\<forall>p \<in> set (pfs_paths r). node_at w p = None \<or> is_dir w p)
     \<and> (node_at w (log_path r pid) = None \<or> (\<exists>t. node_at w (log_path r pid) = Some (NFile t)))
     \<and> node_at w (session_path r pid) = None \<and> (\<exists>p \<in> set (su_paths E). node_at w p \<noteq> None)"

lemma parent_of_session_path:
  assumes "cstr r \<noteq> []"
  shows "parent_of (session_path r pid) = cstr r @ ''/var/run''"
proof -
  have "session_path r pid = (cstr r @ ''/var/run'') @ SLASH # take 8 (''su-'' @ zpad 5 pid)"
    by (simp add: session_path_def length_cstr)
  then show ?thesis
    by (simp only:) (rule parent_of_append; simp; auto dest: in_set_takeD)
qed

lemma pfs_paths_parents:
  assumes "cstr r \<noteq> []" and "q \<in> set (pfs_paths r)"
  shows "parent_of q = cstr r \<or> parent_of q = cstr r @ ''/var''"
  using assms(2) parent_of_paths [OF assms(1)] by (auto simp: pfs_paths_def)

lemma fresh_names:
  assumes "cstr r \<noteq> []"
  shows "log_path r pid \<notin> set (pfs_paths r)" and "session_path r pid \<notin> set (pfs_paths r)"
    and "session_path r pid \<noteq> log_path r pid"
  using pfs_paths_parents [OF assms, of "log_path r pid"] pfs_paths_parents [OF assms, of "session_path r pid"]
    parent_of_session_path [OF assms, of pid] parent_of_log_path [of r pid] by auto

lemma lowest_free_pos: "0 \<in> fst ` set t \<Longrightarrow> 0 < lowest_free t"
  using lowest_free_fresh [of t] lowest_free_nonneg [of t] by (cases "lowest_free t = 0") auto

lemma rdv_healthy:
  assumes E: "healthy E" and free: "node_at w (sun_path (afun_rdv_addr s)) = None"
    and dir: "is_dir w (parent_of (sun_path (afun_rdv_addr s)))" and zero: "0 \<in> fst ` set (fds w)"
  shows "0 < fst (su_shell_session_af_un_rdv E s w)"
proof -
  let ?path = "sun_path (afun_rdv_addr s)" and ?r = "lowest_free (fds w)"
  have f: "fails E = (\<lambda>c t. 0)" using E by (simp add: healthy_def)
  have r: "0 < ?r" "?r \<notin> fst ` set (fds w)" using lowest_free_pos [OF zero] lowest_free_fresh [of "fds w"] by simp_all
  let ?c = "lowest_free ((?r, FListen ?path) # fds w)"
  have c: "0 < ?c" "?c \<noteq> ?r"
    using lowest_free_pos [of "(?r, FListen ?path) # fds w"] zero lowest_free_fresh [of "(?r, FListen ?path) # fds w"]
    by auto
  let ?p = "lowest_free ((?c, FConn) # (?r, FListen ?path) # fds w)"
  have p: "0 < ?p" using lowest_free_pos [of "(?c, FConn) # (?r, FListen ?path) # fds w"] zero by simp
  show ?thesis
    using r c p free dir
    by (simp add: su_shell_session_af_un_rdv_def f os_socket_def os_bind_def os_listen_def os_connect_def
        os_accept_def ask_def new_fd_def Let_def is_dir_def set_node_def node_at_def)
qed

lemma open_shell_healthy:
  fixes w :: "'a process_scheme"
  assumes E: "healthy E" and cand: "\<exists>q \<in> set (su_paths E). node_at w q \<noteq> None" and "calm w"
    and parent: "\<forall>t. fork_ret E t \<noteq> 0" and "handler_pth s \<noteq> 0" and "2 \<le> sizeof_ptr E"
  shows "\<exists>s' w'. open_shell E p s w = Inr (Returns (0, s') w')"
proof -
  have f: "fails E = (\<lambda>c t. 0)" using E by (simp add: healthy_def)
  define w1 where "w1 = su_srv_log_printf ''AF UNIX rendez-vous completed'' [] w"
  have "dom (node_at w1) = dom (node_at w)"
    unfolding w1_def by (rule logs_places(2) [OF log_calls_logs(1) [OF assms(3)]])
  then have c1: "\<exists>q \<in> set (su_paths E). node_at w1 q \<noteq> None" using cand by (metis domIff)
  have p: "fork_ret E t \<noteq> 0" for t using parent by blast
  obtain e s' w2 where st: "shell_start_process E p s w1 = Inr (Returns (0, s') w2)" and "handler_pth s' = handler_pth s"
  proof (cases rule: find_su_binary_cases [OF assms(6), of w1, case_names found none])
    case (found i v)
    then have "\<exists>pid w2. shell_start_process E p s w1 = Inr (Returns (0, s\<lparr>shell_pid := pid\<rparr>) w2)"
      by (auto simp: shell_start_process_def Let_def split_beta os_fork_def ask_def f p)
    with that show ?thesis by auto
  next
    case none
    with E have "\<forall>q \<in> set (su_paths E). node_at w1 q = None" by blast
    with c1 have False by auto
    then show ?thesis ..
  qed
  with assms(5) show ?thesis
    by (simp add: open_shell_def Let_def create_handler_thread_def os_pthread_create_def pth_block_sigchld_def
        pth_unblock_sigchld_def ask_def f flip: w1_def)
qed

text \<open>The file system on the way: the tree, the log, and still nothing at the rendez-vous.\<close>

lemma pfs_spec_elsewhere: "q \<notin> set (pfs_paths r) \<Longrightarrow> pfs_spec E r w q = node_at w q"
  by (simp add: pfs_spec_def)

lemma pfs_spec_dirs:
  assumes "q \<in> set (pfs_paths r)" and "node_at w q = None \<or> is_dir w q"
  shows "\<exists>m. pfs_spec E r w q = Some (NDir m)"
  using assms by (auto simp: pfs_spec_def is_dir_iff)

lemma pfs_spec_keeps: "node_at w q \<noteq> None \<Longrightarrow> pfs_spec E r w q \<noteq> None"
  by (simp add: pfs_spec_def)

lemma fresh_stages:
  fixes w :: "'a process_scheme"
  assumes E: "healthy E" and ptr: "4 \<le> sizeof_ptr E" and root: "fresh_root E r pid w" "int (c_strlen r) + 18 \<le> 108"
    and w: "su_session w = None" "0 \<in> fst ` set (fds w)" "fds_ok w"
  obtains w1 w2 where "su_srv_pfs_init E r w = (0, w1)" and "su_srv_log_init E r pid w1 = (0, w2)"
    and "log_ready w2" and "su_session w2 = None" and "0 \<in> fst ` set (fds w2)" and "fds_ok w2"
    and "node_at w2 (session_path r pid) = None" and "is_dir w2 (parent_of (session_path r pid))"
    and "\<exists>q \<in> set (su_paths E). node_at w2 q \<noteq> None"
proof -
  have "(2::int) ^ 31 \<le> 2 ^ (8 * sizeof_ptr E - 1)" by (rule power_increasing) (use ptr in auto)
  then have big: "112 < PTRDIFF_MAX E" by (simp add: PTRDIFF_MAX_def)
  have len: "int (c_strlen r) + 22 \<le> 112" "int (c_strlen r) + 22 < 2 ^ 31" using root(2) by simp_all
  from root(1) have ne: "cstr r \<noteq> []" and rd: "is_dir w (cstr r)"
    and places: "\<forall>p \<in> set (pfs_paths r). node_at w p = None \<or> is_dir w p"
    and lg: "node_at w (log_path r pid) = None \<or> (\<exists>t. node_at w (log_path r pid) = Some (NFile t))"
    and sp: "node_at w (session_path r pid) = None" and cand: "\<exists>p \<in> set (su_paths E). node_at w p \<noteq> None"
    by (auto simp: fresh_root_def)
  note names = fresh_names [OF ne, of pid]
  obtain w1 where w1: "su_srv_pfs_init E r w = (0, w1)" "node_at w1 = pfs_spec E r w"
    using pfs_init_healthy [OF E _ ne rd places] len(1) big by force
  have tree: "is_dir w1 (cstr r @ ''/var/log'')" "is_dir w1 (cstr r @ ''/var/run'')"
    using pfs_spec_dirs [of _ r w E] places by (simp_all add: is_dir_iff w1(2) pfs_paths_def)
  have q1: "quiet w w1" using quiet_pfs_init [of w E r] by (simp add: w1(1))
  obtain w2 where w2: "su_srv_log_init E r pid w1 = (0, w2)"
    using log_init_healthy [OF E tree(1), of pid] lg names(1) len(1) big ptr
    by (cases "su_srv_log_init E r pid w1") (auto simp: w1(2) pfs_spec_elsewhere)
  note li = log_init_ok [OF w2 len(2) ptr]
  show thesis
  proof (rule that [OF w1(1) w2])
    show "log_ready w2" using li by (auto simp: log_ready_def)
    show "su_session w2 = None"
      using log_init_frame(2) [of E r pid w1] w2 process_more(1) [OF quiet_frame(4) [OF q1]] w(1)
      by (cases w1; cases w2; simp)
    show "0 \<in> fst ` set (fds w2)" using li quiet_frame(2) [OF q1] w(2) by simp
    show "fds_ok w2" using li quiet_frame(2) [OF q1] w(3) lowest_free_nonneg by (auto simp: fds_ok_def)
    show "node_at w2 (session_path r pid) = None" "is_dir w2 (parent_of (session_path r pid))"
      using li sp names tree(2) parent_of_session_path [OF ne]
      by (auto simp: w1(2) pfs_spec_elsewhere is_dir_iff)
    from cand obtain q where "q \<in> set (su_paths E)" "node_at w2 q \<noteq> None"
      using li pfs_spec_keeps [of w _ E r] by (auto simp: w1(2))
    then show "\<exists>q \<in> set (su_paths E). node_at w2 q \<noteq> None" ..
  qed
qed

lemma open_healthy:
  fixes w :: "'a process_scheme"
  assumes E: "healthy E" and ptr: "4 \<le> sizeof_ptr E" and sizes: "\<And>t. sizeof_of E t \<le> PTRDIFF_MAX E"
    and root: "fresh_root E r (self_pid E) w" "int (c_strlen r) + 18 \<le> 108"
    and w: "su_session w = None" "0 \<in> fst ` set (fds w)" "fds_ok w" and parent: "\<forall>t. fork_ret E t \<noteq> 0"
  shows "\<exists>w'. su_srv_open_shell_session E r w = Inr (Returns 0 w')
    \<and> fst (su_srv_log_init E r (self_pid E) (snd (su_srv_pfs_init E r w))) = 0"
proof -
  obtain w1 w2 where st: "su_srv_pfs_init E r w = (0, w1)" "su_srv_log_init E r (self_pid E) w1 = (0, w2)"
    "log_ready w2" "su_session w2 = None" "0 \<in> fst ` set (fds w2)" "fds_ok w2"
    "node_at w2 (session_path r (self_pid E)) = None" "is_dir w2 (parent_of (session_path r (self_pid E)))"
    "\<exists>q \<in> set (su_paths E). node_at w2 q \<noteq> None"
    by (rule fresh_stages [OF E ptr root w])
  have "(2::int) ^ 31 \<le> 2 ^ (8 * sizeof_ptr E - 1)" by (rule power_increasing) (use ptr in auto)
  then have big: "108 \<le> PTRDIFF_MAX E" by (simp add: PTRDIFF_MAX_def)
  obtain s w3 where new: "su_shell_session_new E r (self_pid E) w2 = Inr (Some s, w3)" "handler_pth s \<noteq> 0"
    using session_new_healthy [OF E sizes big root(2) ptr] by metis
  have len: "int (c_strlen r) + 18 < 2 ^ 32" using root(2) by simp
  obtain q3: "quieth w2 w3" "nodes w3 = nodes w2"
    and addr: "sun_path (afun_rdv_addr s) = session_path r (self_pid E)"
    by (cases rule: session_new_cases [OF len ptr, of "self_pid E" w2]) (use new(1) in auto)
  let ?w = "open_lines s w3"
  have "log_kept w2 ?w" by (rule log_kept_trans [OF log_kept_quiet(1) [OF q3] open_lines_kept])
  then have ready: "log_ready ?w" "fds ?w = fds w2" using st(3) by (simp_all add: log_kept_def)
  have "calm w3" using log_ready_calm [OF st(3)] quieth_frame(1) [OF q3(1)] os_more_log [OF quieth_frame(3) [OF q3(1)]]
    by (simp add: calm_def log_fd_def)
  from open_lines_logs [OF this] q3(2) have nodes: "dom (node_at ?w) = dom (node_at w2)" "is_dir ?w = is_dir w2"
    using logs_places(1) [of w3 ?w] places_same [OF q3(2)] places_dom [of ?w w2] by simp_all
  obtain p s4 w4 where rdv: "su_shell_session_af_un_rdv E s ?w = (p, s4, w4)" using prod_cases3 by blast
  have "0 < fst (su_shell_session_af_un_rdv E s ?w)"
    by (rule rdv_healthy [OF E]) (use st(5,7,8) nodes ready(2) addr in auto)
  then have p: "0 < p" by (simp add: rdv)
  have ok: "fds_ok ?w" using ready(2) st(6) by (simp add: fds_ok_def)
  note r4 = rdv_log [OF rdv p ready(1) ok]
  have "\<exists>q \<in> set (su_paths E). node_at ?w q \<noteq> None" using st(9) nodes(1) by blast
  then have cand: "\<exists>q \<in> set (su_paths E). node_at w4 q \<noteq> None" using r4(2) by blast
  have "handler_pth s4 \<noteq> 0" using rdv_bound [OF rdv] new(2) by (cases s; cases s4) simp
  then obtain s5 w5 where "open_shell E p s4 w4 = Inr (Returns (0, s5) w5)"
    using open_shell_healthy [OF E cand log_ready_calm [OF r4(1)] parent] ptr by fastforce
  with st(1,2) new(1) rdv p w(1) show ?thesis
    by (simp add: su_srv_open_shell_session_def open_lines_def open_finish_def)
qed

section \<open>Ready for use\<close>

lemma open_use:
  fixes w :: hproc
  assumes run: "su_srv_open_shell_session E r w = Inr (Returns 0 w')" and "fds_ok w"
    and parent: "\<forall>t. fork_ret E t \<noteq> 0" and M: "mallocs E"
    and log: "fst (su_srv_log_init E r (self_pid E) (snd (su_srv_pfs_init E r w))) = 0"
    and sizes: "\<And>t. sizeof_of E t \<le> PTRDIFF_MAX E" "BUF_INITIAL_SIZE \<le> PTRDIFF_MAX E"
    and size: "int (c_strlen r) + 22 < 2 ^ 31" "4 \<le> sizeof_ptr E"
  shows "idle (opened w') \<and> log_ready (world (opened w')) \<and> reading [] (world (opened w'))
    \<and> (\<exists>fd. bound fd (world (opened w'))) \<and> (\<exists>s. su_session w' = Some s \<and> complete s)"
proof -
  obtain w1 w2 s w3 p s4 w4 s5 w5 where st: "su_session w = None" "su_srv_pfs_init E r w = (0, w1)"
    "snd (su_srv_log_init E r (self_pid E) w1) = w2" "su_shell_session_new E r (self_pid E) w2 = Inr (Some s, w3)"
    "su_shell_session_af_un_rdv E s (open_lines s w3) = (p, s4, w4)" "0 < p"
    "open_shell E p s4 w4 = Inr (Returns (0, s5) w5)" "w' = w5\<lparr>su_session := Some s5\<rparr>"
    by (rule open_stages [OF run])
  have w2: "su_srv_log_init E r (self_pid E) w1 = (0, w2)" using log st(2,3) by (simp add: prod_eq_iff)
  have q1: "quiet w w1" using quiet_pfs_init [of w E r] by (simp add: st(2))
  note li = log_init_ok [OF w2 size]
  have "log_ready w2" "fds_ok w2"
    using assms(2) li quiet_frame(2) [OF q1] lowest_free_nonneg by (auto simp: fds_ok_def log_ready_def)
  moreover have "su_session w2 = None"
    using log_init_frame(2) [of E r "self_pid E" w1] w2 process_more(1) [OF quiet_frame(4) [OF q1]] st(1)
    by (cases w1; cases w2; simp)
  moreover have q3: "quieth w2 w3" "nodes w3 = nodes w2"
    using session_new_cases [of r E "self_pid E" w2] size st(4) by force+
  ultimately have ready: "log_ready (open_lines s w3)" "fds_ok (open_lines s w3)" "su_session (open_lines s w3) = None"
    using log_kept_trans [OF log_kept_quiet(1) [OF q3] open_lines_kept]
      same_bound_session(1) [OF open_lines_bound [of w3 s]] process_more(1) [OF quieth_frame(3) [OF q3(1)]]
    by (simp_all add: log_kept_def fds_ok_def)
  have "2 \<le> sizeof_ptr E" using size(2) by simp
  note fin = rdv_shell_log [OF st(5,6) ready st(7) this parent]
  have "complete s \<and> handler_buf s \<noteq> 0" by (rule session_new_complete [OF st(4) M sizes])
  then have ptrs: "complete s5 \<and> handler_buf s5 \<noteq> 0" using fin by (cases s; cases s5) (simp add: complete_def)
  have l: "log_ready (world (opened w'))"
    using fin log_ready_same [of "world (opened w')" w5] by (simp add: opened_idle(2) st(8))
  have "bound (afun_client_fd s5) (world (opened w'))" "reading [] (world (opened w'))"
    using ptrs fin log_ready_calm [OF l] by (simp_all add: bound_def reading_def opened_idle(2) st(8) complete_def)
  with l ptrs show ?thesis using opened_idle(1) by (auto simp: st(8))
qed

text \<open>Without a log: nothing gives the process a stream before the handler asks for its descriptor.\<close>

lemma log_init_refused:
  assumes "mallocs E" and "int (c_strlen r) + 22 \<le> PTRDIFF_MAX E" and "int (c_strlen r) + 22 < 2 ^ 31"
    and "4 \<le> sizeof_ptr E" and "\<forall>p t. fails E (Fopen p) t \<noteq> 0"
  shows "su_srv_log_fptr (snd (su_srv_log_init E r pid w)) = None"
proof -
  have "fst (c_malloc E (int (c_strlen r) + 22) w) \<noteq> 0"
    using assms(1,2) by (simp add: mallocs_def c_malloc_def ask_def)
  moreover have "fst (c_fopen_append E p v) = None" for p and v :: "'a log_os_scheme"
    using assms(5) by (simp add: c_fopen_append_def os_open_append_def ask_def fail_def)
  ultimately show ?thesis
    by (simp add: su_srv_log_init_eq [OF assms(3,4)] Let_def split_beta)
qed

lemma open_unlogged:
  fixes w :: hproc
  assumes run: "su_srv_open_shell_session E r w = Inr (Returns 0 w')"
    and parent: "\<forall>t. fork_ret E t \<noteq> 0" and "mallocs E" and "int (c_strlen r) + 22 \<le> PTRDIFF_MAX E"
    and size: "int (c_strlen r) + 22 < 2 ^ 31" "4 \<le> sizeof_ptr E" and refused: "\<forall>p t. fails E (Fopen p) t \<noteq> 0"
  shows "su_srv_log_fptr w' = None"
proof -
  obtain w1 w2 s w3 p s4 w4 s5 w5 where st: "su_session w = None" "su_srv_pfs_init E r w = (0, w1)"
    "snd (su_srv_log_init E r (self_pid E) w1) = w2" "su_shell_session_new E r (self_pid E) w2 = Inr (Some s, w3)"
    "su_shell_session_af_un_rdv E s (open_lines s w3) = (p, s4, w4)" "0 < p"
    "open_shell E p s4 w4 = Inr (Returns (0, s5) w5)" "w' = w5\<lparr>su_session := Some s5\<rparr>"
    by (rule open_stages [OF run])
  have two: "2 \<le> sizeof_ptr E" using size(2) by simp
  have n2: "su_srv_log_fptr w2 = None" using log_init_refused [OF assms(3,4) size refused, of "self_pid E" w1] st(3) by simp
  have q3: "quieth w2 w3" "nodes w3 = nodes w2"
    using session_new_cases [of r E "self_pid E" w2] size st(4) by force+
  have n4: "su_srv_log_fptr (open_lines s w3) = None"
    using log_kept_trans [OF log_kept_quiet(1) [OF q3] open_lines_kept [of w3 s]] n2 by (simp add: log_kept_def)
  have "su_session w2 = None"
    using log_init_frame(2) [of E r "self_pid E" w1] st(1,3) process_more(1) [OF quiet_frame(4), of w w1]
      quiet_pfs_init [of w E r] st(2) by (cases w1; cases w2; simp)
  then have "su_session w4 = None"
    using rdv_bound [OF st(5)] same_bound_session(1) [OF open_lines_bound [of w3 s]]
      process_more(1) [OF quieth_frame(3) [OF q3(1)]] same_bound_session(1) by metis
  then obtain v where v: "log_kept w4 v" "w5 = os_close p v"
    by (rule open_shell_log [OF st(7) two _ parent])
  have "0 \<le> p" using st(6) by simp
  from os_more_log [OF nets_frame(4) [OF rdv_nets [OF st(5) this]]] n4 have "su_srv_log_fptr w4 = None" by simp
  with v show ?thesis by (simp add: log_kept_def os_close_def st(8))
qed

text \<open>A system that grants every request, with all an opening needs, in the calling process.\<close>

definition ready_host :: "env \<Rightarrow> string \<Rightarrow> hproc \<Rightarrow> bool" where
  "ready_host E r w \<longleftrightarrow> healthy E \<and> 4 \<le> sizeof_ptr E \<and> (\<forall>t. sizeof_of E t \<le> PTRDIFF_MAX E)
     \<and> (\<forall>t. fork_ret E t \<noteq> 0) \<and> fresh_root E r (self_pid E) w \<and> int (c_strlen r) + 18 \<le> 108
     \<and> su_session w = None \<and> 0 \<in> fst ` set (fds w) \<and> fds_ok w"

lemma PTRDIFF_large: "4 \<le> sizeof_ptr E \<Longrightarrow> 255 \<le> PTRDIFF_MAX E"
proof -
  assume "4 \<le> sizeof_ptr E"
  then have "(2::int) ^ 31 \<le> 2 ^ (8 * sizeof_ptr E - 1)" by (intro power_increasing) auto
  then show ?thesis by (simp add: PTRDIFF_MAX_def)
qed

lemma open_ready:
  fixes w :: hproc
  assumes "ready_host E r w"
  shows "\<exists>w'. su_srv_open_shell_session E r w = Inr (Returns 0 w') \<and> idle (opened w')
    \<and> log_ready (world (opened w')) \<and> reading [] (world (opened w'))
    \<and> (\<exists>fd. bound fd (world (opened w'))) \<and> (\<exists>s. su_session w' = Some s \<and> complete s)"
proof -
  from assms have h: "healthy E" "4 \<le> sizeof_ptr E" "\<And>t. sizeof_of E t \<le> PTRDIFF_MAX E"
    "fresh_root E r (self_pid E) w" "int (c_strlen r) + 18 \<le> 108" "su_session w = None" "0 \<in> fst ` set (fds w)"
    "fds_ok w" "\<forall>t. fork_ret E t \<noteq> 0" by (simp_all add: ready_host_def)
  obtain w' where w': "su_srv_open_shell_session E r w = Inr (Returns 0 w')"
    and log: "fst (su_srv_log_init E r (self_pid E) (snd (su_srv_pfs_init E r w))) = 0"
    using open_healthy [OF h] by blast
  have "BUF_INITIAL_SIZE \<le> PTRDIFF_MAX E" using PTRDIFF_large [OF h(2)] by (simp add: BUF_INITIAL_SIZE_def)
  moreover have "mallocs E" using h(1) by (simp add: healthy_def mallocs_def)
  moreover have "int (c_strlen r) + 22 < 2 ^ 31" using h(5) by simp
  ultimately show ?thesis using w' open_use [OF w' h(8,9) _ log h(3) _ _ h(2)] by blast
qed

section \<open>Properties\<close>




section \<open>Instances\<close>

definition open_hproc :: hproc where
  "open_hproc = \<lparr>tick = 0, errno = 0, brk = 0, heap = [], nodes = (''/d'', NDir 448) # open_nodes, fds = sample_fds,
     acts = [], su_srv_log_path = None, su_srv_log_fptr = None, su_session = None,
     SU_SRV_SIGMASK = [], blocked = [], threads = [], handler_cells = [], signals = 0\<rparr>"

lemma open_hproc_fresh: "fresh_root sample_env ''/d'' 7 open_hproc"
proof -
  have "log_path ''/d'' 7 = ''/d/var/log/su-00007.log''" "session_path ''/d'' 7 = ''/d/var/run/su-00007''"
    by code_simp+
  moreover have "cstr ''/d'' = ''/d''" by code_simp
  ultimately show ?thesis
    by (simp add: fresh_root_def open_hproc_def open_nodes_def is_dir_def node_at_def pfs_paths_def)
qed

lemma open_hproc_ok:
  "healthy sample_env" "self_pid sample_env = 7" "su_session open_hproc = None" "0 \<in> fst ` set (fds open_hproc)"
  "fds_ok open_hproc" "\<forall>t. fork_ret sample_env t \<noteq> 0" "4 \<le> sizeof_ptr sample_env"
  "sizeof_of sample_env t \<le> PTRDIFF_MAX sample_env"
  by (simp_all add: sample_env_def healthy_def open_hproc_def sample_fds_def fds_ok_def PTRDIFF_MAX_def)

lemma short_root: "int (c_strlen ''/d'') = 2"
  by code_simp

lemma open_hproc_opens:
  obtains w' where "su_srv_open_shell_session sample_env ''/d'' open_hproc = Inr (Returns 0 w')"
    and "fst (su_srv_log_init sample_env ''/d'' 7 (snd (su_srv_pfs_init sample_env ''/d'' open_hproc))) = 0"
  using open_healthy [of sample_env "''/d''" open_hproc] open_hproc_ok open_hproc_fresh by (auto simp: short_root)


lemma open_hproc_ready: "ready_host sample_env ''/d'' open_hproc"
  using open_hproc_ok open_hproc_fresh by (simp add: ready_host_def short_root)



end
