(* ===== verification/Stale.thy ===== *)
theory Stale
  imports Opening
begin

text \<open>
  A name left at the rendez-vous path, by a process that crashed or by an earlier failure: no
  opening of a process with that PID removes it, and every one fails.
\<close>

section \<open>Attempts to open\<close>

definition stale :: "env \<Rightarrow> string \<Rightarrow> 'a process_scheme \<Rightarrow> bool" where
  "stale E r w \<longleftrightarrow> su_session w = None \<and> fds_ok w \<and> cstr r \<noteq> [] \<and> places w (session_path r (self_pid E)) \<noteq> None
     \<and> int (c_strlen r) + 22 < 2 ^ 31 \<and> 4 \<le> sizeof_ptr E"

definition opens :: "env \<Rightarrow> string \<Rightarrow> 'a process_scheme \<Rightarrow> int \<Rightarrow> 'a process_scheme \<Rightarrow> bool" where
  "opens E r w e w' \<longleftrightarrow> su_srv_open_shell_session E r w = Inr (Returns e w')"

lemma stale_same:
  assumes "stale E r w" and "su_session w' = su_session w" and "fds w' = fds w" and "places w' = places w"
  shows "stale E r w'"
  using assms by (simp add: stale_def fds_ok_def)

lemma stale_pfs:
  assumes "stale E r w"
  shows "stale E r (snd (su_srv_pfs_init E r w))"
proof -
  let ?q = "session_path r (self_pid E)" and ?w = "snd (su_srv_pfs_init E r w)"
  have ne: "cstr r \<noteq> []" using assms by (simp add: stale_def)
  from assms obtain n where n: "node_at w ?q = Some n" by (auto simp: stale_def places_def)
  have "?q \<noteq> cstr r @ ''/tmp''" using fresh_names(2) [OF ne, of "self_pid E"] by (auto simp: pfs_paths_def)
  then have "node_at ?w ?q = Some n" using pfs_keeps [OF n ne, of E] by simp
  moreover note q = quiet_pfs_init [of w E r]
  have "su_session ?w = su_session w" using process_more(1) [OF quiet_frame(4) [OF q]] .
  ultimately show ?thesis using assms quiet_frame(2) [OF q] by (simp add: stale_def fds_ok_def places_def)
qed

lemma fopen_outside:
  "places w q \<noteq> None \<Longrightarrow> places (snd (c_fopen_append E p w)) q \<noteq> None"
  "fds_ok w \<Longrightarrow> fds_ok (snd (c_fopen_append E p w))"
  using lowest_free_nonneg [of "fds w"]
  by (cases rule: c_fopen_append_cases [of E p w]; auto simp: places_def node_at_def fds_ok_def)+

lemma stale_log:
  fixes w :: "'a process_scheme"
  assumes "stale E r w"
  shows "stale E r (snd (su_srv_log_init E r pid w))"
proof -
  have size: "int (c_strlen r) + 22 < 2 ^ 31" "4 \<le> sizeof_ptr E" using assms by (simp_all add: stale_def)
  let ?w = "snd (su_srv_log_init E r pid w)" and ?m = "snd (c_malloc E (int (c_strlen r) + 22) w)"
  have s: "su_session ?w = su_session w"
    using log_init_frame(2) [of E r pid w] by (cases w; cases ?w) simp
  have m: "fds (?m\<lparr>su_srv_log_path := p\<rparr>) = fds w" "places (?m\<lparr>su_srv_log_path := p\<rparr>) = places w" for p
    by (simp_all add: c_malloc_def ask_def places_eq)
  have f: "fds (v\<lparr>su_srv_log_fptr := p\<rparr>) = fds v" for v :: "'a process_scheme" and p by simp
  have "places ?w q \<noteq> None" if "places w q \<noteq> None" for q
    using fopen_outside(1) [of "?m\<lparr>su_srv_log_path := p\<rparr>" q E for p] that
    by (auto simp: su_srv_log_init_eq [OF size] Let_def split_beta m places_fptr)
  moreover have "fds_ok w" using assms by (simp add: stale_def)
  then have "fds_ok (?m\<lparr>su_srv_log_path := p\<rparr>)" for p by (simp add: fds_ok_def m)
  then have "fds_ok ?w"
    using fopen_outside(2) [of "?m\<lparr>su_srv_log_path := p\<rparr>" E for p]
    by (auto simp: su_srv_log_init_eq [OF size] Let_def split_beta fds_ok_def)
  ultimately show ?thesis using assms s by (simp add: stale_def)
qed

lemma stale_quieth:
  fixes w :: "'a process_scheme"
  assumes "stale E r w" and "quieth w w'" and "nodes w' = nodes w"
  shows "stale E r w'"
  by (rule stale_same [OF assms(1) process_more(1) [OF quieth_frame(3) [OF assms(2)]] quieth_frame(1) [OF assms(2)]
        places_same [OF assms(3)]])

lemma stale_lines: "stale E r w \<Longrightarrow> stale E r (open_lines s w)"
  by (rule stale_same; simp add: open_lines_def log_calls_outside same_bound_session(1) [OF log_calls_bound(1)])

text \<open>The rendez-vous fails, and the session that is deleted has no socket whose path to remove.\<close>

lemma stale_finish:
  fixes w :: "'a process_scheme"
  assumes st: "stale E r w" and s: "sun_path (afun_rdv_addr s) = session_path r (self_pid E)" "afun_client_fd s = 0"
      "block s \<noteq> 0"
    and rdv: "su_shell_session_af_un_rdv E s w = (p, s4, w4)"
    and fin: "open_finish SU_SRV_SYSTEM_ERR s4 w4 = Inr (Returns e w')"
  shows "e = SU_SRV_SYSTEM_ERR" and "stale E r w'"
proof -
  have ok: "places w (sun_path (afun_rdv_addr s)) \<noteq> None" "fds_ok w" using st s(1) by (simp_all add: stale_def)
  from rdv_stale [OF ok rdv] have r4: "p = - 1" "s4 = s" "places w4 = places w" "fds_ok w4" by blast+
  have "su_session w4 = su_session w" using rdv_bound [OF rdv] same_bound_session(1) by blast
  with st r4 have st4: "stale E r w4" by (simp add: stale_def)
  from fin r4(2) have d: "su_shell_session_delete s w4 = Inr w'" and e: "e = SU_SRV_SYSTEM_ERR"
    by (auto simp: open_finish_def SU_SRV_SYSTEM_ERR_def split: sum.splits)
  from d have "shell_sync_mutex s \<noteq> 0" "shell_sync_ready s \<noteq> 0"
    by (auto simp: su_shell_session_delete_def destroy_mutexes_def split: if_splits)
  from session_delete_ok [OF this s(3), of w4] obtain v where v: "su_shell_session_delete s w4 = Inr v"
    "fds v = fds w4" "\<And>q. node_at v q = node_at w4 q" "os.more v = os.more w4"
    unfolding s(2) by (metis less_irrefl)
  have "places v = places w4" by (simp add: places_def v(3) fun_eq_iff)
  from stale_same [OF st4 process_more(1) [OF v(4)] v(2) this] have "stale E r v" .
  with v(1) d e show "e = SU_SRV_SYSTEM_ERR" "stale E r w'" by simp_all
qed

lemma stale_open_fails:
  fixes w :: "'a process_scheme"
  assumes st: "stale E r w" and run: "opens E r w e w'"
  shows "e = SU_SRV_SYSTEM_ERR \<and> stale E r w'"
proof -
  let ?q = "session_path r (self_pid E)"
  have un: "su_session w = None" and size: "int (c_strlen r) + 18 < 2 ^ 32" "4 \<le> sizeof_ptr E"
    using st by (simp_all add: stale_def)
  obtain e1 w1 where pfs: "su_srv_pfs_init E r w = (e1, w1)" by force
  define w2 where "w2 = snd (su_srv_log_init E r (self_pid E) w1)"
  have st1: "stale E r w1" using stale_pfs [OF st] by (simp add: pfs)
  then have st2: "stale E r w2" unfolding w2_def by (rule stale_log)
  note unf = opens_def su_srv_open_shell_session_def pfs un Let_def
  show ?thesis
  proof (cases "e1 = 0")
    case False
    with run st1 show ?thesis by (simp add: unf)
  next
    case True
    show ?thesis
    proof (cases rule: session_new_cases [OF size, of "self_pid E" w2, case_names none some])
      case (none w3)
      with run True have "e = SU_SRV_SYSTEM_ERR" "w' = w3" by (simp_all add: unf flip: w2_def)
      with stale_quieth [OF st2 none(2,3)] show ?thesis by simp
    next
      case (some s w3)
      let ?w = "open_lines s w3"
      have st3: "stale E r ?w" by (rule stale_lines [OF stale_quieth [OF st2 some(2,3)]])
      have s: "sun_path (afun_rdv_addr s) = session_path r (self_pid E)" using some(12) by simp
      obtain p s4 w4 where rdv: "su_shell_session_af_un_rdv E s ?w = (p, s4, w4)" using prod_cases3 by blast
      have "p = - 1" using rdv_stale [OF _ _ rdv] st3 s by (simp add: stale_def)
      with run some(1) rdv True have "open_finish SU_SRV_SYSTEM_ERR s4 w4 = Inr (Returns e w')"
        by (simp add: unf open_lines_def flip: w2_def)
      from stale_finish [OF st3 s some(8,5) rdv this] show ?thesis by simp
    qed
  qed
qed

text \<open>With memory every attempt returns.\<close>

lemma stale_open_returns:
  fixes w :: "'a process_scheme"
  assumes st: "stale E r w" and M: "mallocs E"
    and size: "\<And>t. sizeof_of E t \<le> PTRDIFF_MAX E" "BUF_INITIAL_SIZE \<le> PTRDIFF_MAX E"
  shows "\<exists>e w'. opens E r w e w'"
proof -
  have un: "su_session w = None" and len: "int (c_strlen r) + 18 < 2 ^ 32" "4 \<le> sizeof_ptr E"
    using st by (simp_all add: stale_def)
  obtain e1 w1 where pfs: "su_srv_pfs_init E r w = (e1, w1)" by force
  define w2 where "w2 = snd (su_srv_log_init E r (self_pid E) w1)"
  have "stale E r w1" using stale_pfs [OF st] by (simp add: pfs)
  then have st2: "stale E r w2" unfolding w2_def by (rule stale_log)
  note unf = opens_def su_srv_open_shell_session_def pfs un Let_def
  show ?thesis
  proof (cases rule: session_new_cases [OF len, of "self_pid E" w2, case_names none some])
    case (none w3)
    then show ?thesis by (simp add: unf flip: w2_def)
  next
    case (some s w3)
    have st3: "stale E r (open_lines s w3)" by (rule stale_lines [OF stale_quieth [OF st2 some(2,3)]])
    have s: "sun_path (afun_rdv_addr s) = session_path r (self_pid E)" using some(12) by simp
    obtain p s4 w4 where rdv: "su_shell_session_af_un_rdv E s (open_lines s w3) = (p, s4, w4)" using prod_cases3 by blast
    have r4: "p = - 1" "s4 = s" using rdv_stale [OF _ _ rdv] st3 s by (simp_all add: stale_def)
    have "complete s" using session_new_complete [OF some(1) M size] by blast
    then have "shell_sync_mutex s \<noteq> 0" "shell_sync_ready s \<noteq> 0" "block s \<noteq> 0" by (simp_all add: complete_def)
    then obtain w' where "su_shell_session_delete s w4 = Inr w'" by (rule session_delete_ok)
    with some(1) rdv r4 show ?thesis by (simp add: unf open_finish_def open_lines_def flip: w2_def)
  qed
qed

interpretation attempts: invariant_of "stale E r" "\<lambda>w w'. \<exists>e. opens E r w e w'" "stale E r" for E r
  by standard (auto dest: stale_open_fails)

section \<open>Properties\<close>

text \<open>C40: A name left at the rendez-vous path locks a process with that PID out: every opening, after any
  number of attempts and whatever the system grants, returns \<open>SU_SRV_SYSTEM_ERR\<close>, binds
  nothing and leaves the name there.\<close>

theorem stale_path_locks_out:
  fixes w :: "'a process_scheme"
  assumes "node_at w (session_path r (self_pid E)) \<noteq> None" and "su_session w = None" and "fds_ok w"
    and "cstr r \<noteq> []" and "int (c_strlen r) + 22 < 2 ^ 31" and "4 \<le> sizeof_ptr E"
    and "(\<lambda>w w'. \<exists>e. opens E r w e w')\<^sup>*\<^sup>* w w'" and "opens E r w' e w''"
  shows "e = SU_SRV_SYSTEM_ERR \<and> su_session w'' = None \<and> node_at w'' (session_path r (self_pid E)) \<noteq> None"
proof -
  have "stale E r w" using assms(1-6) by (simp add: stale_def places_def)
  from stale_open_fails [OF attempts.reach_inv [OF this assms(7)] assms(8)] show ?thesis
    by (simp add: stale_def places_def)
qed

section \<open>Instances\<close>

definition stale_hproc :: hproc where
  "stale_hproc = open_hproc\<lparr>nodes := (''/d/var/run/su-00007'', NSock) # nodes open_hproc\<rparr>"

lemma stale_sample: "stale sample_env ''/d'' stale_hproc"
proof -
  have "session_path ''/d'' 7 = ''/d/var/run/su-00007''" "cstr ''/d'' = ''/d''" by code_simp+
  then show ?thesis using open_hproc_ok by (simp add: stale_def stale_hproc_def places_def node_at_def fds_ok_def short_root)
qed

theorem stale_path_locks_out_witness:
  "\<exists>w'. opens sample_env ''/d'' stale_hproc SU_SRV_SYSTEM_ERR w' \<and> su_session w' = None"
proof -
  have "node_at stale_hproc (session_path ''/d'' (self_pid sample_env)) \<noteq> None" "su_session stale_hproc = None"
    "fds_ok stale_hproc" "cstr ''/d'' \<noteq> []" "int (c_strlen ''/d'') + 22 < 2 ^ 31" "4 \<le> sizeof_ptr sample_env"
    using stale_sample by (simp_all add: stale_def places_def)
  note locked = stale_path_locks_out [OF this rtranclp.rtrancl_refl]
  have "BUF_INITIAL_SIZE \<le> PTRDIFF_MAX sample_env"
    by (simp add: BUF_INITIAL_SIZE_def PTRDIFF_MAX_def sample_env_def)
  then obtain e w' where "opens sample_env ''/d'' stale_hproc e w'"
    using stale_open_returns [OF stale_sample sample_env_ok(3) open_hproc_ok(8)] by blast
  with locked [OF this] show ?thesis by blast
qed

end
