(* ===== verification/Client.thy ===== *)
theory Client
  imports Opening
begin

text \<open>
  The example client (\<open>jni/main.c\<close>): it opens a session below the current directory, runs two
  commands, exits and prints what each call returned. It is a program over the calls of the
  library, so its theorems put all components together: the opening, the threads, the shell's
  answers and the exit.
\<close>

section \<open>The code\<close>

text \<open>Where the main thread is: before and within a call of exec, before and within exit, at the end.\<close>

datatype mpc = MCall nat | MWait nat | MExit | MExiting | MFree | MReturned

text \<open>The library with its threads, the block of the path, and what was printed, in order.\<close>

record client =
  sys :: conc
  mpc :: mpc
  root_block :: nat
  printed :: "string list"

definition main_cmds :: "string list" where
  "main_cmds = [''id'', ''undefined_command'']"

definition exec_line :: "nat \<Rightarrow> int \<Rightarrow> string" where
  "exec_line n rval =
     c_format ([''id() exit code: %d'', ''undefined_command() exit code: %d''] ! n @ [LF]) [FInt rval]"

definition opened_line :: string where "opened_line = ''shell session opened'' @ [LF]"
definition failed_line :: string where "failed_line = ''failed to open SU shell session !'' @ [LF]"

definition closed_line :: "int \<Rightarrow> string" where
  "closed_line r =
     (if r \<noteq> 0 then ''failed to properly close shell session'' @ [LF]
      else ''shell session should have gracefully close'' @ [LF])"

text \<open>
  \<open>main\<close> up to its first \<open>printf\<close>. Neither \<open>malloc\<close> nor \<open>getcwd\<close> is checked: \<open>cwd\<close> is what the
  latter writes, \<open>None\<close> when it fails, as for a path that does not fit the buffer.
\<close>

definition main_start :: "env \<Rightarrow> string option \<Rightarrow> hproc \<Rightarrow> (client, unit) run c_result" where
  "main_start E cwd w =
     (let (pfs_root, w) = c_malloc E 255 w
      in if pfs_root = 0 then Inl NullDeref
         else case cwd of
           None \<Rightarrow> Inl UninitRead
         | Some path \<Rightarrow>
             if 255 \<le> length path then Inl UninitRead
             else case su_srv_open_shell_session E path w of
               Inl f \<Rightarrow> Inl f
             | Inr (Becomes path argv envp t) \<Rightarrow> Inr (Becomes path argv envp t)
             | Inr (Returns e w) \<Rightarrow>
                 Inr (Returns
                   (if e \<noteq> 0 then
                      \<lparr>sys = (opened w)\<lparr>hp := HDone\<rparr>, mpc = MFree, root_block = pfs_root, printed = [failed_line]\<rparr>
                    else
                      \<lparr>sys = opened w, mpc = MCall 0, root_block = pfs_root, printed = [opened_line]\<rparr>) ()))"

text \<open>The next step of the main thread outside the library; within a call it has none.\<close>

definition main_step :: "client \<Rightarrow> client option" where
  "main_step m =
     (let c = sys m in
      case mpc m of
        MCall n \<Rightarrow> Some (m\<lparr>sys := c\<lparr>xs := xs c @ [(main_cmds ! n, XStart)]\<rparr>, mpc := MWait n\<rparr>)
      | MWait n \<Rightarrow>
          (case xpc_of c n of
             XDone rval \<Rightarrow>
               Some (m\<lparr>printed := printed m @ [exec_line n rval], mpc := (if n = 0 then MCall 1 else MExit)\<rparr>)
           | _ \<Rightarrow> None)
      | MExit \<Rightarrow> Some (m\<lparr>sys := c\<lparr>ep := EStart\<rparr>, mpc := MExiting\<rparr>)
      | MExiting \<Rightarrow>
          (case ep c of
             EDone r \<Rightarrow> Some (m\<lparr>printed := printed m @ [closed_line r], mpc := MFree\<rparr>)
           | _ \<Rightarrow> None)
      | MFree \<Rightarrow> Some (m\<lparr>sys := c\<lparr>world := c_free (root_block m) (world c)\<rparr>, mpc := MReturned\<rparr>)
      | MReturned \<Rightarrow> None)"

section \<open>The program and its shell\<close>

text \<open>
  The client with the threads of the library and a shell that answers its commands as in theory
  Sequential; it ends once it was stopped. A process whose main has returned does nothing more.
\<close>

inductive client_step :: "env \<Rightarrow> answers \<Rightarrow> client \<times> nat \<Rightarrow> client \<times> nat \<Rightarrow> bool" for E A where
  Main: "fault (sys m) = None \<Longrightarrow> main_step m = Some m' \<Longrightarrow>
    client_step E A (m, k) (m', case mpc m of MCall n \<Rightarrow> 0 | _ \<Rightarrow> k)"
| Library: "mpc m \<noteq> MReturned \<Longrightarrow> polite E A (sys m, k) (c', k') \<Longrightarrow> length (xs c') = length (xs (sys m)) \<Longrightarrow>
    client_step E A (m, k) (m\<lparr>sys := c'\<rparr>, k')"
| Exit: "mpc m \<noteq> MReturned \<Longrightarrow> fault (sys m) = None \<Longrightarrow> wakes n (sys m) \<Longrightarrow> exit_step E n (sys m) = Some c' \<Longrightarrow>
    client_step E A (m, k) (m\<lparr>sys := c'\<rparr>, k)"
| Ends: "mpc m \<noteq> MReturned \<Longrightarrow> fault (sys m) = None \<Longrightarrow> \<not> eof (sys m) \<Longrightarrow> ep (sys m) = EJoin \<Longrightarrow>
    client_step E A (m, k) (m\<lparr>sys := (sys m)\<lparr>eof := True\<rparr>\<rparr>, k)"

text \<open>Its library is used as theory Conc allows.\<close>

lemma main_step_uses:
  assumes "main_step m = Some m'" and "fault (sys m) = None" and "mpc m = MExit \<Longrightarrow> ep (sys m) = EIdle"
  shows "mpc m = MFree \<or> (cstep E)\<^sup>*\<^sup>* (sys m) (sys m')"
proof (cases "mpc m")
  case (MCall n)
  with assms(1) r_into_rtranclp [of "cstep E", OF cstep.Call_exec [OF assms(2), of _ "main_cmds ! n"]] show ?thesis
    by (auto simp: main_step_def Let_def)
next
  case MExit
  with assms(1) r_into_rtranclp [of "cstep E", OF cstep.Call_exit [OF assms(2,3)]] show ?thesis
    by (auto simp: main_step_def Let_def)
qed (use assms in \<open>auto simp: main_step_def Let_def split: xpc.splits epc.splits\<close>)

section \<open>A session being closed\<close>

definition whole :: "conc \<Rightarrow> bool" where
  "whole c \<longleftrightarrow> (\<exists>s. su_session (world c) = Some s \<and> complete s)"

text \<open>
  No call is under way and nothing is left to read; exit is at some step, with the handler where it
  can be then: it leaves its loop only after the shell was stopped, and finds the mutex taken.
\<close>

fun exit_stage :: "epc \<Rightarrow> hpc \<Rightarrow> bool \<Rightarrow> tid option \<Rightarrow> bool" where
  "exit_stage EStart h e t \<longleftrightarrow> h \<in> {HStart, HRead} \<and> \<not> e \<and> t = None"
| "exit_stage ETry h e t \<longleftrightarrow> h \<in> {HStart, HRead} \<and> \<not> e \<and> t = None"
| "exit_stage EStop h e t \<longleftrightarrow> h \<in> {HStart, HRead} \<and> \<not> e \<and> t = Some TExit"
| "exit_stage EJoin h e t \<longleftrightarrow> h \<in> {HStart, HRead, HTry, HSignal, HTry2, HDone} \<and> t = Some TExit"
| "exit_stage EInval h e t \<longleftrightarrow> h = HDone"
| "exit_stage (EDone r) h e t \<longleftrightarrow> h = HDone \<or> h \<in> {HStart, HRead, HTry, HSignal, HTry2} \<and> t = Some TExit"
| "exit_stage _ h e t \<longleftrightarrow> False"

text \<open>
  What steps leave of the outside of a session: they are settled when descriptors, names and the
  session's own pointers stay; a release closes its socket and removes its path.
\<close>

definition settled :: "hproc \<Rightarrow> hproc \<Rightarrow> bool" where
  "settled w w' \<longleftrightarrow> fds w' = fds w \<and> places w' = places w
     \<and> map_option ptrs (su_session w') = map_option ptrs (su_session w)"

definition released :: "hproc \<Rightarrow> hproc \<Rightarrow> bool" where
  "released w w' \<longleftrightarrow> su_session w' = None \<and> (\<exists>s. su_session w = Some s
     \<and> fds w' = (if 0 < afun_client_fd s then AList.delete (afun_client_fd s) (fds w) else fds w)
     \<and> (\<forall>q. places w' q = (if 0 < afun_client_fd s \<and> q = sun_path (afun_rdv_addr s) \<and> \<not> is_dir w q
          then None else places w q)))"

lemma settled_refl [simp]: "settled w w"
  by (simp add: settled_def)

lemma settled_upd [simp]:
  "settled w (w\<lparr>signals := k\<rparr>)" "settled w (w\<lparr>tick := k\<rparr>)"
  by (simp_all add: settled_def places_eq)

lemma settled_trans [trans]: "settled u v \<Longrightarrow> settled v w \<Longrightarrow> settled u w"
  by (simp add: settled_def)

lemma settled_printf [simp]:
  "settled w (su_srv_log_printf fmt args v) = settled w v" "released w (su_srv_log_printf fmt args v) = released w v"
  by (simp_all add: settled_def released_def log_calls_outside)

lemma invalidate_released:
  fixes w :: hproc
  assumes "su_session w = Some s" and "complete s"
  obtains w' where "invalidate_current_session w = Inr w'" and "released w w'"
    and "su_srv_log_fptr w' = su_srv_log_fptr w"
proof -
  have "shell_sync_mutex s \<noteq> 0" "shell_sync_ready s \<noteq> 0" "block s \<noteq> 0" using assms(2) by (simp_all add: complete_def)
  then obtain w' where w': "invalidate_current_session w = Inr w'" "su_session w' = None"
    "fds w' = (if afun_client_fd s > 0 then AList.delete (afun_client_fd s) (fds w) else fds w)"
    "\<And>q. node_at w' q =
      (if afun_client_fd s > 0 \<and> q = sun_path (afun_rdv_addr s) \<and> \<not> is_dir w q then None else node_at w q)"
    "su_srv_log_fptr w' = su_srv_log_fptr w"
    using invalidate_run [OF assms(1)] by blast
  then have "released w w'" using assms(1) by (auto simp: released_def places_def)
  with w' that show thesis by blast
qed

lemma hframe_settled: "hframe w w' \<Longrightarrow> settled w w'"
  by (simp add: hframe_def settled_def)

lemma waits_settled:
  fixes w :: hproc
  assumes "waits w w'"
  shows "settled w w'"
proof -
  have "su_session w' = su_session w" using waits_frame(4) [OF assms] by (cases w; cases w') simp
  with waits_frame(1,5) [OF assms] show ?thesis by (simp add: settled_def)
qed

definition closing :: "int \<Rightarrow> conc \<Rightarrow> bool" where
  "closing fd c \<longleftrightarrow> fault c = None \<and> waiters c = [] \<and> inp c = [] \<and> su_srv_log_fptr (world c) \<noteq> None
     \<and> (\<forall>i < length (xs c). \<exists>r. xpc_of c i = XDone r)
     \<and> exit_stage (ep c) (hp c) (eof c) (owner c)
     \<and> (hp c \<noteq> HDone \<or> ep c \<in> {EJoin, EInval} \<longrightarrow> whole c)
     \<and> (ep c = EDone 0 \<longrightarrow> su_session (world c) = None)
     \<and> (ep c \<in> {EStart, ETry, EStop} \<longrightarrow> bound fd (world c))"

text \<open>The environment in which stopping works: the last poll reaps the shell, the handler is joined.\<close>

definition stoppable :: "env \<Rightarrow> bool" where
  "stoppable E \<longleftrightarrow> (\<forall>t. fails E PthreadJoin t = 0) \<and> (\<forall>pid t. last (polls E pid t 3) = pid)"

lemma printf_fptr: "su_srv_log_fptr (su_srv_log_printf fmt args w) = None \<longleftrightarrow> su_srv_log_fptr w = None"
  by (auto simp: su_srv_log_printf_def Let_def split_beta split: option.splits)

lemma closing_free: "closing fd (c\<lparr>world := c_free a (world c)\<rparr>) = closing fd c"
  by (simp add: closing_def whole_def c_free_def bound_def calm_def log_fd_def)

lemma closing_exec: "closing fd c \<Longrightarrow> i < length (xs c) \<Longrightarrow> exec_step i c = None"
  by (auto simp: closing_def exec_step_def split: xpc.splits)

lemma wake_nobody: "waiters c = [] \<Longrightarrow> wake n c = c"
  by (simp add: wake_def)

lemma bound_signals [simp]: "bound fd (w\<lparr>signals := k\<rparr>) = bound fd w"
  by (simp add: bound_def calm_def log_fd_def)

lemma closing_moved:
  assumes "closing fd c" and "exit_stage (ep c) h (eof c) (owner c)" and "hp c \<noteq> HDone"
  shows "closing fd (c\<lparr>hp := h\<rparr>)" and "closing fd (c\<lparr>world := (world c)\<lparr>signals := k\<rparr>, hp := h\<rparr>)"
    and "closing fd (c\<lparr>hp := h, hfd := fd', hoff := off\<rparr>)"
  using assms by (simp_all add: closing_def whole_def)

lemma closing_handler:
  assumes cl: "closing fd c" and run: "handler_step E n c = Some c'"
  shows "closing fd c' \<and> ep c' = ep c \<and> xs c' = xs c \<and> settled (world c) (world c')"
proof -
  have h: "hp c \<in> {HStart, HRead, HTry, HSignal, HTry2}" and st: "exit_stage (ep c) (hp c) (eof c) (owner c)"
    using cl run by (cases "ep c"; auto simp: closing_def handler_step_def)+
  with cl obtain s where s: "su_session (world c) = Some s" "shell_sync_mutex s \<noteq> 0" "shell_sync_ready s \<noteq> 0"
    by (auto simp: closing_def whole_def complete_def)
  have m: "the_mutex c = Inr (shell_sync_mutex s)" "deref (world c) = Inr s"
    "signal_ready (world c) = Inr ((world c)\<lparr>signals := Suc (signals (world c))\<rparr>)"
    using s by (simp_all add: the_mutex_def deref_def signal_ready_def)
  have w: "waiters c = []" "inp c = []" "su_srv_log_fptr (world c) \<noteq> None" using cl by (simp_all add: closing_def)
  show ?thesis
  proof (cases "hp c")
    case HStart
    with run w(3) st closing_moved(3) [OF cl, of HRead] show ?thesis
      by (cases "ep c") (auto simp: handler_step_def run_def handler_start_def)
  next
    case HRead
    with run w(2) m st closing_moved(1) [OF cl, of HTry] show ?thesis
      by (cases "ep c") (auto simp: handler_step_def split: if_splits)
  next
    case HTry
    with run m st closing_moved(1) [OF cl, of HSignal] show ?thesis
      by (cases "ep c") (auto simp: handler_step_def run_def)
  next
    case HSignal
    with run m st w(1) closing_moved(2) [OF cl, of HTry2] show ?thesis
      by (cases "ep c") (auto simp: handler_step_def run_def wake_nobody)
  next
    case HTry2
    with run m st closing_moved(1) [OF cl, of HDone] show ?thesis
      by (cases "ep c") (auto simp: handler_step_def run_def)
  qed (use h in simp_all)
qed

text \<open>The steps of exit, to its end.\<close>

fun exit_left :: "epc \<Rightarrow> nat" where
  "exit_left EIdle = 8"
| "exit_left EStart = 7"
| "exit_left ETry = 6"
| "exit_left ESignal = 5"
| "exit_left ELock = 4"
| "exit_left EStop = 3"
| "exit_left EJoin = 2"
| "exit_left EInval = 1"
| "exit_left (EDone r) = 0"

definition exit_moved :: "env \<Rightarrow> int \<Rightarrow> conc \<Rightarrow> conc \<Rightarrow> bool" where
  "exit_moved E fd c c' \<longleftrightarrow> closing fd c' \<and> xs c' = xs c \<and> hp c' = hp c \<and> eof c' = eof c
     \<and> (settled (world c) (world c') \<or> released (world c) (world c'))
     \<and> exit_left (ep c') < exit_left (ep c) \<and> (stoppable E \<longrightarrow> (\<forall>r. ep c' = EDone r \<longrightarrow> r = 0))"

lemma closing_stop:
  assumes cl: "closing fd c" and pc: "ep c = EStop" and run: "exit_step E n c = Some c'"
  shows "exit_moved E fd c c'"
proof -
  let ?w0 = "su_srv_log_printf ''SU shell sesion shutdown request'' [] (world c)"
  from cl pc have b: "bound fd (world c)" by (simp add: closing_def)
  have "hp c \<noteq> HDone" using cl pc by (auto simp: closing_def)
  with cl obtain s where s: "su_session (world c) = Some s" "complete s" by (auto simp: closing_def whole_def)
  have "logs (world c) ?w0" using b by (simp add: log_calls_logs bound_def)
  then have b0: "bound fd ?w0" using hframe_bound(1) [OF logs_hframe b] by blast
  have s0: "su_session ?w0 = Some s" using s(1) by simp
  have "calm ?w0" "map_of (fds ?w0) (afun_client_fd s) = Some FConn" using b0 s0 by (auto simp: bound_def)
  then obtain w1 where w1: "shell_stop_process E s ?w0 =
      Inr (if last (polls E (shell_pid s) (tick ?w0) 3) = shell_pid s then 0 else - 1, w1)" "waits ?w0 w1"
    using stop_process_run [OF _ s0, of E s] by metis
  have "su_session w1 = su_session ?w0" using waits_frame(4) [OF w1(2)] by (cases w1; cases "?w0") simp
  then have s1: "su_session w1 = Some s" using s0 by simp
  have "log_fd w1 = log_fd ?w0" using w1(2) by (simp add: waits_def)
  then have f1: "su_srv_log_fptr w1 \<noteq> None"
    using cl printf_fptr [of "''SU shell sesion shutdown request''" "[]" "world c"] by (auto simp: log_fd_def closing_def)
  let ?ok = "last (polls E (shell_pid s) (tick ?w0) 3) = shell_pid s"
  have st: "exit_stage EStop (hp c) (eof c) (owner c)" using cl pc by (simp add: closing_def)
  have "settled (world c) ?w0" by simp
  then have se: "settled (world c) w1" using waits_settled [OF w1(2)] by (rule settled_trans)
  show ?thesis
  proof (cases ?ok)
    case True
    then have "c' = c\<lparr>world := w1, ep := EJoin\<rparr>" using run pc s0 w1(1) by (simp add: exit_step_def run_def deref_def Let_def)
    with cl st s s1 f1 se pc show ?thesis by (auto simp: exit_moved_def closing_def whole_def)
  next
    case False
    then have "c' = c\<lparr>world := su_srv_log_printf ''SU shell session closed'' []
        (su_srv_log_printf ''Failed to stop SU shell, expect zombies !'' [] w1), ep := EDone (- 1)\<rparr>"
      using run pc s0 w1(1) by (simp add: exit_step_def run_def deref_def Let_def)
    moreover have "\<not> stoppable E" using False by (auto simp: stoppable_def)
    ultimately show ?thesis using cl st s s1 f1 se pc by (auto simp: exit_moved_def closing_def whole_def printf_fptr)
  qed
qed

lemma closing_exit:
  assumes cl: "closing fd c" and run: "exit_step E n c = Some c'"
  shows "exit_moved E fd c c'"
proof (cases "ep c")
  case EStart
  with cl run show ?thesis by (auto simp: exit_moved_def exit_step_def closing_def whole_def)
next
  case ETry
  then have "whole c" "owner c = None" using cl by (auto simp: closing_def)
  then have "c' = c\<lparr>owner := Some TExit, ep := EStop\<rparr>"
    using run ETry by (auto simp: exit_step_def run_def the_mutex_def deref_def whole_def complete_def)
  with cl ETry show ?thesis by (auto simp: exit_moved_def closing_def whole_def)
next
  case EStop
  with cl run closing_stop show ?thesis by blast
next
  case EJoin
  then obtain s where s: "su_session (world c) = Some s" "complete s" using cl by (auto simp: closing_def whole_def)
  let ?e = "fails E PthreadJoin (tick (world c))" and ?w = "(world c)\<lparr>tick := Suc (tick (world c))\<rparr>"
  have w: "su_session ?w = Some s" "su_srv_log_fptr ?w \<noteq> None" using s(1) cl by (simp_all add: closing_def)
  consider "?e \<noteq> 0" "c' = c\<lparr>world := su_srv_log_printf ''SU shell session closed'' []
        (su_srv_log_printf ''Failed to join handler, expect zombies !'' [] ?w), ep := EDone ?e\<rparr>"
    | "?e = 0" "hp c = HDone" "c' = c\<lparr>world := ?w, ep := EInval\<rparr>"
    using run EJoin s by (auto simp: exit_step_def deref_def complete_def ask_def Let_def split: if_splits)
  then show ?thesis
  proof cases
    case 1
    then have "\<not> stoppable E" by (auto simp: stoppable_def)
    with 1 cl EJoin s w show ?thesis by (auto simp: exit_moved_def closing_def whole_def printf_fptr)
  next
    case 2
    with cl EJoin s w show ?thesis by (auto simp: exit_moved_def closing_def whole_def)
  qed
next
  case EInval
  then obtain s where s: "su_session (world c) = Some s" "complete s" and h: "hp c = HDone"
    using cl by (auto simp: closing_def whole_def)
  obtain w where w: "invalidate_current_session (world c) = Inr w" "released (world c) w"
    "su_srv_log_fptr w = su_srv_log_fptr (world c)" by (rule invalidate_released [OF s])
  then have "su_session w = None" by (simp add: released_def)
  have "c' = c\<lparr>world := su_srv_log_printf ''SU shell session closed'' [] w, ep := EDone 0\<rparr>"
    using run EInval w(1) by (simp add: exit_step_def run_def)
  with cl EInval w h \<open>su_session w = None\<close> show ?thesis by (auto simp: exit_moved_def closing_def printf_fptr)
qed (use cl run in \<open>auto simp: closing_def exit_step_def\<close>)

section \<open>The invariant of the program\<close>

text \<open>A session in use keeps its blocks.\<close>

lemma whole_ptrs:
  "map_option ptrs (su_session (world c')) = map_option ptrs (su_session (world c)) \<Longrightarrow> whole c' = whole c"
  by (cases "su_session (world c)"; cases "su_session (world c')")
    (auto simp: whole_def ptrs_def complete_def)

lemma polite_settled:
  assumes inv: "one_at_a_time E A fd (c, k)" and inv': "one_at_a_time E A fd (c', k')"
    and step: "polite E A (c, k) (c', k')"
  shows "settled (world c) (world c')"
  using step
proof cases
  case (Exec i)
  have b: "bound fd (world c)" using inv by (simp add: one_at_a_time_def)
  then obtain s where s: "su_session (world c) = Some s" by (auto simp: bound_def)
  have "keeps (world c) (world c')" using exec_step_safe [OF b Exec(4)] by simp
  then show ?thesis using s by (auto simp: keeps_def settled_def)
next
  case (Handler n)
  from inv have h: "hp c \<in> {HStart, HRead}" "logged c" by (simp_all add: one_at_a_time_def)
  have f: "fault c' = None" using inv' by (simp add: one_at_a_time_def)
  show ?thesis
  proof (cases "hp c = HStart")
    case True
    with Handler(4) f show ?thesis by (auto simp: handler_step_def run_def split: sum.splits)
  next
    case False
    then have r: "hp c = HRead" using h(1) by simp
    have "settled (world c) w'" if "handler_byte E (hfd c) b (hoff c) (world c) = Inr (off, w')" for b off w'
      by (rule hframe_settled, rule handler_byte_frame [OF that log_fd_file]) (use h(2) r in \<open>simp_all add: logged_def\<close>)
    with r Handler(4) f show ?thesis
      by (auto simp: handler_step_def run_def split: sum.splits list.splits if_splits)
  qed
qed simp_all

lemma polite_whole:
  "one_at_a_time E A fd (c, k) \<Longrightarrow> one_at_a_time E A fd (c', k') \<Longrightarrow> polite E A (c, k) (c', k') \<Longrightarrow> whole c' = whole c"
  by (rule whole_ptrs) (drule (2) polite_settled, simp add: settled_def)

text \<open>Between two calls nothing is under way: the session can be closed.\<close>

lemma rested_closing:
  assumes inv: "one_at_a_time E A fd (c, k)" and all: "all_returned c" and "whole c" and ne: "xs c \<noteq> []"
  shows "closing fd (c\<lparr>ep := EStart\<rparr>)"
proof -
  from inv have f: "fault c = None" "\<not> eof c" "hp c \<in> {HStart, HRead}" "lock_ok c" "exec_owned c"
    "bound fd (world c)" "logged c" and call: "call_ok E A c k (length (xs c) - 1)"
    using ne by (auto simp: one_at_a_time_def split: if_splits)
  have l: "length (xs c) - 1 < length (xs c)" using ne by simp
  then obtain r where r: "xpc_of c (length (xs c) - 1) = XDone r" using all unfolding all_returned_def by blast
  have "at_rest c" using call_ok_done [OF call r] by simp
  moreover have "waiters c = []" using last_waiter [OF inv] r by simp
  moreover have "owner c = None"
  proof (rule ccontr)
    assume "owner c \<noteq> None"
    with f(5) obtain j where "owner c = Some (TExec j)" by (auto simp: exec_owned_def)
    with f(4) have "j < length (xs c)" "holds (xpc_of c j)" by (auto simp: lock_ok_def holders_def)
    with all show False by (auto simp: all_returned_def)
  qed
  moreover have "su_srv_log_fptr (world c) \<noteq> None" using f(7) by (auto simp: logged_def elim: log_readyE)
  ultimately show ?thesis
    using f all assms(3) by (auto simp: closing_def at_rest_def all_returned_def whole_def)
qed

text \<open>What main has printed before its \<open>n\<close>-th line.\<close>

definition main_lines :: "answers \<Rightarrow> string list" where
  "main_lines A = [opened_line, exec_line 0 (int (snd (A 0))), exec_line 1 (int (snd (A 1)))]"

definition client_inv :: "env \<Rightarrow> answers \<Rightarrow> int \<Rightarrow> client \<times> nat \<Rightarrow> bool" where
  "client_inv E A fd = (\<lambda>(m, k). let c = sys m in
     (case mpc m of
        MCall n \<Rightarrow> n < 2 \<and> length (xs c) = n \<and> one_at_a_time E A fd (c, k) \<and> whole c \<and> all_returned c
          \<and> printed m = take (Suc n) (main_lines A)
      | MWait n \<Rightarrow> n < 2 \<and> length (xs c) = Suc n \<and> one_at_a_time E A fd (c, k) \<and> whole c
          \<and> printed m = take (Suc n) (main_lines A)
      | MExit \<Rightarrow> length (xs c) = 2 \<and> one_at_a_time E A fd (c, k) \<and> whole c \<and> all_returned c
          \<and> printed m = main_lines A
      | MExiting \<Rightarrow> closing fd c \<and> (stoppable E \<longrightarrow> (\<forall>r. ep c = EDone r \<longrightarrow> r = 0)) \<and> printed m = main_lines A
      | MFree \<Rightarrow> closing fd c \<and> (\<exists>r. ep c = EDone r \<and> (stoppable E \<longrightarrow> r = 0)
          \<and> printed m = main_lines A @ [closed_line r])
      | MReturned \<Rightarrow> closing fd c \<and> (\<exists>r. ep c = EDone r \<and> (stoppable E \<longrightarrow> r = 0)
          \<and> printed m = main_lines A @ [closed_line r])))"

lemma last_returned:
  assumes inv: "one_at_a_time E A fd (c, k)" and "length (xs c) = Suc n" and "xpc_of c n = XDone r"
  shows "all_returned c"
  unfolding all_returned_def
proof (intro allI impI)
  fix i assume "i < length (xs c)"
  with assms show "\<exists>r. xpc_of c i = XDone r"
    by (cases "Suc i < length (xs c)") (auto simp: one_at_a_time_def less_Suc_eq)
qed

text \<open>The main thread.\<close>

lemma client_main:
  assumes inv: "client_inv E A fd (m, k)" and run: "main_step m = Some m'"
  shows "client_inv E A fd (m', case mpc m of MCall n \<Rightarrow> 0 | _ \<Rightarrow> k)"
proof (cases "mpc m")
  case (MCall n)
  with inv have i: "n < 2" "length (xs (sys m)) = n" "one_at_a_time E A fd (sys m, k)" "whole (sys m)"
    "all_returned (sys m)" "printed m = take (Suc n) (main_lines A)" by (simp_all add: client_inv_def Let_def)
  have "one_at_a_time E A fd ((sys m)\<lparr>xs := xs (sys m) @ [(main_cmds ! n, XStart)]\<rparr>, 0)"
    using polite_call [OF i(3)] i(5) by (simp add: all_returned_def)
  with MCall run i show ?thesis by (auto simp: main_step_def client_inv_def Let_def whole_def)
next
  case (MWait n)
  with inv have i: "n < 2" "length (xs (sys m)) = Suc n" "one_at_a_time E A fd (sys m, k)" "whole (sys m)"
    "printed m = take (Suc n) (main_lines A)" by (simp_all add: client_inv_def Let_def)
  from run MWait obtain r where r: "xpc_of (sys m) n = XDone r"
    and m': "m' = m\<lparr>printed := printed m @ [exec_line n r], mpc := (if n = 0 then MCall 1 else MExit)\<rparr>"
    by (auto simp: main_step_def Let_def split: xpc.splits)
  have "r = int (snd (A n))" using one_at_a_time_done [OF i(3) _ r] i(2) by simp
  with i(1,5) have "printed m' = take (Suc (Suc n)) (main_lines A)"
    by (auto simp: m' main_lines_def less_Suc_eq numeral_2_eq_2)
  with MWait i m' last_returned [OF i(3,2) r] show ?thesis
    by (cases "n = 0") (auto simp: client_inv_def Let_def main_lines_def)
next
  case MExit
  with inv have i: "length (xs (sys m)) = 2" "one_at_a_time E A fd (sys m, k)" "whole (sys m)"
    "all_returned (sys m)" "printed m = main_lines A" by (simp_all add: client_inv_def Let_def)
  then have "xs (sys m) \<noteq> []" by auto
  from rested_closing [OF i(2,4,3) this] MExit run i(5) show ?thesis
    by (auto simp: main_step_def client_inv_def Let_def)
next
  case MExiting
  with inv run show ?thesis by (auto simp: main_step_def client_inv_def Let_def split: epc.splits)
next
  case MFree
  then have "m' = m\<lparr>sys := (sys m)\<lparr>world := c_free (root_block m) (world (sys m))\<rparr>, mpc := MReturned\<rparr>"
    using run by (simp add: main_step_def Let_def)
  with inv MFree show ?thesis by (simp add: client_inv_def closing_free Let_def)
qed (use run in \<open>simp add: main_step_def Let_def\<close>)

text \<open>A step of the library.\<close>

lemma polite_returned:
  assumes "one_at_a_time E A fd (c, k)" and "one_at_a_time E A fd (c', k')"
    and "polite E A (c, k) (c', k')" and "length (xs c') = length (xs c)" and "all_returned c"
  shows "all_returned c'"
  using polite_done [OF assms(1-3)] assms(4,5) unfolding all_returned_def by metis

text \<open>What is left of the handler once nothing is to be read.\<close>

fun handler_left :: "hpc \<Rightarrow> nat" where
  "handler_left HStart = 8"
| "handler_left HRead = 7"
| "handler_left HTry = 6"
| "handler_left HSignal = 5"
| "handler_left HTry2 = 4"
| "handler_left HStop = 3"
| "handler_left HInval = 2"
| "handler_left HLog = 1"
| "handler_left HDone = 0"

lemma handler_left_step:
  "handler_step E n c = Some c' \<Longrightarrow> inp c = [] \<Longrightarrow> fault c' = None \<Longrightarrow>
   handler_left (hp c') < handler_left (hp c) \<and> ep c' = ep c \<and> eof c' = eof c"
  by (cases "hp c") (auto simp: handler_step_def run_def split: sum.splits if_splits)

lemma closing_polite:
  assumes cl: "closing fd c" and step: "polite E A (c, k) (c', k')" and same: "length (xs c') = length (xs c)"
  shows "closing fd c' \<and> ep c' = ep c \<and> eof c' = eof c \<and> handler_left (hp c') < handler_left (hp c)"
  using step
proof cases
  case (Exec i)
  with closing_exec [OF cl] show ?thesis by simp
next
  case (Handler n)
  note c = closing_handler [OF cl Handler(4)]
  then have "fault c' = None" "inp c = []" using cl by (simp_all add: closing_def)
  with handler_left_step [OF Handler(4)] c show ?thesis by blast
next
  case Answer
  then have "length (xs c) - 1 < length (xs c)" by simp
  moreover have "\<forall>i < length (xs c). \<exists>r. xpc_of c i = XDone r" using cl by (simp add: closing_def)
  ultimately obtain r where "xpc_of c (length (xs c) - 1) = XDone r" by blast
  with Answer show ?thesis by simp
qed (use same in simp)

lemma client_step_inv:
  assumes inv: "client_inv E A fd s" and step: "client_step E A s s'"
    and env: "good_answers A" "ptr_ok E" "reallocs E" "mallocs E"
  shows "client_inv E A fd s'"
  using step
proof cases
  case (Main m m' k)
  with inv client_main show ?thesis by simp
next
  case (Library m k c' k')
  note step = Library(4)
  have use: "one_at_a_time E A fd (c', k') \<and> whole c' = whole (sys m) \<and> (all_returned (sys m) \<longrightarrow> all_returned c')"
    if o: "one_at_a_time E A fd (sys m, k)"
  proof -
    have o': "one_at_a_time E A fd (c', k')" by (rule polite_step [OF env o step])
    show ?thesis using o' polite_whole [OF o o' step] polite_returned [OF o o' step Library(5)] by blast
  qed
  have cl: "closing fd (sys m) \<Longrightarrow> closing fd c' \<and> ep c' = ep (sys m)"
    using closing_polite [OF _ step Library(5)] by blast
  show ?thesis
    by (cases "mpc m") (use inv Library(1,2,3,5) use cl in \<open>auto simp: client_inv_def Let_def\<close>)
next
  case (Exit m n c' k)
  have cl: "closing fd (sys m) \<Longrightarrow> exit_moved E fd (sys m) c'" using closing_exit Exit(6) by blast
  have idle: "ep (sys m) \<noteq> EIdle" "\<And>r. ep (sys m) \<noteq> EDone r" using Exit(6) by (auto simp: exit_step_def)
  show ?thesis
    by (cases "mpc m") (use inv Exit(1,2,3) cl idle in
      \<open>auto simp: client_inv_def Let_def one_at_a_time_def exit_moved_def\<close>)
next
  case (Ends m k)
  have cl: "closing fd (sys m) \<Longrightarrow> closing fd ((sys m)\<lparr>eof := True\<rparr>)"
    using Ends(6) by (auto simp: closing_def whole_def)
  show ?thesis
    by (cases "mpc m") (use inv Ends cl in \<open>auto simp: client_inv_def Let_def one_at_a_time_def\<close>)
qed

section \<open>The start\<close>

text \<open>What an opening reads of the process is the same after the block of the path was allocated.\<close>

lemma ready_host_malloc:
  assumes "ready_host E r w"
  shows "ready_host E r (snd (c_malloc E n w))"
proof -
  have "is_dir (snd (c_malloc E n w)) = is_dir w" "node_at (snd (c_malloc E n w)) = node_at w"
    "fds (snd (c_malloc E n w)) = fds w" "su_session (snd (c_malloc E n w)) = su_session w"
    by (auto simp: c_malloc_def ask_def is_dir_def node_at_def fun_eq_iff)
  with assms show ?thesis by (simp add: ready_host_def fresh_root_def fds_ok_def)
qed

lemma main_started:
  assumes "ready_host E r w" and "length r < 255" and "good_answers A"
  obtains m fd where "main_start E (Some r) w = Inr (Returns m ())" and "client_inv E A fd (m, 0)"
proof -
  let ?w = "snd (c_malloc E 255 w)"
  have "255 \<le> PTRDIFF_MAX E" "healthy E" using assms(1) PTRDIFF_large by (simp_all add: ready_host_def)
  then have p: "fst (c_malloc E 255 w) \<noteq> 0" by (simp add: healthy_malloc_eq)
  obtain w' fd s where w': "su_srv_open_shell_session E r ?w = Inr (Returns 0 w')" "idle (opened w')"
    "log_ready (world (opened w'))" "reading [] (world (opened w'))" "bound fd (world (opened w'))"
    "su_session w' = Some s" "complete s"
    using open_ready [OF ready_host_malloc [OF assms(1)]] by blast
  let ?m = "\<lparr>sys = opened w', mpc = MCall 0, root_block = fst (c_malloc E 255 w), printed = [opened_line]\<rparr>"
  have "main_start E (Some r) w = Inr (Returns ?m ())"
    using p assms(2) w'(1) by (simp add: main_start_def Let_def split_beta)
  moreover have "one_at_a_time E A fd (opened w', 0)"
    using w'(2-5) lock.start_inv [OF w'(2)]
    by (simp add: one_at_a_time_def idle_def at_rest_def logged_def exec_owned_def)
  then have "client_inv E A fd (?m, 0)"
    using w'(6,7) by (simp add: client_inv_def opened_def whole_def all_returned_def main_lines_def)
  ultimately show thesis by (rule that)
qed

definition client_start :: "env \<Rightarrow> answers \<Rightarrow> int \<Rightarrow> client \<times> nat \<Rightarrow> bool" where
  "client_start E A fd s \<longleftrightarrow> client_inv E A fd s \<and> good_answers A \<and> ptr_ok E \<and> reallocs E \<and> mallocs E"

lemma client_start_step: "client_start E A fd s \<Longrightarrow> client_step E A s s' \<Longrightarrow> client_start E A fd s'"
  by (auto simp: client_start_def intro: client_step_inv)

section \<open>The end\<close>

text \<open>What is left to do: for main, and within one of its calls for the library.\<close>

fun main_left :: "mpc \<Rightarrow> nat" where
  "main_left (MCall n) = 7 - 2 * n"
| "main_left (MWait n) = 6 - 2 * n"
| "main_left MExit = 3"
| "main_left MExiting = 2"
| "main_left MFree = 1"
| "main_left MReturned = 0"

definition call_left :: "answers \<Rightarrow> client \<times> nat \<Rightarrow> nat" where
  "call_left A = (\<lambda>(m, k). let c = sys m in
     (if mpc m \<in> {MExiting, MFree} then exit_left (ep c) + handler_left (hp c) + (if eof c then 0 else 1)
      else work_left A (c, k)))"

definition client_order :: "answers \<Rightarrow> ((client \<times> nat) \<times> (client \<times> nat)) set" where
  "client_order A = inv_image (less_than <*lex*> less_than) (\<lambda>s. (main_left (mpc (fst s)), call_left A s))"

lemma wf_client_order: "wf (client_order A)"
  by (simp add: client_order_def wf_lex_prod)

lemma main_left_step: "main_step m = Some m' \<Longrightarrow> (\<And>n. mpc m = MCall n \<or> mpc m = MWait n \<Longrightarrow> n < 2)
    \<Longrightarrow> main_left (mpc m') < main_left (mpc m)"
  by (cases "mpc m") (auto simp: main_step_def Let_def less_Suc_eq numeral_2_eq_2 split: xpc.splits epc.splits)

lemma client_step_less:
  assumes inv: "client_start E A fd s" and step: "client_step E A s s'"
  shows "(s', s) \<in> client_order A"
proof -
  have inv': "client_inv E A fd s'" and i: "client_inv E A fd s"
    using client_start_step [OF inv step] inv by (simp_all add: client_start_def)
  show ?thesis
    using step
  proof cases
    case (Main m m' k)
    have "main_left (mpc m') < main_left (mpc m)"
      by (rule main_left_step [OF Main(4)]) (use i Main(1) in \<open>auto simp: client_inv_def Let_def\<close>)
    then show ?thesis by (simp add: client_order_def Main(1,2))
  next
    case (Library m k c' k')
    have use: "work_left A (c', k') < work_left A (sys m, k)"
      if "one_at_a_time E A fd (sys m, k)" "one_at_a_time E A fd (c', k')"
      using polite_work [OF that(1) Library(4) _ that(2)] Library(5) by (simp add: calls_def)
    note cl = closing_polite [OF _ Library(4,5)]
    show ?thesis
      by (cases "mpc m") (use i inv' use cl Library(1-3) in
        \<open>auto simp: client_order_def call_left_def client_inv_def Let_def\<close>)
  next
    case (Exit m n c' k)
    have "mpc m = MExiting"
      by (cases "mpc m") (use i Exit in \<open>auto simp: client_inv_def Let_def one_at_a_time_def exit_step_def\<close>)
    with i Exit closing_exit [of fd "sys m" E n c'] show ?thesis
      by (auto simp: client_order_def call_left_def client_inv_def Let_def exit_moved_def)
  next
    case (Ends m k)
    have "mpc m = MExiting"
      by (cases "mpc m") (use i Ends in \<open>auto simp: client_inv_def Let_def one_at_a_time_def\<close>)
    with Ends show ?thesis by (simp add: client_order_def call_left_def)
  qed
qed

text \<open>Until main returns there is a step.\<close>

lemma closing_moves:
  assumes cl: "closing fd c" and pc: "\<And>r. ep c \<noteq> EDone r"
  shows "(\<exists>c'. exit_step E 0 c = Some c') \<or> (\<exists>c'. handler_step E 0 c = Some c') \<or> ep c = EJoin \<and> \<not> eof c"
proof (cases "ep c")
  case EStart
  with cl show ?thesis by (auto simp: closing_def exit_step_def whole_def)
next
  case EJoin
  then obtain s where s: "su_session (world c) = Some s" "complete s" using cl by (auto simp: closing_def whole_def)
  have h: "hp c \<in> {HStart, HRead, HTry, HSignal, HTry2, HDone}" "inp c = []"
    using cl EJoin by (auto simp: closing_def)
  show ?thesis
  proof (cases "hp c = HDone")
    case True
    with EJoin s show ?thesis by (auto simp: exit_step_def deref_def complete_def ask_def Let_def)
  next
    case False
    with h EJoin s show ?thesis by (auto simp: handler_step_def deref_def)
  qed
qed (use cl pc in \<open>auto simp: closing_def exit_step_def Let_def\<close>)

lemma client_exits:
  assumes st: "client_start E A fd (m, k)" and pc: "mpc m = MExiting"
  shows "\<exists>s'. client_step E A (m, k) s'"
proof -
  have ne: "mpc m \<noteq> MReturned" using pc by simp
  have cl: "closing fd (sys m)" using st pc by (simp add: client_start_def client_inv_def Let_def)
  then have f: "fault (sys m) = None" and w: "wakes 0 (sys m)" by (simp_all add: closing_def wakes_def)
  show ?thesis
  proof (cases "\<exists>r. ep (sys m) = EDone r")
    case True
    then have "main_step m \<noteq> None" using pc by (auto simp: main_step_def Let_def)
    with client_step.Main [OF f] show ?thesis by blast
  next
    case False
    then have "\<And>r. ep (sys m) \<noteq> EDone r" by blast
    from closing_moves [OF cl this, of E] show ?thesis
    proof (elim disjE exE conjE)
      fix c' assume "exit_step E 0 (sys m) = Some c'"
      with client_step.Exit [OF ne f w] show ?thesis by blast
    next
      fix c' assume run: "handler_step E 0 (sys m) = Some c'"
      have "polite E A (sys m, k) (c', k)" by (rule polite.Handler [OF f w run])
      moreover have "length (xs c') = length (xs (sys m))" using closing_handler [OF cl run] by simp
      ultimately show ?thesis using client_step.Library [OF ne] by blast
    next
      assume "ep (sys m) = EJoin" "\<not> eof (sys m)"
      with client_step.Ends [OF ne f] show ?thesis by blast
    qed
  qed
qed

lemma client_moves:
  assumes "client_start E A fd (m, k)" and "mpc m \<noteq> MReturned"
  shows "\<exists>s'. client_step E A (m, k) s'"
proof -
  from assms(1) have i: "client_inv E A fd (m, k)" and env: "good_answers A" "ptr_ok E" "reallocs E" "mallocs E"
    by (simp_all add: client_start_def)
  have f: "fault (sys m) = None"
    using i by (cases "mpc m") (auto simp: client_inv_def Let_def one_at_a_time_def closing_def)
  have main: "\<exists>s'. client_step E A (m, k) s'" if "main_step m \<noteq> None" using client_step.Main [OF f] that by blast
  show ?thesis
  proof (cases "mpc m")
    case (MWait n)
    with i have use: "one_at_a_time E A fd (sys m, k)" "n < length (xs (sys m))" by (simp_all add: client_inv_def Let_def)
    show ?thesis
    proof (cases "\<exists>r. xpc_of (sys m) n = XDone r")
      case True
      with MWait show ?thesis by (intro main) (auto simp: main_step_def Let_def)
    next
      case False
      then obtain c' k' where "polite E A (sys m, k) (c', k')" "calls (c', k') = calls (sys m, k)"
        using polite_moves [OF use _ env] by force
      with client_step.Library [OF assms(2)] show ?thesis by (force simp: calls_def)
    qed
  next
    case MExiting
    from client_exits [OF assms(1) this] show ?thesis .
  next
    case (MCall n)
    then show ?thesis by (intro main) (simp add: main_step_def Let_def)
  next
    case MExit
    then show ?thesis by (intro main) (simp add: main_step_def Let_def)
  next
    case MFree
    then show ?thesis by (intro main) (simp add: main_step_def Let_def)
  next
    case MReturned
    with assms(2) show ?thesis ..
  qed
qed

interpretation client: ending "client_start E A fd" "client_step E A" "client_start E A fd" "client_order A"
    "\<lambda>s. mpc (fst s) = MReturned" for E A fd
proof
  fix s s' assume s: "client_start E A fd s"
  show "client_step E A s s' \<Longrightarrow> client_start E A fd s'" by (rule client_start_step [OF s])
  show "client_step E A s s' \<Longrightarrow> (s', s) \<in> client_order A" by (rule client_step_less [OF s])
  show "mpc (fst s) \<noteq> MReturned \<Longrightarrow> \<exists>s'. client_step E A s s'"
    using client_moves [of E A fd "fst s" "snd s"] s by simp
qed (assumption, rule wf_client_order)

text \<open>In every state no thread is undefined, and a beginning of the lines has been printed.\<close>

lemma client_printed:
  assumes i: "client_inv E A fd (m, k)"
  shows "fault (sys m) = None \<and> (\<exists>n x. printed m = take n (main_lines A @ [closed_line x])
    \<and> (stoppable E \<longrightarrow> x = 0) \<and> (mpc m = MReturned \<longrightarrow> 4 \<le> n))"
proof
  show "fault (sys m) = None"
    using i by (cases "mpc m") (auto simp: client_inv_def Let_def one_at_a_time_def closing_def)
  have before: "\<exists>n x. printed m = take n (main_lines A @ [closed_line x]) \<and> (stoppable E \<longrightarrow> x = 0)
      \<and> (mpc m = MReturned \<longrightarrow> 4 \<le> n)"
    if "printed m = take n (main_lines A)" "n \<le> 3" "mpc m \<noteq> MReturned" for n
  proof -
    have "length (main_lines A) = 3" by (simp add: main_lines_def)
    with that show ?thesis by (intro exI [of _ n] exI [of _ 0]) simp
  qed
  have last: "\<exists>n x. printed m = take n (main_lines A @ [closed_line x]) \<and> (stoppable E \<longrightarrow> x = 0)
      \<and> (mpc m = MReturned \<longrightarrow> 4 \<le> n)"
    if "printed m = main_lines A @ [closed_line r]" "stoppable E \<longrightarrow> r = 0" for r
    using that by (intro exI [of _ 4] exI [of _ r]) (simp add: main_lines_def)
  show "\<exists>n x. printed m = take n (main_lines A @ [closed_line x]) \<and> (stoppable E \<longrightarrow> x = 0)
      \<and> (mpc m = MReturned \<longrightarrow> 4 \<le> n)"
  proof (cases "mpc m")
    case (MCall n)
    with i before [of "Suc n"] show ?thesis by (simp add: client_inv_def Let_def)
  next
    case (MWait n)
    with i before [of "Suc n"] show ?thesis by (simp add: client_inv_def Let_def)
  next
    case MExit
    with i before [of 3] show ?thesis by (simp add: client_inv_def Let_def main_lines_def)
  next
    case MExiting
    with i before [of 3] show ?thesis by (simp add: client_inv_def Let_def main_lines_def)
  next
    case MFree
    with i last show ?thesis by (auto simp: client_inv_def Let_def)
  next
    case MReturned
    with i last show ?thesis by (auto simp: client_inv_def Let_def)
  qed
qed

section \<open>Properties\<close>



section \<open>Instances\<close>

lemma sample_stoppable: "stoppable sample_env"
proof -
  have "last (polls sample_env pid t 3) = pid" for pid t
    by (simp add: numeral_3_eq_3 poll_def) (simp add: sample_env_def)
  then show ?thesis by (simp add: stoppable_def) (simp add: sample_env_def)
qed

lemma sample_client:
  obtains m0 m k where "main_start sample_env (Some ''/d'') open_hproc = Inr (Returns m0 ())"
    and "(client_step sample_env sample_answers)\<^sup>*\<^sup>* (m0, 0) (m, k)" and "mpc m = MReturned"
proof -
  have "length ''/d'' < 255" by simp
  then obtain m0 fd where m0: "main_start sample_env (Some ''/d'') open_hproc = Inr (Returns m0 ())"
    "client_inv sample_env sample_answers fd (m0, 0)"
    by (rule main_started [OF open_hproc_ready _ sample_answer(2)])
  then have "client_start sample_env sample_answers fd (m0, 0)"
    using sample_answer(2) sample_env_ok by (simp add: client_start_def)
  from client.ends [OF this] that m0(1) show thesis by auto
qed



text \<open>The lines of the sample client.\<close>

lemma sample_lines:
  "exec_line 0 3 = ''id() exit code: 3'' @ [LF]" "exec_line 1 3 = ''undefined_command() exit code: 3'' @ [LF]"
  by code_simp+

end
