(* ===== verification/Reuse.thy ===== *)
theory Reuse
  imports Client
begin

text \<open>
  What a session leaves behind. After a good exit the descriptors, the directory tree and the
  rendez-vous path are such that the process can open another session, so that the client can be
  run any number of times in one process.
\<close>

section \<open>A process that is ready for a session\<close>

text \<open>
  The outside of a process in use, over the kinds of the names and over the descriptors: the root
  and its tree are directories, the place of the log is a file or free, a candidate for the
  shell lies elsewhere than the rendez-vous path \<open>q\<close>, standard input is open.
\<close>

definition tidy :: "env \<Rightarrow> string \<Rightarrow> string \<Rightarrow> (string \<Rightarrow> nat option) \<Rightarrow> (int \<Rightarrow> fdesc option) \<Rightarrow> bool" where
  "tidy E r q P t \<longleftrightarrow> P (cstr r) = Some 0 \<and> (\<forall>p \<in> set (pfs_paths r). P p = None \<or> P p = Some 0)
     \<and> (P (log_path r (self_pid E)) = None \<or> P (log_path r (self_pid E)) = Some 1)
     \<and> (\<exists>p \<in> set (su_paths E). p \<noteq> q \<and> P p \<noteq> None)
     \<and> t 0 \<noteq> None \<and> (\<forall>fd. t fd \<noteq> None \<longrightarrow> 0 \<le> fd)"

text \<open>A session, when there is one, holds the rendez-vous path; otherwise the path is free.\<close>

definition homed :: "env \<Rightarrow> string \<Rightarrow> hproc \<Rightarrow> bool" where
  "homed E r w \<longleftrightarrow> (let q = session_path r (self_pid E) in tidy E r q (places w) (map_of (fds w))
     \<and> (case su_session w of
          None \<Rightarrow> places w q = None
        | Some s \<Rightarrow> sun_path (afun_rdv_addr s) = q \<and> 0 < afun_client_fd s \<and> places w q \<noteq> Some 0))"

lemma is_dir_places: "is_dir w p \<longleftrightarrow> places w p = Some 0"
  by (auto simp: is_dir_def places_def elim!: node_kind.elims split: option.splits node.splits)

lemma node_places: "node_at w p = None \<longleftrightarrow> places w p = None" "(\<exists>t. node_at w p = Some (NFile t)) \<longleftrightarrow> places w p = Some 1"
  by (auto simp: places_def elim!: node_kind.elims)

text \<open>Before a session the rendez-vous path is free.\<close>

lemma tidy_free:
  assumes "P q = None"
  shows "tidy E r q P t \<longleftrightarrow> P (cstr r) = Some 0 \<and> (\<forall>p \<in> set (pfs_paths r). P p = None \<or> P p = Some 0)
     \<and> (P (log_path r (self_pid E)) = None \<or> P (log_path r (self_pid E)) = Some 1)
     \<and> (\<exists>p \<in> set (su_paths E). P p \<noteq> None) \<and> t 0 \<noteq> None \<and> (\<forall>fd. t fd \<noteq> None \<longrightarrow> 0 \<le> fd)"
proof -
  have "(\<exists>p \<in> set (su_paths E). p \<noteq> q \<and> P p \<noteq> None) \<longleftrightarrow> (\<exists>p \<in> set (su_paths E). P p \<noteq> None)"
    by (rule bex_cong) (use assms in auto)
  then show ?thesis unfolding tidy_def by simp
qed

lemma fresh_root_iff:
  "fresh_root E r (self_pid E) w \<and> 0 \<in> fst ` set (fds w) \<and> fds_ok w \<longleftrightarrow> cstr r \<noteq> []
     \<and> places w (session_path r (self_pid E)) = None
     \<and> tidy E r (session_path r (self_pid E)) (places w) (map_of (fds w))"
proof -
  have zero: "0 \<in> fst ` set (fds w) \<longleftrightarrow> map_of (fds w) 0 \<noteq> None" by (simp add: map_of_eq_None_iff)
  show ?thesis
    unfolding fresh_root_def is_dir_places node_places fds_ok_map zero
    by (cases "places w (session_path r (self_pid E)) = None") (simp only: tidy_free; blast)+
qed

lemma ready_host_iff:
  "ready_host E r w \<longleftrightarrow> healthy E \<and> 4 \<le> sizeof_ptr E \<and> (\<forall>t. sizeof_of E t \<le> PTRDIFF_MAX E)
     \<and> (\<forall>t. fork_ret E t \<noteq> 0) \<and> cstr r \<noteq> [] \<and> int (c_strlen r) + 18 \<le> 108 \<and> su_session w = None \<and> homed E r w"
proof (cases "su_session w")
  case None
  then have "homed E r w \<and> cstr r \<noteq> [] \<longleftrightarrow> fresh_root E r (self_pid E) w \<and> 0 \<in> fst ` set (fds w) \<and> fds_ok w"
    unfolding fresh_root_iff by (auto simp: homed_def Let_def)
  then show ?thesis unfolding ready_host_def by blast
qed (simp add: ready_host_def)

lemma homed_settled:
  assumes "settled w w'" and "homed E r w"
  shows "homed E r w'"
  using assms by (auto simp: settled_def homed_def Let_def ptrs_def split: option.splits)

lemma homed_released:
  assumes "released w w'" and "homed E r w"
  shows "homed E r w'"
proof -
  let ?q = "session_path r (self_pid E)"
  from assms obtain s where s: "su_session w = Some s" "sun_path (afun_rdv_addr s) = ?q" "0 < afun_client_fd s"
    "places w ?q \<noteq> Some 0" and t: "tidy E r ?q (places w) (map_of (fds w))"
    by (auto simp: released_def homed_def Let_def)
  with assms(1) have w': "su_session w' = None" "map_of (fds w') = (map_of (fds w))(afun_client_fd s := None)"
    "places w' = (places w)(?q := None)"
    by (auto simp: released_def is_dir_places delete_conv' fun_eq_iff)
  have "tidy E r ?q (places w') (map_of (fds w'))" using t s(3,4) by (auto simp: tidy_def w'(2,3))
  with w' show ?thesis by (simp add: homed_def Let_def)
qed

section \<open>Opening\<close>

text \<open>The steps of an opening, on the names and the descriptors.\<close>

lemma tidy_pfs:
  assumes t: "tidy E r q (places w) t" and w': "node_at w' = pfs_spec E r w"
    and q: "q \<notin> set (pfs_paths r)" "log_path r (self_pid E) \<notin> set (pfs_paths r)"
  shows "tidy E r q (places w') t" and "places w' q = places w q"
proof -
  have p: "places w' p = places w p \<or> p \<in> set (pfs_paths r) \<and> places w' p = Some 0" for p
    by (simp add: places_def w' pfs_spec_def)
  then have same: "places w' x = places w x" if "x \<notin> set (pfs_paths r)" for x using that by blast
  show "places w' q = places w q" by (rule same [OF q(1)])
  from t obtain x where x: "x \<in> set (su_paths E)" "x \<noteq> q" "places w x \<noteq> None" by (auto simp: tidy_def)
  then have "places w' x \<noteq> None" using p [of x] by auto
  moreover have "places w' (cstr r) = Some 0" using p [of "cstr r"] t by (auto simp: tidy_def)
  moreover have "places w' y = None \<or> places w' y = Some 0" if "y \<in> set (pfs_paths r)" for y
    using p [of y] t that by (auto simp: tidy_def)
  ultimately show "tidy E r q (places w') t"
    using t x same [OF q(2)] unfolding tidy_def by auto
qed

lemma tidy_log:
  assumes "tidy E r q P t" and "\<And>p. P' p = (if p = log_path r (self_pid E) \<and> P p = None then Some 1 else P p)"
    and "t' = t(l \<mapsto> d)" and "0 \<le> l" and "log_path r (self_pid E) \<notin> set (pfs_paths r)"
  shows "tidy E r q P' t'"
  using assms by (auto simp: tidy_def)

lemma tidy_rdv:
  assumes "tidy E r q P t" and "P q = None" and "0 < c"
    and "q \<notin> set (pfs_paths r)" "q \<noteq> log_path r (self_pid E)"
  shows "tidy E r q (P(q \<mapsto> n)) (t(c \<mapsto> d))"
  using assms by (auto simp: tidy_def)

lemma open_homed:
  assumes "ready_host E r w" and run: "su_srv_open_shell_session E r w = Inr (Returns 0 w')"
  shows "homed E r (world (opened w'))"
proof -
  let ?q = "session_path r (self_pid E)"
  have h: "healthy E" "4 \<le> sizeof_ptr E" "\<And>t. sizeof_of E t \<le> PTRDIFF_MAX E"
    "fresh_root E r (self_pid E) w" "int (c_strlen r) + 18 \<le> 108" "su_session w = None" "0 \<in> fst ` set (fds w)"
    "fds_ok w" "\<forall>t. fork_ret E t \<noteq> 0" using assms(1) by (simp_all add: ready_host_def)
  have ne: "cstr r \<noteq> []" and t0: "tidy E r ?q (places w) (map_of (fds w))" "places w ?q = None"
    using assms(1) by (auto simp: ready_host_iff homed_def Let_def)
  note names = fresh_names [OF ne, of "self_pid E"]
  have size: "int (c_strlen r) + 22 < 2 ^ 31" "int (c_strlen r) + 18 < 2 ^ 32" "2 \<le> sizeof_ptr E" using h(2,5) by simp_all
  have log: "fst (su_srv_log_init E r (self_pid E) (snd (su_srv_pfs_init E r w))) = 0"
    using open_healthy [OF h] by blast
  obtain w1 w2 s w3 p s4 w4 s5 w5 where st: "su_srv_pfs_init E r w = (0, w1)"
    "snd (su_srv_log_init E r (self_pid E) w1) = w2" "su_shell_session_new E r (self_pid E) w2 = Inr (Some s, w3)"
    "su_shell_session_af_un_rdv E s (open_lines s w3) = (p, s4, w4)" "0 < p"
    "open_shell E p s4 w4 = Inr (Returns (0, s5) w5)" "w' = w5\<lparr>su_session := Some s5\<rparr>"
    by (rule open_stages [OF run])
  let ?w = "open_lines s w3"
  have q1: "quiet w w1" using quiet_pfs_init [of w E r] by (simp add: st(1))
  have "\<forall>p \<in> set (pfs_paths r). node_at w p = None \<or> is_dir w p" "is_dir w (cstr r)"
    using h(4) by (simp_all add: fresh_root_def)
  moreover have "int (c_strlen r) + 8 < PTRDIFF_MAX E" using h(5) PTRDIFF_large [OF h(2)] by simp
  ultimately have "node_at w1 = pfs_spec E r w" using pfs_init_healthy [OF h(1) _ ne] st(1) by force
  note t1 = tidy_pfs [OF t0(1) this names(2,1)]
  have w2: "su_srv_log_init E r (self_pid E) w1 = (0, w2)" using log st(1,2) by (simp add: prod_eq_iff)
  note li = log_init_ok [OF w2 size(1) h(2)]
  have p2: "places w2 x = (if x = log_path r (self_pid E) \<and> places w1 x = None then Some 1 else places w1 x)" for x
    using li by (cases "x = log_path r (self_pid E)") (auto simp: places_def)
  have f2: "map_of (fds w2) = (map_of (fds w))(lowest_free (fds w) \<mapsto> FFile (log_path r (self_pid E)))"
    using li quiet_frame(2) [OF q1] by simp
  have t2: "tidy E r ?q (places w2) (map_of (fds w2))"
    by (rule tidy_log [OF t1(1) p2 f2 lowest_free_nonneg names(1)])
  have n2: "places w2 ?q = None" using p2 t1(2) t0(2) names(3) by simp
  obtain "log_ready w2" "fds_ok w2" "su_session w2 = None"
    by (rule fresh_stages [OF h(1,2,4-8)]) (use st(1) w2 in simp)
  moreover have q3: "quieth w2 w3" "nodes w3 = nodes w2" "sun_path (afun_rdv_addr s) = ?q"
    by (cases rule: session_new_cases [OF size(2) h(2), of "self_pid E" w2, case_names none some]; use st(3) in simp)+
  moreover have "log_kept w2 ?w" by (rule log_kept_trans [OF log_kept_quiet(1) [OF q3(1,2)] open_lines_kept])
  ultimately have ready: "log_ready ?w" "fds_ok ?w" "su_session ?w = None" and same: "fds ?w = fds w2" "places ?w = places w2"
    using same_bound_session(1) [OF open_lines_bound [of w3 s]] process_more(1) [OF quieth_frame(3) [OF q3(1)]]
    by (simp_all add: log_kept_def fds_ok_def)
  note fin = rdv_shell_log [OF st(4,5) ready st(6) size(3) h(9)]
  then have "tidy E r ?q (places w5) (map_of (fds w5))"
    using tidy_rdv [OF t2 n2 _ names(2,3), of "afun_client_fd s5"] q3(3) same by simp
  moreover have "places w5 ?q = Some (node_kind NSock)" "sun_path (afun_rdv_addr s5) = ?q" "0 < afun_client_fd s5"
    using fin q3(3) by (cases s; cases s5; simp)+
  moreover have "places (world (opened w')) = places w5" "fds (world (opened w')) = fds w5"
    "su_session (world (opened w')) = Some s5"
    by (simp_all add: opened_idle(2) st(7) places_eq)
  ultimately show ?thesis by (simp add: homed_def Let_def)
qed

section \<open>The client\<close>

lemma main_homed:
  assumes "ready_host E r w" and "length r < 255" and run: "main_start E (Some r) w = Inr (Returns m ())"
  shows "homed E r (world (sys m))"
proof -
  let ?w = "snd (c_malloc E 255 w)"
  note ready = ready_host_malloc [OF assms(1), of 255]
  obtain w' where w': "su_srv_open_shell_session E r ?w = Inr (Returns 0 w')" using open_ready [OF ready] by blast
  have "255 \<le> PTRDIFF_MAX E" "healthy E" using assms(1) PTRDIFF_large by (simp_all add: ready_host_def)
  then have "fst (c_malloc E 255 w) \<noteq> 0" by (simp add: healthy_malloc_eq)
  then have "sys m = opened w'" using run assms(2) w' by (auto simp: main_start_def Let_def split_beta)
  with open_homed [OF ready w'] show ?thesis by simp
qed

lemma homed_free: "homed E r (c_free a w) = homed E r w"
proof -
  have "places (c_free a w) = places w" by (simp add: c_free_def places_eq)
  moreover have "fds (c_free a w) = fds w" "su_session (c_free a w) = su_session w" by (simp_all add: c_free_def)
  ultimately show ?thesis by (cases "su_session w") (simp_all add: homed_def)
qed

lemma main_step_homed: "main_step m = Some m' \<Longrightarrow> homed E r (world (sys m)) \<Longrightarrow> homed E r (world (sys m'))"
  by (cases "mpc m") (auto simp: main_step_def Let_def homed_free split: xpc.splits epc.splits)

lemma closing_polite_settled:
  assumes cl: "closing fd c" and "polite E A (c, k) (c', k')"
  shows "settled (world c) (world c')"
  using assms(2)
proof cases
  case (Exec i)
  with closing_exec [OF cl] show ?thesis by simp
next
  case (Handler n)
  with closing_handler [OF cl] show ?thesis by blast
qed simp_all

lemma client_step_homed:
  assumes st: "client_start E A fd s" and step: "client_step E A s s'" and h: "homed E r (world (sys (fst s)))"
  shows "homed E r (world (sys (fst s')))"
proof -
  have i: "client_inv E A fd s" "client_inv E A fd s'"
    using st client_start_step [OF st step] by (simp_all add: client_start_def)
  show ?thesis
    using step
  proof cases
    case (Main m m' k)
    with h main_step_homed show ?thesis by simp
  next
    case (Library m k c' k')
    have "settled (world (sys m)) (world c')"
    proof (cases "mpc m \<in> {MExiting, MFree}")
      case True
      with i(1) Library(1) have "closing fd (sys m)" by (auto simp: client_inv_def Let_def)
      then show ?thesis by (rule closing_polite_settled [OF _ Library(4)])
    next
      case False
      with i Library(1-3) have "one_at_a_time E A fd (sys m, k)" "one_at_a_time E A fd (c', k')"
        by (cases "mpc m"; simp add: client_inv_def Let_def)+
      then show ?thesis by (rule polite_settled [OF _ _ Library(4)])
    qed
    from homed_settled [OF this] h show ?thesis by (simp add: Library(1,2))
  next
    case (Exit m n c' k)
    have "closing fd (sys m)"
      by (cases "mpc m") (use i(1) Exit in \<open>auto simp: client_inv_def Let_def one_at_a_time_def exit_step_def\<close>)
    from closing_exit [OF this Exit(6)] have "settled (world (sys m)) (world c') \<or> released (world (sys m)) (world c')"
      by (simp add: exit_moved_def)
    with h show ?thesis using homed_settled homed_released by (auto simp: Exit(1,2))
  next
    case (Ends m k)
    with h show ?thesis by simp
  qed
qed

interpretation home: invariant_of "\<lambda>s. client_start E A fd s \<and> homed E r (world (sys (fst s)))" "client_step E A"
    "\<lambda>s. client_start E A fd s \<and> homed E r (world (sys (fst s)))" for E A fd r
  by standard (use client_start_step client_step_homed in blast)+

text \<open>One run of the client in a process, from one state of it to the next.\<close>

inductive client_run :: "env \<Rightarrow> answers \<Rightarrow> string \<Rightarrow> hproc \<Rightarrow> hproc \<Rightarrow> bool" for E A r where
  Run: "main_start E (Some r) w = Inr (Returns m0 ()) \<Longrightarrow> (client_step E A)\<^sup>*\<^sup>* (m0, 0) (m, k) \<Longrightarrow>
    mpc m = MReturned \<Longrightarrow> client_run E A r w (world (sys m))"

text \<open>The system, the caller and the shell of a run.\<close>

definition fair_host :: "env \<Rightarrow> answers \<Rightarrow> string \<Rightarrow> hproc \<Rightarrow> bool" where
  "fair_host E A r w \<longleftrightarrow> ready_host E r w \<and> ptr_ok E \<and> length r < 255 \<and> good_answers A \<and> stoppable E"

lemma fair_started:
  assumes "fair_host E A r w"
  obtains m0 fd where "main_start E (Some r) w = Inr (Returns m0 ())" and "client_start E A fd (m0, 0)"
    and "homed E r (world (sys m0))"
proof -
  have k: "ready_host E r w" "ptr_ok E" "length r < 255" "good_answers A" using assms by (simp_all add: fair_host_def)
  have env: "reallocs E" "mallocs E" using k(1) by (simp_all add: ready_host_def healthy_def reallocs_def mallocs_def)
  obtain m0 fd where m0: "main_start E (Some r) w = Inr (Returns m0 ())" "client_inv E A fd (m0, 0)"
    by (rule main_started [OF k(1,3,4)])
  then have "client_start E A fd (m0, 0)" using env k(2,4) by (simp add: client_start_def)
  with m0(1) main_homed [OF k(1,3)] that show thesis by blast
qed

lemma client_run_ready:
  assumes "fair_host E A r w" and "client_run E A r w w'"
  shows "fair_host E A r w'"
  using assms(2)
proof cases
  case (Run m0 m k)
  obtain m1 fd where m1: "main_start E (Some r) w = Inr (Returns m1 ())" "client_start E A fd (m1, 0)"
    "homed E r (world (sys m1))" by (rule fair_started [OF assms(1)])
  with Run(2) have "m1 = m0" by simp
  with m1 home.steps_inv [OF Run(3)] have e: "client_start E A fd (m, k)" "homed E r (world (sys m))" by force+
  have "stoppable E" using assms(1) by (simp add: fair_host_def)
  with e(1) Run(4) have "su_session w' = None"
    by (auto simp: Run(1) client_start_def client_inv_def Let_def closing_def)
  with assms(1) e(2) show ?thesis by (simp add: fair_host_def ready_host_iff Run(1))
qed

lemma client_run_exists:
  assumes "fair_host E A r w"
  shows "\<exists>w'. client_run E A r w w'"
proof -
  obtain m0 fd where m0: "main_start E (Some r) w = Inr (Returns m0 ())" "client_start E A fd (m0, 0)"
    by (rule fair_started [OF assms])
  from client.ends [OF m0(2)] obtain m k where "(client_step E A)\<^sup>*\<^sup>* (m0, 0) (m, k)" "mpc m = MReturned" by auto
  from client_run.Run [OF m0(1) this] show ?thesis ..
qed

interpretation reuse: invariant_of "fair_host E A r" "client_run E A r" "fair_host E A r" for E A r
  by standard (auto intro: client_run_ready)

section \<open>Properties\<close>


section \<open>Instances\<close>


end
