(* ===== verification/Tools.thy ===== *)
theory Tools
  imports Handler
begin

text \<open>
  The process tools (\<open>jni/su_shell_tools.c\<close>): the lookup of a process by name and the list of
  all processes, both a scan of \<open>/proc\<close>. What the kernel shows there is a parameter: the
  names \<open>readdir\<close> gives, and what each \<open>cmdline\<close> file holds when it is opened.
\<close>

section \<open>The view of /proc\<close>

text \<open>
  \<open>entries\<close>: the names in the order of \<open>readdir\<close>, \<open>None\<close> when \<open>opendir\<close> fails. \<open>cmdline n p\<close>:
  the bytes that a read from the file \<open>p\<close> finds when it is opened at the \<open>n\<close>-th entry,
  \<open>None\<close> when it cannot be opened or read: processes come and go during the scan.
\<close>

record procfs =
  entries :: "string list option"
  cmdline :: "nat \<Rightarrow> string \<Rightarrow> string option"

text \<open>The width of a \<open>long\<close>: that of a pointer on every supported target.\<close>

definition long_bits :: "env \<Rightarrow> nat" where "long_bits E = 8 * sizeof_ptr E"

section \<open>The code\<close>

definition PROC_TABLE_SIZE :: int where "PROC_TABLE_SIZE = 32"
definition PROC_TABLE_INC :: int where "PROC_TABLE_INC = 16"

text \<open>
  What both scans do with the entry \<open>n\<close>, up to the test of the name: the PID and the text in
  \<open>proc_entry_str\<close>, \<open>None\<close> when the entry is passed over. With an empty text the index of its
  last character is \<open>(size_t) 0 - 1\<close>, before the array.
\<close>

definition proc_entry :: "env \<Rightarrow> procfs \<Rightarrow> nat \<Rightarrow> string \<Rightarrow> (int \<times> string) option c_result" where
  "proc_entry E P n d_name =
     (let (lpid, endptr) = c_strtol (long_bits E) d_name
      in if endptr \<noteq> [] then Inr None
         else
           let proc_entry_path = c_buf (c_snprintf 255 ''/proc/%ld/cmdline'' [FInt lpid])
           in case cmdline P n proc_entry_path of
                None \<Rightarrow> Inr None
              | Some content \<Rightarrow>
                  (case c_fgets 255 content of
                     None \<Rightarrow> Inr None
                   | Some buf \<Rightarrow>
                       let proc_entry_str = cstr buf
                       in if proc_entry_str = [] then Inl OutOfBounds
                          else if last proc_entry_str = LF
                          then Inr (Some (lpid, butlast proc_entry_str))
                          else Inr (Some (lpid, proc_entry_str))))"

fun getpid_loop ::
  "env \<Rightarrow> procfs \<Rightarrow> string \<Rightarrow> nat \<Rightarrow> string list \<Rightarrow> int \<Rightarrow> int c_result" where
  "getpid_loop E P procname n [] procpid = Inr procpid"
| "getpid_loop E P procname n (d_name # names) procpid =
     (if procpid < 0 then
        c_bind (proc_entry E P n d_name) (\<lambda>entry.
          getpid_loop E P procname (Suc n) names
            (case entry of
               None \<Rightarrow> procpid
             | Some (lpid, str) \<Rightarrow> if cstr procname = str then lpid else procpid))
      else Inr procpid)"

definition su_srv_getpid :: "env \<Rightarrow> procfs \<Rightarrow> string \<Rightarrow> int c_result" where
  "su_srv_getpid E P procname =
     (case entries P of
        None \<Rightarrow> Inr (- 1)
      | Some names \<Rightarrow> getpid_loop E P procname 0 names (- 1))"

text \<open>
  An entry of the table; \<open>comm\<close> is the block it points to and the C string in it. The table
  is a block of \<open>length proc_cells\<close> entries, \<open>None\<close> while one is not filled in.
\<close>

record proc_def =
  pid :: int
  comm :: "nat \<times> string"

record proc_table =
  table_ptr :: nat
  proc_cells :: "proc_def option list"
  nproc :: int
  proc_table_n :: int

definition sizeof_proc_def :: "env \<Rightarrow> int" where
  "sizeof_proc_def E = 2 * int (sizeof_ptr E)"

definition new_table :: "env \<Rightarrow> 'a os_scheme \<Rightarrow> proc_table \<times> 'a os_scheme" where
  "new_table E w =
     (let (p, w) = c_malloc E (PROC_TABLE_SIZE * sizeof_proc_def E) w
      in (\<lparr>table_ptr = p, proc_cells = (if p = 0 then [] else replicate (nat PROC_TABLE_SIZE) None),
           nproc = 0, proc_table_n = PROC_TABLE_SIZE\<rparr>, w))"

definition grow_table :: "env \<Rightarrow> proc_table \<Rightarrow> 'a os_scheme \<Rightarrow> (proc_table \<times> 'a os_scheme) c_result" where
  "grow_table E t w =
     (if \<not> nproc t < proc_table_n t then
        if proc_table_n t + PROC_TABLE_INC > INT_MAX then Inl SignedOverflow
        else
          let n = proc_table_n t + PROC_TABLE_INC;
              size = c_size (sizeof_ptr E) (n * sizeof_proc_def E);
              (p, w) = c_realloc E (table_ptr t) size w;
              m = nat (size div sizeof_proc_def E)
          in Inr (t\<lparr>table_ptr := p, proc_table_n := n,
                proc_cells := (if p = 0 then []
                  else take m (proc_cells t) @ replicate (m - length (proc_cells t)) None)\<rparr>, w)
      else Inr (t, w))"

definition add_entry ::
  "env \<Rightarrow> int \<Rightarrow> string \<Rightarrow> proc_table \<Rightarrow> 'a os_scheme \<Rightarrow> (proc_table \<times> 'a os_scheme) c_result" where
  "add_entry E lpid str t w =
     c_bind (grow_table E t w) (\<lambda>(t, w).
       if table_ptr t = 0 then Inl NullDeref
       else if int (length (proc_cells t)) \<le> nproc t then Inl OutOfBounds
       else
         let (b, w) = c_malloc E (c_size (sizeof_ptr E) (int (c_strlen str) + 1)) w
         in if b = 0 then Inl NullDeref
            else Inr (t\<lparr>proc_cells := (proc_cells t)[nat (nproc t) := Some \<lparr>pid = lpid, comm = (b, str)\<rparr>],
                        nproc := nproc t + 1\<rparr>, w))"

fun proclist_loop ::
  "env \<Rightarrow> procfs \<Rightarrow> nat \<Rightarrow> string list \<Rightarrow> proc_table \<Rightarrow> 'a os_scheme
     \<Rightarrow> (proc_table \<times> 'a os_scheme) c_result" where
  "proclist_loop E P n [] t w = Inr (t, w)"
| "proclist_loop E P n (d_name # names) t w =
     c_bind (proc_entry E P n d_name) (\<lambda>entry.
       case entry of
         None \<Rightarrow> proclist_loop E P (Suc n) names t w
       | Some (lpid, str) \<Rightarrow>
           c_bind (add_entry E lpid str t w) (\<lambda>(t, w). proclist_loop E P (Suc n) names t w))"

definition su_srv_getproclist ::
  "env \<Rightarrow> procfs \<Rightarrow> 'a os_scheme \<Rightarrow> (int \<times> proc_table \<times> 'a os_scheme) c_result" where
  "su_srv_getproclist E P w =
     (let (t, w) = new_table E w
      in case entries P of
           None \<Rightarrow> Inr (nproc t, t, w)
         | Some names \<Rightarrow> c_bind (proclist_loop E P 0 names t w) (\<lambda>(t, w). Inr (nproc t, t, w)))"

section \<open>The reference\<close>

text \<open>
  What the scans are for: the processes with a name, in order. The name is the first argument
  of the command line up to its first line feed, at most 254 bytes of it.
\<close>

definition entry_text :: "string \<Rightarrow> string" where
  "entry_text content = takeWhile (\<lambda>c. c \<noteq> LF) (cstr (take 254 content))"

definition entry_of :: "env \<Rightarrow> procfs \<Rightarrow> nat \<times> string \<Rightarrow> (int \<times> string) option" where
  "entry_of E P = (\<lambda>(n, d_name).
     let (lpid, endptr) = c_strtol (long_bits E) d_name
     in if endptr \<noteq> [] then None
        else case cmdline P n (''/proc/'' @ show_int lpid @ ''/cmdline'') of
          None \<Rightarrow> None
        | Some content \<Rightarrow> if content = [] then None else Some (lpid, entry_text content))"

definition listing_from :: "env \<Rightarrow> procfs \<Rightarrow> nat \<Rightarrow> string list \<Rightarrow> (int \<times> string) list" where
  "listing_from E P n names = List.map_filter (entry_of E P) (enumerate n names)"

definition listing :: "env \<Rightarrow> procfs \<Rightarrow> (int \<times> string) list" where
  "listing E P = (case entries P of None \<Rightarrow> [] | Some names \<Rightarrow> listing_from E P 0 names)"

text \<open>The file that is read for an entry does not begin with a NUL, and for all entries.\<close>

definition clean :: "env \<Rightarrow> procfs \<Rightarrow> nat \<times> string \<Rightarrow> bool" where
  "clean E P = (\<lambda>(n, d_name).
     \<forall>content. cmdline P n (''/proc/'' @ show_int (fst (c_strtol (long_bits E) d_name)) @ ''/cmdline'') = Some content
       \<longrightarrow> content = [] \<or> hd content \<noteq> NUL)"

definition clean_from :: "env \<Rightarrow> procfs \<Rightarrow> nat \<Rightarrow> string list \<Rightarrow> bool" where
  "clean_from E P n names \<longleftrightarrow> (\<forall>e \<in> set (enumerate n names). clean E P e)"

definition no_blank :: "env \<Rightarrow> procfs \<Rightarrow> bool" where
  "no_blank E P \<longleftrightarrow> (case entries P of None \<Rightarrow> True | Some names \<Rightarrow> clean_from E P 0 names)"

lemma clean_from_simps [simp]:
  "clean_from E P n []" "clean_from E P n (d # ds) \<longleftrightarrow> clean E P (n, d) \<and> clean_from E P (Suc n) ds"
  by (simp_all add: clean_from_def)

lemma cstr_append_NUL: "NUL \<in> set a \<Longrightarrow> cstr (a @ b) = cstr a"
  by (induction a) (auto simp: cstr_def)

lemma set_cstr: "set (cstr s) \<subseteq> set s"
  by (auto simp: cstr_def dest: set_takeWhileD)

text \<open>The text left in the buffer after \<open>fgets\<close> and the removal of a line feed.\<close>

lemma fgets_text:
  assumes "content \<noteq> []" and "hd content \<noteq> NUL"
  obtains buf where "c_fgets 255 content = Some buf" and "cstr buf \<noteq> []"
    and "(if last (cstr buf) = LF then butlast (cstr buf) else cstr buf) = entry_text content"
proof -
  define t where "t = take 254 content"
  have t: "t \<noteq> []" "hd t \<noteq> NUL" using assms by (cases content; simp add: t_def)+
  have e: "entry_text content = takeWhile (\<lambda>c. c \<noteq> LF) (cstr t)" by (simp add: entry_text_def t_def)
  have f: "c_fgets 255 content = Some (if LF \<in> set t then takeWhile (\<lambda>c. c \<noteq> LF) t @ [LF] else t)"
    using assms(1) by (simp add: c_fgets_def t_def Let_def)
  show thesis
  proof (cases "LF \<in> set t")
    case False
    then have no: "LF \<notin> set (cstr t)" using set_cstr [of t] by blast
    have "cstr t \<noteq> []" using t by (cases t) (auto simp: cstr_def)
    with no e False f show thesis by (intro that [of t]) (auto dest: last_in_set)
  next
    case True
    then obtain a b where ab: "t = a @ LF # b" "LF \<notin> set a" by (meson split_list_first)
    then have f': "c_fgets 255 content = Some (a @ [LF])" using f by simp
    show thesis
    proof (cases "NUL \<in> set a")
      case True
      then have c: "cstr t = cstr a" "cstr (a @ [LF]) = cstr a"
        using ab(1) by (simp_all add: cstr_append_NUL)
      have no: "LF \<notin> set (cstr a)" using set_cstr [of a] ab(2) by blast
      have ne: "cstr a \<noteq> []" using t ab(1) True by (cases a) (auto simp: cstr_def)
      with no have "last (cstr a) \<noteq> LF" by (auto dest: last_in_set)
      with no ne e c f' show thesis by (intro that [of "a @ [LF]"]) auto
    next
      case False
      then have "cstr (a @ [LF]) = a @ [LF]" "cstr t = a @ LF # cstr b"
        using ab(1) by (simp, simp add: cstr_def)
      with e f' ab(2) show thesis by (intro that [of "a @ [LF]"]) simp_all
    qed
  qed
qed

lemma path_fits:
  assumes "ptr_ok E" and "c_strtol (long_bits E) s = (l, r)"
  shows "c_snprintf 255 ''/proc/%ld/cmdline'' [FInt l] = Some (''/proc/'' @ show_int l @ ''/cmdline'')"
proof -
  have two: "(2::int) ^ (long_bits E - 1) \<le> 2 ^ 127"
    using assms(1) by (intro power_increasing) (auto simp: ptr_ok_def long_bits_def)
  have "- (2 ^ (long_bits E - 1)) \<le> l \<and> l \<le> 2 ^ (long_bits E - 1)"
    using assms(2) by (auto simp: c_strtol_def saturate_def split: option.splits)
  with two have "\<bar>l\<bar> \<le> 2 ^ 127" by linarith
  then have "nat \<bar>l\<bar> < 10 ^ 39" by simp
  then have "length (dec (nat \<bar>l\<bar>)) \<le> 39" by (rule length_dec_le) simp
  then have "length (show_int l) \<le> 40" by (auto simp: show_int_def abs_if split: if_splits)
  moreover have fmt: "c_format ''/proc/%ld/cmdline'' [FInt l] = ''/proc/'' @ show_int l @ ''/cmdline''" by simp
  ultimately show ?thesis by (simp only: fmt c_snprintf_fits) (simp add: c_snprintf_def)
qed

text \<open>An entry that is read as the reference reads it.\<close>

lemma proc_entry_ref:
  assumes "ptr_ok E" and "clean E P (n, d_name)"
  shows "proc_entry E P n d_name = Inr (entry_of E P (n, d_name))"
proof -
  obtain l r where st: "c_strtol (long_bits E) d_name = (l, r)" by force
  let ?p = "''/proc/'' @ show_int l @ ''/cmdline''"
  have path: "c_buf (c_snprintf 255 ''/proc/%ld/cmdline'' [FInt l]) = ?p"
    using path_fits [OF assms(1) st] by simp
  show ?thesis
  proof (cases "r = [] \<and> (\<exists>content. cmdline P n ?p = Some content \<and> content \<noteq> [])")
    case True
    then obtain content where c: "cmdline P n ?p = Some content" "content \<noteq> []" "r = []" by blast
    with assms(2) st have "hd content \<noteq> NUL" by (simp add: clean_def)
    from fgets_text [OF c(2) this] obtain buf where "c_fgets 255 content = Some buf" "cstr buf \<noteq> []"
      "(if last (cstr buf) = LF then butlast (cstr buf) else cstr buf) = entry_text content" by metis
    with c st path show ?thesis
      by (auto simp: proc_entry_def entry_of_def Let_def split: if_splits)
  next
    case False
    with st path show ?thesis
      by (auto simp: proc_entry_def entry_of_def Let_def c_fgets_def split: option.splits)
  qed
qed

lemma listing_from_simps [simp]:
  "listing_from E P n [] = []"
  "listing_from E P n (d # ds) = (case entry_of E P (n, d) of
     None \<Rightarrow> listing_from E P (Suc n) ds | Some e \<Rightarrow> e # listing_from E P (Suc n) ds)"
  by (simp_all add: listing_from_def map_filter_def split: option.splits)

section \<open>The lookup\<close>

lemma getpid_loop_found: "0 \<le> p \<Longrightarrow> getpid_loop E P name n names p = Inr p"
  by (cases names) simp_all

lemma getpid_loop_ref:
  assumes "ptr_ok E" and "clean_from E P n names"
    and "\<forall>(p, s) \<in> set (listing_from E P n names). 0 \<le> p"
  shows "getpid_loop E P name n (names @ rest) (- 1) =
    (case find (\<lambda>(p, s). s = cstr name) (listing_from E P n names) of
       None \<Rightarrow> getpid_loop E P name (n + length names) rest (- 1) | Some (p, s) \<Rightarrow> Inr p)"
  using assms(2,3)
proof (induction names arbitrary: n)
  case (Cons d ds)
  with Cons show ?case
    using getpid_loop_found
    by (auto simp: proc_entry_ref [OF assms(1)] split: option.splits)
qed simp

section \<open>The list\<close>

text \<open>
  A table that holds the entries of a list: its block has the capacity it records, which is
  at most 32 entries more than are used.
\<close>

definition filled :: "(int \<times> string) list \<Rightarrow> nat list \<Rightarrow> proc_def option list" where
  "filled es bs = map2 (\<lambda>(p, s) b. Some \<lparr>pid = p, comm = (b, s)\<rparr>) es bs"

definition table_holds :: "(int \<times> string) list \<Rightarrow> nat list \<Rightarrow> proc_table \<Rightarrow> bool" where
  "table_holds es bs t \<longleftrightarrow> nproc t = int (length es) \<and> table_ptr t \<noteq> 0
     \<and> int (length (proc_cells t)) = proc_table_n t \<and> int (length es) \<le> proc_table_n t
     \<and> proc_table_n t \<le> int (length es) + PROC_TABLE_SIZE
     \<and> 0 \<notin> set bs
     \<and> length bs = length es \<and> take (length es) (proc_cells t) = filled es bs"

definition table_blocks :: "nat list \<Rightarrow> proc_table \<Rightarrow> nat multiset" where
  "table_blocks bs t = {#table_ptr t#} + mset bs"

lemma length_filled [simp]: "length bs = length es \<Longrightarrow> length (filled es bs) = length es"
  by (simp add: filled_def)

lemma filled_snoc: "length bs = length es \<Longrightarrow>
  filled (es @ [(p, s)]) (bs @ [b]) = filled es bs @ [Some \<lparr>pid = p, comm = (b, s)\<rparr>]"
  by (simp add: filled_def)

lemma ptr_ok_pow:
  assumes "ptr_ok E"
  shows "(2::int) ^ 31 \<le> 2 ^ (8 * sizeof_ptr E - 1)" "(2::int) ^ 31 \<le> 2 ^ (8 * sizeof_ptr E)"
proof -
  have "31 \<le> 8 * sizeof_ptr E - 1" using assms by (auto simp: ptr_ok_def)
  then show "(2::int) ^ 31 \<le> 2 ^ (8 * sizeof_ptr E - 1)" "(2::int) ^ 31 \<le> 2 ^ (8 * sizeof_ptr E)"
    by (intro power_increasing; simp)+
qed

text \<open>The table has room for one more entry after the growth step.\<close>

lemma grow_table_ok:
  assumes h: "table_holds es bs t" and l: "live w = base + table_blocks bs t"
    and len: "length es < 2 ^ 24" and E: "ptr_ok E" "reallocs E"
  obtains t' w' where "grow_table E t w = Inr (t', w')" and "table_holds es bs t'"
    and "nproc t' < proc_table_n t'" and "live w' = base + table_blocks bs t'"
proof (cases "nproc t < proc_table_n t")
  case True
  with h l that show thesis by (simp add: grow_table_def)
next
  case False
  with h have n: "nproc t = int (length es)" "proc_table_n t = int (length es)"
    "length (proc_cells t) = length es"
    by (auto simp: table_holds_def)
  let ?n = "int (length es) + 16"
  have sz: "sizeof_proc_def E \<le> 32" "0 < sizeof_proc_def E" "0 < sizeof_ptr E" "4 \<le> sizeof_ptr E"
    using E(1) by (auto simp: sizeof_proc_def_def ptr_ok_def)
  have "?n * sizeof_proc_def E \<le> (2 ^ 24 + 16) * 32"
    using sz len by (intro mult_mono) simp_all
  then have small: "?n * sizeof_proc_def E < 2 ^ 30" by simp
  have ex: "(2::int) ^ 30 \<le> 2 ^ (8 * sizeof_ptr E - 1) - 1"
    using ptr_ok_pow(1) [OF E(1)] by simp
  have "(2::int) ^ 30 \<le> 2 ^ (8 * sizeof_ptr E)" using ptr_ok_pow(2) [OF E(1)] by simp
  then have size: "c_size (sizeof_ptr E) (?n * sizeof_proc_def E) = ?n * sizeof_proc_def E"
    using small sz by (intro c_size_id) simp_all
  have m: "nat (?n * sizeof_proc_def E div sizeof_proc_def E) = length es + 16" using sz by simp
  let ?w = "w\<lparr>tick := Suc (tick w), brk := Suc (brk w), heap := Suc (brk w) # remove1 (table_ptr t) (heap w)\<rparr>"
  have re: "c_realloc E (table_ptr t) (?n * sizeof_proc_def E) w = (Suc (brk w), ?w)"
    using E(2) small ex by (simp add: c_realloc_def ask_def reallocs_def PTRDIFF_MAX_def)
  let ?t = "t\<lparr>table_ptr := Suc (brk w), proc_table_n := ?n,
    proc_cells := proc_cells t @ replicate 16 None\<rparr>"
  have "grow_table E t w = Inr (?t, ?w)"
    using False n len size m re by (simp add: grow_table_def INT_MAX_def PROC_TABLE_INC_def Let_def)
  moreover have "table_holds es bs ?t"
    using h n by (simp add: table_holds_def PROC_TABLE_SIZE_def)
  moreover have "live ?w = base + table_blocks bs ?t"
    using l by (simp add: live_def table_blocks_def)
  ultimately show thesis using n by (intro that) simp_all
qed

lemma add_entry_ok:
  assumes h: "table_holds es bs t" and l: "live w = base + table_blocks bs t"
    and len: "length es < 2 ^ 24" and E: "ptr_ok E" "reallocs E" "mallocs E"
    and str: "length str \<le> 254"
  obtains b t' w' where "add_entry E p str t w = Inr (t', w')"
    and "table_holds (es @ [(p, str)]) (bs @ [b]) t'" and "live w' = base + table_blocks (bs @ [b]) t'"
proof -
  obtain t1 w1 where g: "grow_table E t w = Inr (t1, w1)" "table_holds es bs t1"
    "nproc t1 < proc_table_n t1" "live w1 = base + table_blocks bs t1"
    by (rule grow_table_ok [OF h l len E(1,2)])
  have strlen: "int (c_strlen str) + 1 \<le> 255"
    using str length_takeWhile_le [of "\<lambda>c. c \<noteq> NUL" str] by (simp add: c_strlen_def cstr_def)
  with ptr_ok_pow [OF E(1)] have "c_size (sizeof_ptr E) (int (c_strlen str) + 1) = int (c_strlen str) + 1"
    "int (c_strlen str) + 1 \<le> PTRDIFF_MAX E"
    by (auto simp: PTRDIFF_MAX_def)
  then have m: "c_malloc E (c_size (sizeof_ptr E) (int (c_strlen str) + 1)) w1 =
      (Suc (brk w1), w1\<lparr>tick := Suc (tick w1), brk := Suc (brk w1), heap := Suc (brk w1) # heap w1\<rparr>)"
    using E(3) by (simp add: c_malloc_def ask_def mallocs_def)
  let ?b = "Suc (brk w1)"
  let ?t = "t1\<lparr>proc_cells := (proc_cells t1)[length es := Some \<lparr>pid = p, comm = (?b, str)\<rparr>],
    nproc := int (length es) + 1\<rparr>"
  let ?w = "w1\<lparr>tick := Suc (tick w1), brk := Suc (brk w1), heap := Suc (brk w1) # heap w1\<rparr>"
  have room: "length es < length (proc_cells t1)" "table_ptr t1 \<noteq> 0" "nproc t1 = int (length es)"
    "length bs = length es"
    using g(2,3) by (auto simp: table_holds_def)
  then have "add_entry E p str t w = Inr (?t, ?w)"
    using g(1) m by (simp add: add_entry_def Let_def)
  moreover have "table_holds (es @ [(p, str)]) (bs @ [?b]) ?t"
    using g(2,3) room by (simp add: table_holds_def filled_snoc take_Suc_conv_app_nth)
  moreover have "live ?w = base + table_blocks (bs @ [?b]) ?t"
    using g(4) by (simp add: live_def table_blocks_def)
  ultimately show thesis by (rule that)
qed

lemma entry_text_length: "entry_of E P (n, d) = Some (p, s) \<Longrightarrow> length s \<le> 254"
proof -
  assume "entry_of E P (n, d) = Some (p, s)"
  then obtain content where "s = entry_text content"
    by (auto simp: entry_of_def Let_def split: prod.splits option.splits if_splits)
  moreover have "length (entry_text content) \<le> length (take 254 content)"
    unfolding entry_text_def cstr_def by (meson length_takeWhile_le order_trans)
  ultimately show "length s \<le> 254" by simp
qed

lemma proclist_loop_ok:
  assumes "table_holds es bs t" and "live w = base + table_blocks bs t"
    and "length es + length names \<le> 2 ^ 24" and E: "ptr_ok E" "reallocs E" "mallocs E"
    and "clean_from E P n names"
  shows "\<exists>t' w' bs'. proclist_loop E P n names t w = Inr (t', w')
    \<and> table_holds (es @ listing_from E P n names) bs' t' \<and> live w' = base + table_blocks bs' t'"
  using assms(1-3,7)
proof (induction names arbitrary: es bs t w n)
  case Nil
  then show ?case by auto
next
  case (Cons d ds)
  have cl: "clean E P (n, d)" "clean_from E P (Suc n) ds" using Cons.prems(4) by simp_all
  note entry = proc_entry_ref [OF E(1) cl(1)]
  show ?case
  proof (cases "entry_of E P (n, d)")
    case None
    with Cons entry cl(2) show ?thesis by simp
  next
    case (Some e)
    then obtain p s where e: "e = (p, s)" "length s \<le> 254" using entry_text_length by (cases e) blast
    have "length es < 2 ^ 24" using Cons.prems(3) by simp
    from add_entry_ok [OF Cons.prems(1,2) this E e(2), of p] obtain b t1 w1
      where a: "add_entry E p s t w = Inr (t1, w1)" "table_holds (es @ [(p, s)]) (bs @ [b]) t1"
        "live w1 = base + table_blocks (bs @ [b]) t1" by metis
    from Cons.IH [OF a(2,3) _ cl(2)] Cons.prems(3) a(1) entry Some e show ?thesis by simp
  qed
qed

text \<open>An allocation of the table at the start of the scan.\<close>

lemma new_table_ok:
  assumes "ptr_ok E" and "mallocs E"
  obtains t w' where "new_table E w = (t, w')" and "table_holds [] [] t" and "live w' = live w + table_blocks [] t"
proof -
  have "\<not> PTRDIFF_MAX E < PROC_TABLE_SIZE * sizeof_proc_def E"
    using assms(1) ptr_ok_pow(1) [OF assms(1)] by (simp add: PTRDIFF_MAX_def PROC_TABLE_SIZE_def sizeof_proc_def_def ptr_ok_def)
  then show thesis
    using assms(2)
    by (intro that) (auto simp: new_table_def c_malloc_def ask_def mallocs_def table_holds_def table_blocks_def
        live_def PROC_TABLE_SIZE_def filled_def)
qed


section \<open>Properties\<close>

text \<open>C28: \<open>su_srv_getpid\<close> is the lookup in the list of the running processes: it returns the PID of
  the first one whose name is the given one, and -1 when there is none or \<open>/proc\<close> cannot be
  read, while no command line begins with a NUL. The name of a process is at most 254 bytes
  of the first argument of its command line, up to a line feed.\<close>

theorem getpid_first:
  assumes "ptr_ok E" and "no_blank E P" and "\<forall>(p, s) \<in> set (listing E P). 0 \<le> p"
  shows "su_srv_getpid E P procname =
    Inr (case find (\<lambda>(p, s). s = cstr procname) (listing E P) of None \<Rightarrow> - 1 | Some (p, s) \<Rightarrow> p)"
proof (cases "entries P")
  case (Some names)
  then show ?thesis
    using getpid_loop_ref [OF assms(1), where names = names and n = 0 and rest = "[]"] assms(2,3)
    by (simp add: su_srv_getpid_def listing_def no_blank_def split: option.splits)
qed (simp add: su_srv_getpid_def listing_def)

text \<open>The text read is cut at 254 bytes: a longer name is never found.\<close>

lemma listing_text:
  assumes "(p, s) \<in> set (listing E P)"
  shows "length s \<le> 254" and "NUL \<notin> set s"
proof -
  obtain names nd where "entry_of E P nd = Some (p, s)"
    using assms by (auto simp: listing_def listing_from_def map_filter_def split: option.splits)
  then obtain n d where e: "entry_of E P (n, d) = Some (p, s)" by (cases nd) simp
  then show "length s \<le> 254" by (rule entry_text_length)
  from e obtain content where "s = entry_text content"
    by (auto simp: entry_of_def Let_def split: prod.splits option.splits if_splits)
  then show "NUL \<notin> set s" unfolding entry_text_def by (auto dest!: set_takeWhileD)
qed

lemma getpid_long_name:
  assumes "254 < c_strlen procname"
  shows "find (\<lambda>(p, s). s = cstr procname) (listing E P) = None"
  using listing_text(1) assms by (fastforce simp: find_None_iff c_strlen_def)

text \<open>The whole scan, with the table and its blocks.\<close>

lemma getproclist_run:
  assumes "ptr_ok E" and "reallocs E" and "mallocs E" and "no_blank E P"
    and "\<forall>names. entries P = Some names \<longrightarrow> length names \<le> 2 ^ 24"
  shows "\<exists>t w' bs. su_srv_getproclist E P w = Inr (int (length (listing E P)), t, w')
    \<and> table_holds (listing E P) bs t \<and> live w' = live w + table_blocks bs t"
proof -
  obtain t w1 where t: "new_table E w = (t, w1)" "table_holds [] [] t" "live w1 = live w + table_blocks [] t"
    by (rule new_table_ok [OF assms(1,3)])
  show ?thesis
  proof (cases "entries P")
    case None
    with t show ?thesis
      by (auto simp: su_srv_getproclist_def listing_def table_holds_def)
  next
    case (Some names)
    then have "length [] + length names \<le> 2 ^ 24" using assms(5) by simp
    from proclist_loop_ok [OF t(2,3) this assms(1-3), of P 0] assms(4) Some obtain t' w' bs
      where r: "proclist_loop E P 0 names t w1 = Inr (t', w')"
      "table_holds (listing_from E P 0 names) bs t'" "live w' = live w + table_blocks bs t'"
      by (auto simp: no_blank_def)
    with t Some show ?thesis
      by (auto simp: su_srv_getproclist_def listing_def table_holds_def)
  qed
qed

text \<open>C27: \<open>su_srv_getproclist\<close> gives every running process once, in order, whatever their number:
  the table grows past its 32 entries without a write outside it, the returned count is its
  length, and the blocks that the caller must free are the table and one text per entry.\<close>

theorem getproclist_lists:
  assumes "ptr_ok E" and "reallocs E" and "mallocs E" and "no_blank E P"
    and "\<forall>names. entries P = Some names \<longrightarrow> length names \<le> 2 ^ 24"
  shows "\<exists>t w' bs. su_srv_getproclist E P w = Inr (int (length (listing E P)), t, w')
    \<and> take (length (listing E P)) (proc_cells t) = filled (listing E P) bs
    \<and> length bs = length (listing E P) \<and> length (listing E P) \<le> length (proc_cells t)
    \<and> live w' = live w + ({#table_ptr t#} + mset bs)"
  using getproclist_run [OF assms, of w] by (fastforce simp: table_holds_def table_blocks_def)

text \<open>C39: A command line that begins with a NUL (a process may overwrite its own) breaks both
  scans, wherever it comes: the text read is empty, and the last character of it is sought
  before the array. Only the lookup of a process that comes before it succeeds.\<close>

theorem blank_cmdline:
  assumes "ptr_ok E" and "reallocs E" and "mallocs E" and "int q < 2 ^ (long_bits E - 1)"
    and "entries P = Some (pre @ dec q # post)" and "length pre \<le> 2 ^ 24"
    and "clean_from E P 0 pre" and "\<forall>(p, s) \<in> set (listing_from E P 0 pre). 0 \<le> p"
    and "cmdline P (length pre) (''/proc/'' @ dec q @ ''/cmdline'') = Some (NUL # content)"
  shows "su_srv_getproclist E P w = Inl OutOfBounds
    \<and> su_srv_getpid E P procname = (case find (\<lambda>(p, s). s = cstr procname) (listing_from E P 0 pre) of
        None \<Rightarrow> Inl OutOfBounds | Some (p, s) \<Rightarrow> Inr p)"
proof -
  have st: "c_strtol (long_bits E) (dec q) = (int q, [])" by (rule c_strtol_dec [OF assms(4)])
  have "show_int (int q) = dec q" by (simp add: show_int_def)
  moreover have "c_fgets 255 (NUL # content) = Some (NUL # (if LF \<in> set (take 253 content)
      then takeWhile (\<lambda>c. c \<noteq> LF) (take 253 content) @ [LF] else take 253 content))"
    by (simp add: c_fgets_def Let_def take_Cons')
  ultimately have blank: "proc_entry E P (length pre) (dec q) = Inl OutOfBounds"
    using path_fits [OF assms(1) st] st assms(9) by (simp add: proc_entry_def cstr_def)
  have app: "proclist_loop E P n (xs @ ys) t v =
      c_bind (proclist_loop E P n xs t v) (\<lambda>(t, v). proclist_loop E P (n + length xs) ys t v)"
    for n xs ys t and v :: "'a os_scheme"
    by (induction xs arbitrary: n t v) (auto simp: c_bind_def split: sum.splits option.splits)
  obtain t w1 where t: "new_table E w = (t, w1)" "table_holds [] [] t" "live w1 = live w + table_blocks [] t"
    by (rule new_table_ok [OF assms(1,3)])
  have "length [] + length pre \<le> 2 ^ 24" using assms(6) by simp
  from proclist_loop_ok [OF t(2,3) this assms(1-3), of P 0] assms(7) obtain t' w'
    where "proclist_loop E P 0 pre t w1 = Inr (t', w')" by auto
  with t(1) assms(5) blank have "su_srv_getproclist E P w = Inl OutOfBounds"
    by (simp add: su_srv_getproclist_def app)
  moreover have "su_srv_getpid E P procname = (case find (\<lambda>(p, s). s = cstr procname) (listing_from E P 0 pre) of
        None \<Rightarrow> Inl OutOfBounds | Some (p, s) \<Rightarrow> Inr p)"
    using getpid_loop_ref [OF assms(1) _ assms(8), of procname "dec q # post"] assms(5,7) blank
    by (simp add: su_srv_getpid_def split: option.splits)
  ultimately show ?thesis by simp
qed

text \<open>No allocation of the scan is checked: when the table itself cannot be allocated, the first
  running process is written through the null pointer.\<close>

theorem getproclist_no_memory:
  assumes "ptr_ok E" and "no_blank E P" and "listing E P \<noteq> []"
    and "fails E (Malloc (PROC_TABLE_SIZE * sizeof_proc_def E)) (tick w) \<noteq> 0"
  shows "su_srv_getproclist E P w = Inl NullDeref"
proof -
  let ?t = "\<lparr>table_ptr = 0, proc_cells = [], nproc = 0, proc_table_n = 32\<rparr>"
  obtain names where names: "entries P = Some names" "listing_from E P 0 names \<noteq> []"
    using assms(3) by (auto simp: listing_def split: option.splits)
  have "proclist_loop E P n names ?t v = Inl NullDeref"
    if "listing_from E P n names \<noteq> []" "clean_from E P n names" for n names and v :: "'a os_scheme"
    using that
  proof (induction names arbitrary: n)
    case (Cons d ds)
    then show ?case
      by (auto simp: proc_entry_ref [OF assms(1)] add_entry_def grow_table_def split: option.splits)
  qed simp
  with names assms(2,4) show ?thesis
    by (auto simp: no_blank_def su_srv_getproclist_def new_table_def c_malloc_def ask_def PROC_TABLE_SIZE_def)
qed

section \<open>Instances\<close>

text \<open>A small \<open>/proc\<close>: an entry that is no process, a kernel thread without a command line, a
  process that runs a shell and one whose name ends with a line feed.\<close>

definition sample_procfs :: procfs where
  "sample_procfs = \<lparr>entries = Some [''.'', ''self'', ''2'', ''14'', ''7''],
     cmdline = (\<lambda>n p. map_of [(''/proc/2/cmdline'', []), (''/proc/14/cmdline'', ''sh'' @ [NUL] @ ''-c''),
       (''/proc/7/cmdline'', ''init'' @ [LF])] p)\<rparr>"

lemma sample_clean: "no_blank E sample_procfs"
  by (auto simp: no_blank_def clean_from_def clean_def sample_procfs_def split: if_splits)

lemma sample_listing: "listing sample_env sample_procfs = [(14, ''sh''), (7, ''init'')]"
  by code_simp

theorem getpid_first_witness:
  "su_srv_getpid sample_env sample_procfs ''init'' = Inr 7
   \<and> su_srv_getpid sample_env sample_procfs ''-c'' = Inr (- 1)"
  using getpid_first [OF sample_env_ok(1) sample_clean] by (simp add: sample_listing)

theorem getproclist_lists_witness:
  "\<exists>t w'. su_srv_getproclist sample_env sample_procfs sample_os = Inr (2, t, w')
     \<and> map (map_option pid) (take 2 (proc_cells t)) = [Some 14, Some 7]"
proof -
  have "\<forall>names. entries sample_procfs = Some names \<longrightarrow> length names \<le> 2 ^ 24"
    by (simp add: sample_procfs_def)
  from getproclist_lists [OF sample_env_ok(1,2,3) sample_clean this, of sample_os] show ?thesis
    by (auto simp: sample_listing filled_def length_Suc_conv numeral_2_eq_2)
qed

definition blank_procfs :: procfs where
  "blank_procfs = \<lparr>entries = Some [''14'', ''7''],
     cmdline = (\<lambda>n p. map_of [(''/proc/14/cmdline'', ''sh'' @ [NUL]), (''/proc/7/cmdline'', [NUL, NUL])] p)\<rparr>"

theorem blank_cmdline_witness:
  "su_srv_getpid sample_env blank_procfs ''sh'' = Inr 14
   \<and> su_srv_getpid sample_env blank_procfs ''ls'' = Inl OutOfBounds
   \<and> su_srv_getproclist sample_env blank_procfs sample_os = Inl OutOfBounds"
proof -
  have d: "dec 7 = ''7''" and l: "listing_from sample_env blank_procfs 0 [''14''] = [(14, ''sh'')]" by code_simp+
  have "int 7 < 2 ^ (long_bits sample_env - 1)" by (simp add: long_bits_def sample_env_def)
  moreover have "entries blank_procfs = Some ([''14''] @ dec 7 # [])"
    "cmdline blank_procfs (length [''14'']) (''/proc/'' @ dec 7 @ ''/cmdline'') = Some (NUL # [NUL])"
    by (simp_all add: d blank_procfs_def)
  moreover have "c_strtol (long_bits sample_env) ''14'' = (14, [])" "show_int 14 = ''14''" by code_simp+
  then have "clean_from sample_env blank_procfs 0 [''14'']"
    by (simp add: clean_def blank_procfs_def)
  ultimately have "su_srv_getproclist sample_env blank_procfs sample_os = Inl OutOfBounds
      \<and> su_srv_getpid sample_env blank_procfs name =
        (case find (\<lambda>(p, s). s = cstr name) [(14, ''sh'')] of None \<Rightarrow> Inl OutOfBounds | Some (p, s) \<Rightarrow> Inr p)"
    for name
    using blank_cmdline [OF sample_env_ok(1,2,3), of 7 blank_procfs "[''14'']" "[]" "[NUL]" sample_os name]
    by (simp add: l del: listing_from_simps)
  from this [of "''sh''"] this [of "''ls''"] show ?thesis by simp
qed

theorem getproclist_no_memory_witness:
  "su_srv_getproclist (sample_env\<lparr>fails := (\<lambda>c t. 12)\<rparr>) sample_procfs sample_os = Inl NullDeref"
proof -
  let ?E = "sample_env\<lparr>fails := (\<lambda>c t. 12)\<rparr>"
  have "ptr_ok ?E" by (simp add: ptr_ok_def sample_env_def)
  moreover have "listing ?E sample_procfs = [(14, ''sh''), (7, ''init'')]" by code_simp
  ultimately show ?thesis using getproclist_no_memory [of ?E sample_procfs] sample_clean by simp
qed

end
