(* ===== verification/Jni.thy ===== *)
theory Jni
  imports Tools Endings
begin

text \<open>
  The JNI bridge (\<open>jni/su_srv_jni.c\<close>): one function per native method of the Java class, each
  a call of the library between conversions of its strings. The conversions are the Java
  machine's: parameters, and its failures (no memory for a string) are not modelled.
\<close>

section \<open>The Java machine\<close>

text \<open>A Java string is opaque: \<open>utf_chars\<close> is what \<open>GetStringUTFChars\<close> gives for it,
  \<open>new_utf\<close> what \<open>NewStringUTF\<close> makes of a C string.\<close>

record 'j jni_env =
  utf_chars :: "'j \<Rightarrow> string"
  new_utf :: "string \<Rightarrow> 'j"

section \<open>The methods\<close>

definition jni_openShellSession ::
  "'j jni_env \<Rightarrow> env \<Rightarrow> 'j \<Rightarrow> 'a process_scheme \<Rightarrow> (int, 'a process_scheme) run c_result" where
  "jni_openShellSession J E jPfsRoot w = su_srv_open_shell_session E (utf_chars J jPfsRoot) w"

text \<open>The calls that block are begun here; their steps are those of theory Conc.\<close>

definition jni_exec :: "'j jni_env \<Rightarrow> 'j \<Rightarrow> event" where
  "jni_exec J jCommand = Do_call (utf_chars J jCommand)"

definition jni_exitShellSession :: event where
  "jni_exitShellSession = Do_call_exit"

definition jni_getLastTtyRead :: "'j jni_env \<Rightarrow> 'a process_scheme \<Rightarrow> 'j" where
  "jni_getLastTtyRead J w =
     (case su_srv_last_tty_read w of Some line \<Rightarrow> new_utf J (cstr line) | None \<Rightarrow> new_utf J [])"

definition jni_getTtyPath :: "'j jni_env \<Rightarrow> 'a process_scheme \<Rightarrow> 'j" where
  "jni_getTtyPath J w =
     (case su_srv_tty_path w of Some line \<Rightarrow> new_utf J (cstr line) | None \<Rightarrow> new_utf J [])"

text \<open>The entry \<open>k\<close> of the table, read through its pointer.\<close>

definition table_at :: "proc_table \<Rightarrow> nat \<Rightarrow> proc_def c_result" where
  "table_at t k =
     (if table_ptr t = 0 then Inl NullDeref
      else if length (proc_cells t) \<le> k then Inl OutOfBounds
      else case proc_cells t ! k of None \<Rightarrow> Inl UninitRead | Some d \<Rightarrow> Inr d)"

text \<open>The two loops: over the indices below \<open>nproc\<close>, one fills the array, one frees the texts.\<close>

fun set_elements :: "'j jni_env \<Rightarrow> proc_table \<Rightarrow> nat list \<Rightarrow> 'j list \<Rightarrow> 'j list c_result" where
  "set_elements J t [] arr = Inr arr"
| "set_elements J t (k # ks) arr =
     c_bind (table_at t k) (\<lambda>d.
       set_elements J t ks (arr[k := new_utf J (cstr (snd (comm d)))]))"

fun free_comms :: "proc_table \<Rightarrow> nat list \<Rightarrow> 'a os_scheme \<Rightarrow> 'a os_scheme c_result" where
  "free_comms t [] w = Inr w"
| "free_comms t (k # ks) w =
     c_bind (table_at t k) (\<lambda>d. free_comms t ks (free_if (fst (comm d)) w))"

definition jni_getproclist ::
  "'j jni_env \<Rightarrow> env \<Rightarrow> procfs \<Rightarrow> 'a os_scheme \<Rightarrow> ('j list \<times> 'a os_scheme) c_result" where
  "jni_getproclist J E P w =
     c_bind (su_srv_getproclist E P w) (\<lambda>(nproc, t, w).
       let proc_array = replicate (nat nproc) (new_utf J [])
       in c_bind (set_elements J t [0..<nat nproc] proc_array) (\<lambda>proc_array.
          c_bind (free_comms t [0..<nat nproc] w) (\<lambda>w.
            Inr (proc_array, free_if (table_ptr t) w))))"

text \<open>A \<open>jint\<close> has 32 bits, the PID is a \<open>long\<close>.\<close>

definition jni_getpid :: "'j jni_env \<Rightarrow> env \<Rightarrow> procfs \<Rightarrow> 'j \<Rightarrow> int c_result" where
  "jni_getpid J E P jProcname = c_bind (su_srv_getpid E P (utf_chars J jProcname)) (\<lambda>r. Inr (c_int r))"

definition jni_ping :: "'a process_scheme \<Rightarrow> int" where
  "jni_ping w = su_srv_ping_shell_session w"

definition jni_setTtyEcho :: "int \<Rightarrow> 'a process_scheme \<Rightarrow> 'a process_scheme" where
  "jni_setTtyEcho jEcho w = su_srv_set_tty_echo jEcho w"

definition jni_getTtyEcho :: "'a process_scheme \<Rightarrow> int" where
  "jni_getTtyEcho w = su_srv_get_tty_echo w"

section \<open>Freeing the list\<close>

text \<open>A table whose first entries are those of a list.\<close>

lemma filled_at:
  assumes "take (length es) (proc_cells t) = filled es bs" and "length bs = length es"
    and "length es \<le> length (proc_cells t)" and "table_ptr t \<noteq> 0" and "k < length es"
  shows "table_at t k = Inr \<lparr>pid = fst (es ! k), comm = (bs ! k, snd (es ! k))\<rparr>"
proof -
  have "proc_cells t ! k = filled es bs ! k"
    using assms(1,5) by (metis nth_take)
  with assms show ?thesis by (simp add: table_at_def filled_def split_beta)
qed

lemma set_elements_all:
  assumes "\<forall>k < n. \<exists>d. table_at t k = Inr d \<and> snd (comm d) = f k" and "length arr = n" and "m \<le> n"
  shows "set_elements J t [m..<n] arr = Inr (take m arr @ map (\<lambda>k. new_utf J (cstr (f k))) [m..<n])"
  using assms(2,3)
proof (induction "n - m" arbitrary: m arr)
  case 0
  then show ?case by simp
next
  case (Suc x)
  then have m: "m < n" by simp
  then obtain d where d: "table_at t m = Inr d" "snd (comm d) = f m" using assms(1) by blast
  have up: "[m..<n] = m # [Suc m..<n]" using m by (rule upt_conv_Cons)
  have "set_elements J t [Suc m..<n] (arr[m := new_utf J (cstr (f m))]) =
      Inr (take (Suc m) (arr[m := new_utf J (cstr (f m))]) @ map (\<lambda>k. new_utf J (cstr (f k))) [Suc m..<n])"
    using Suc by (intro Suc.hyps(1)) simp_all
  then show ?case
    using d m Suc.prems by (simp add: up take_Suc_conv_app_nth)
qed

lemma free_comms_all:
  assumes "\<forall>k \<in> set ks. \<exists>d. table_at t k = Inr d \<and> fst (comm d) = g k"
  shows "\<exists>w'. free_comms t ks w = Inr w' \<and> live w' = live w - (\<Sum>k\<leftarrow>ks. blk (g k))"
  using assms
proof (induction ks arbitrary: w)
  case Nil
  then show ?case by simp
next
  case (Cons k ks)
  then obtain d where d: "table_at t k = Inr d" "fst (comm d) = g k" by auto
  from Cons obtain w' where "free_comms t ks (free_if (g k) w) = Inr w'"
    "live w' = live (free_if (g k) w) - (\<Sum>k\<leftarrow>ks. blk (g k))"
    using Cons.IH [of "free_if (g k) w"] by auto
  with d show ?case by (simp add: diff_diff_add)
qed

section \<open>Properties\<close>

text \<open>C29: \<open>getproclist\<close> hands the names of the running processes to Java, in order, and releases
  everything the scan allocated: the texts, then the table.\<close>

theorem jni_getproclist_balanced:
  assumes "ptr_ok E" and "reallocs E" and "mallocs E" and "no_blank E P"
    and "\<forall>names. entries P = Some names \<longrightarrow> length names \<le> 2 ^ 24"
  shows "\<exists>w'. jni_getproclist J E P w = Inr (map (\<lambda>(p, s). new_utf J s) (listing E P), w')
    \<and> live w' = live w"
proof -
  let ?es = "listing E P"
  obtain t w1 bs where r: "su_srv_getproclist E P w = Inr (int (length ?es), t, w1)"
    "take (length ?es) (proc_cells t) = filled ?es bs" "length bs = length ?es"
    "length ?es \<le> length (proc_cells t)" "live w1 = live w + ({#table_ptr t#} + mset bs)"
    "table_ptr t \<noteq> 0" "0 \<notin> set bs"
    using getproclist_run [OF assms, of w] by (fastforce simp: table_holds_def table_blocks_def)
  note at = filled_at [OF r(2,3,4,6)]
  have "set_elements J t [0..<length ?es] (replicate (length ?es) (new_utf J [])) =
      Inr (map (\<lambda>k. new_utf J (cstr (snd (?es ! k)))) [0..<length ?es])"
    using set_elements_all [of "length ?es" t "\<lambda>k. snd (?es ! k)" "replicate (length ?es) (new_utf J [])" 0 J]
    by (simp add: at)
  moreover have "map (\<lambda>k. new_utf J (cstr (snd (?es ! k)))) [0..<length ?es] = map (\<lambda>(p, s). new_utf J s) ?es"
  proof (rule nth_equalityI)
    fix k
    assume "k < length (map (\<lambda>k. new_utf J (cstr (snd (?es ! k)))) [0..<length ?es])"
    then have k: "k < length ?es" by simp
    then have "?es ! k \<in> set ?es" by simp
    with k show "map (\<lambda>k. new_utf J (cstr (snd (?es ! k)))) [0..<length ?es] ! k = map (\<lambda>(p, s). new_utf J s) ?es ! k"
      using listing_text(2) [of "fst (?es ! k)" "snd (?es ! k)" E P] by (simp add: split_beta)
  qed simp
  moreover obtain w2 where "free_comms t [0..<length ?es] w1 = Inr w2"
    "live w2 = live w1 - (\<Sum>k\<leftarrow>[0..<length ?es]. blk (bs ! k))"
    using free_comms_all [of "[0..<length ?es]" t "\<lambda>k. bs ! k" w1] by (auto simp: at)
  moreover have "(\<Sum>k\<leftarrow>[0..<length ?es]. blk (bs ! k)) = mset bs"
  proof -
    have "(\<Sum>b\<leftarrow>cs. blk b) = mset cs" if "0 \<notin> set cs" for cs
      using that by (induction cs) (auto simp: blk_def)
    then have "(\<Sum>b\<leftarrow>bs. blk b) = mset bs" using r(7) by blast
    moreover have "map (\<lambda>k. blk (bs ! k)) [0..<length ?es] = map blk bs"
      using r(3) by (intro nth_equalityI) simp_all
    ultimately show ?thesis by simp
  qed
  ultimately show ?thesis
    using r by (simp add: jni_getproclist_def)
qed


section \<open>Instances\<close>

theorem jni_getproclist_balanced_witness:
  "\<exists>w'. jni_getproclist \<lparr>utf_chars = id, new_utf = id\<rparr> sample_env sample_procfs sample_os =
     Inr ([''sh'', ''init''], w') \<and> live w' = {#}"
proof -
  have "\<forall>names. entries sample_procfs = Some names \<longrightarrow> length names \<le> 2 ^ 24"
    by (simp add: sample_procfs_def)
  from jni_getproclist_balanced [OF sample_env_ok(1,2,3) sample_clean this, of "\<lparr>utf_chars = id, new_utf = id\<rparr>" sample_os]
  show ?thesis by (simp add: sample_listing live_def sample_os_def)
qed

end
