(* ===== verification/Spec2Isabelle.thy ===== *)
theory Spec2Isabelle
  imports Susrv_Prelude CLib Os Pfs Log Session Shell Handler Api Conc Serial Races Endings Safety
    Sequential Opening Stale Client Reuse Tools Jni
begin

text \<open>
  A model of libsusrv, a native library that binds one privileged shell to a process, and the
  theorems that say what it does.

  \<^bold>\<open>The program.\<close> \<open>su_srv_open_shell_session\<close> (\<open>jni/su_srv.c\<close>) prepares a private directory tree
  (\<open>jni/su_srv_pfs.c\<close>) and a log (\<open>jni/su_srv_log.c\<close>), allocates a session and connects a socket
  pair over a rendez-vous path (\<open>jni/su_shell_session.c\<close>), forks a \<open>su\<close> shell on one end and
  starts a handler thread that reads the other. \<open>su_srv_exec\<close> writes a command and a second one
  that prints the exit code behind a tag; the handler recognises the tag, stores the code and
  signals the waiting caller. \<open>su_srv_exit_shell_session\<close> and the handler, when the shell dies,
  stop the shell and free the session. \<open>jni/main.c\<close> is a client. \<open>jni/su_shell_tools.c\<close> scans \<open>/proc\<close>;
  \<open>jni/su_srv_jni.c\<close> gives all of it to Java.

  \<^bold>\<open>Theories.\<close>
  \<^item> \<^bold>\<open>Susrv_Prelude\<close>: undefined behaviour as a value (\<open>fault\<close>, \<open>c_result\<close>), the error codes, the
    conversions to \<open>int\<close> and \<open>size_t\<close>, \<open>||\<close> over calls with effects and its contract
    (\<open>init_chain\<close>).
  \<^item> \<^bold>\<open>CLib\<close>: the C library functions the sources use, on character lists.
  \<^item> \<^bold>\<open>Os\<close>: heap, file system, descriptors and what the outside sees of the process. The
    environment \<open>env\<close> decides which request fails and when, and which of the two builds of
    the library runs; theorems hold for every \<open>env\<close> that their hypotheses allow.
  \<^item> \<^bold>\<open>Pfs\<close>: \<open>pfs_init_dir\<close> and \<open>su_srv_pfs_init\<close>. Success means that the directories are there;
    nothing else is destroyed.
  \<^item> \<^bold>\<open>Log\<close>: the globals of the log as \<open>log_os\<close>, all its calls. They refine an append-only text.
  \<^item> \<^bold>\<open>Session\<close>: \<open>su_shell_session\<close> with creation, rendez-vous and deletion. Memory safety, balance
    of blocks, descriptors and names, the paths of distinct and of colliding sessions.
  \<^item> \<^bold>\<open>Shell\<close>: the search for \<open>su\<close>, \<open>fork\<close> and \<open>execve\<close> (a run either returns or becomes another
    program), the stop protocol and its termination, signal masks, invalidation.
  \<^item> \<^bold>\<open>Handler\<close>: the handler thread alone. Its byte loop with the growing buffer is memory safe and
    refines a fold over lines (\<open>line_step\<close>); the printed exit code is the stored one.
  \<^item> \<^bold>\<open>Api\<close>: opening a session with every branch, the accessors, and the straight-line parts of
    exec.
  \<^item> \<^bold>\<open>Conc\<close>: the threads. \<open>exec_step\<close>, \<open>handler_step\<close> and \<open>exit_step\<close> follow the program counters of
    \<open>su_srv_exec\<close>, \<open>session_handler_fn\<close> and \<open>su_srv_exit_shell_session\<close>; \<open>cstep\<close> interleaves any
    number of exec callers, one exit caller, the handler, the shell and spurious wake-ups.
    \<open>lock_ok\<close> is the invariant of the mutex and the condition variable. The contracts of a
    transition system are locales: \<open>invariant_of\<close>, \<open>simulation\<close> for a refinement, \<open>ending\<close> for
    a system whose runs end. \<open>play\<close> runs a schedule.
  \<^item> \<^bold>\<open>Serial\<close>: mutual exclusion, and the stream of whole commands.
  \<^item> \<^bold>\<open>Races\<close>: a schedule in which an exit code is delivered, and those in which it is lost, taken
    by another caller or overwritten.
  \<^item> \<^bold>\<open>Endings\<close>: what the death of the shell, an exit and a failed exit do to the callers.
  \<^item> \<^bold>\<open>Safety\<close>: until it is stopped a session is well formed (\<open>sound\<close>) under any number of callers, so
    that no step is undefined, and a caller that waits for the mutex is not deadlocked.
  \<^item> \<^bold>\<open>Sequential\<close>: the use the library is made for, one caller at a time and a shell that answers while
    it waits (\<open>polite\<close>, a part of \<open>cstep\<close>). The threads refine \<open>atomic\<close>, a list of calls that
    are single steps, each with its own exit code, and every call returns; the invariant
    \<open>one_at_a_time\<close> says how much of the answer was written and read.
  \<^item> \<^bold>\<open>Opening\<close>: an opening that returns 0 leaves the state those theorems start from; in a system that
    grants every request it returns 0; without a log the handler then faults.
  \<^item> \<^bold>\<open>Stale\<close>: a name left at the rendez-vous path makes every later opening fail.
  \<^item> \<^bold>\<open>Client\<close>: \<open>main\<close> (\<open>main_start\<close> to its first \<open>printf\<close>, then \<open>main_step\<close>) with the threads of the
    library and its shell. It prints the right lines and returns, in every interleaving.
  \<^item> \<^bold>\<open>Reuse\<close>: what a good exit gives back (\<open>homed\<close>): the client can be run in one process again and
    again.
  \<^item> \<^bold>\<open>Tools\<close>: both scans of \<open>/proc\<close> against a reference list (\<open>listing\<close>).
  \<^item> \<^bold>\<open>Jni\<close>: the native methods.

  \<^bold>\<open>Choices and bounds.\<close> A write through a null pointer, an access outside a block, a read of
  unwritten bytes, an overflowing \<open>int\<close> and a use of freed objects are results, not assumptions.
  A step of \<open>cstep\<close> is one call of the source; the log calls, \<open>shell_stop_process\<close>,
  \<open>invalidate_current_session\<close> and the treatment of one byte by the handler are one step each. The
  stop loop polls three times; the handler loop recurses on what the shell sent; no fuel is
  used. Theorems on the scans take at most \<open>2 ^ 24\<close> entries, four times what a kernel allows.
  The liveness theorems of Races and Endings say that a good end can be reached, or that no end can
  ever be; those of Sequential and Client that every run ends well. There the shell answers a
  command only once its caller waits: theory Races shows what happens when it is faster.

  \<^bold>\<open>Not modelled.\<close> Symbolic links, permissions and signals other than those the library sends; the
  content of the shell's output beyond its bytes; short and failing writes, whose results the
  sources ignore; two concurrent calls of exit, and calls that open or read a session while
  another thread frees it; memory of the Java machine; the Java classes and the build files.
\<close>

end
